(* ===== verification/Prelude.thy ===== *)
theory Prelude
  imports Complex_Main "HOL-Library.Word"
begin

text \<open>
  Shared vocabulary of the development: the machine integer types of the source, the atomic
  read-modify-write operations of \<^verbatim>\<open>std::sync::atomic\<close> on one cell, and the word, list and map
  lemmas that several components use.
\<close>

unbundle bit_operations_syntax

section \<open>Machine integers\<close>

text \<open>
  Rust's unsigned integers at their width. The target is x86-64, so \<^verbatim>\<open>usize\<close> has 64 bits.
  Sizes, counts and addresses whose wrap-around plays no role are natural numbers.
\<close>

type_synonym u8 = "8 word"
type_synonym u16 = "16 word"
type_synonym u32 = "32 word"
type_synonym u64 = "64 word"
type_synonym usize = "64 word"
type_synonym addr = nat
type_synonym tid = nat

section \<open>Atomic cells\<close>

text \<open>
  One atomic cell is passed as its current content; an operation returns its result and the new
  content. \<^verbatim>\<open>compare_exchange_weak\<close> may fail although the contents agree (a spurious failure);
  that choice is an argument. \<^verbatim>\<open>Ok\<close> is \<^const>\<open>Inr\<close>, \<^verbatim>\<open>Err\<close> is \<^const>\<open>Inl\<close>; both carry the
  content found, as in Rust.
\<close>

definition compare_exchange :: "'a \<Rightarrow> 'a \<Rightarrow> 'a \<Rightarrow> ('a + 'a) \<times> 'a" where
  "compare_exchange cur expected new =
     (if cur = expected then (Inr cur, new) else (Inl cur, cur))"

definition compare_exchange_weak :: "bool \<Rightarrow> 'a \<Rightarrow> 'a \<Rightarrow> 'a \<Rightarrow> ('a + 'a) \<times> 'a" where
  "compare_exchange_weak spurious cur expected new =
     (if cur = expected \<and> \<not> spurious then (Inr cur, new) else (Inl cur, cur))"

definition fetch_add :: "'a::len word \<Rightarrow> 'a word \<Rightarrow> 'a word \<times> 'a word" where
  "fetch_add cur amount = (cur, cur + amount)"

definition fetch_sub :: "'a::len word \<Rightarrow> 'a word \<Rightarrow> 'a word \<times> 'a word" where
  "fetch_sub cur amount = (cur, cur - amount)"

definition fetch_or :: "'a::len word \<Rightarrow> 'a word \<Rightarrow> 'a word \<times> 'a word" where
  "fetch_or cur m = (cur, cur OR m)"

definition fetch_and :: "'a::len word \<Rightarrow> 'a word \<Rightarrow> 'a word \<times> 'a word" where
  "fetch_and cur m = (cur, cur AND m)"

named_theorems atomic_simps \<open>unfolding the atomic operations\<close>

declare compare_exchange_def [atomic_simps] compare_exchange_weak_def [atomic_simps]
  fetch_add_def [atomic_simps] fetch_sub_def [atomic_simps] fetch_or_def [atomic_simps]
  fetch_and_def [atomic_simps]

section \<open>Words\<close>

text \<open>
  A word is the sum of a high part (above bit \<open>n\<close>) and a low part (below it); additions and
  subtractions of multiples of \<open>2 ^ n\<close> act on the high part only.
\<close>

lemma unat_split_at:
  fixes w :: "'a::len word"
  shows "unat w = (unat w div 2 ^ n) * 2 ^ n + unat w mod 2 ^ n"
  by (rule div_mult_mod_eq [symmetric])

lemma word_eq_split_iff:
  fixes v w :: "'a::len word"
  shows "v = w \<longleftrightarrow> unat v div 2 ^ n = unat w div 2 ^ n \<and> unat v mod 2 ^ n = unat w mod 2 ^ n"
  by (metis unat_split_at word_unat_eq_iff)

lemma bit_unat_iff: "bit (unat w) n \<longleftrightarrow> bit w n"
  for w :: "'a::len word"
  by (simp add: bit_unsigned_iff bit_imp_le_length)

lemma word_and_exp_eq_0_iff: "w AND 2 ^ n = 0 \<longleftrightarrow> \<not> bit w n"
  for w :: "'a::len word"
  by (simp add: and_exp_eq_0_iff_not_bit)

lemma unat_drop_bit_div: "unat (drop_bit n w) = unat w div 2 ^ n"
  for w :: "'a::len word"
  by (simp only: unat_drop_bit_eq drop_bit_eq_div [of n "unat w"])

lemma unat_take_bit_mod: "unat (take_bit n w) = unat w mod 2 ^ n"
  for w :: "'a::len word"
  by (simp only: unsigned_take_bit_eq take_bit_eq_mod [of n "unat w"])

lemma div_mod_shift:
  fixes x :: nat
  shows "((x + k * 2 ^ n) mod 2 ^ (n + m)) div 2 ^ n = (x div 2 ^ n + k) mod 2 ^ m"
  by (simp add: power_add mod_mult2_eq) (simp add: add.commute)

lemma word_bits_eq_iff: "v = w \<longleftrightarrow> (\<forall>n. bit v n = bit w n)"
  for v w :: "'a::len word"
  by (metis bit_word_eqI)

lemma bit_u32_less: "bit (x :: u32) n \<Longrightarrow> n < 32"
  using bit_imp_le_length [of x n] by simp

lemma bit_small_usize_less:
  fixes i :: usize
  assumes "i < 4294967296" and "bit i n"
  shows "n < 32"
proof -
  have "unat i < 2 ^ 32"
    using assms(1) by (simp add: word_less_nat_alt)
  then have "take_bit 32 i = i"
    by (simp add: word_unat_eq_iff unat_take_bit_mod)
  then show ?thesis
    using assms(2) by (metis bit_take_bit_iff)
qed

lemma unat_of_nat_usize: "n < 2 ^ 64 \<Longrightarrow> unat (of_nat n :: usize) = n"
  by (simp add: unsigned_of_nat take_bit_nat_eq_self_iff)

section \<open>Lists\<close>

lemma nth_update_eq_if:
  "i < length xs \<Longrightarrow> xs[i := x] ! j = (if i = j then x else xs ! j)"
  by (auto simp: nth_list_update)

lemma distinct_map_mult_add:
  fixes a k :: nat
  assumes "0 < k"
  shows "inj (\<lambda>i. a + i * k)"
  using assms by (intro injI) simp

end
