(* ===== verification/Error_Types.thy ===== *)
theory Error_Types
  imports Main
begin

text \<open>
  \<^verbatim>\<open>src/error.rs\<close>: the two error enumerations. A fallible operation returns \<open>error + 'a\<close>, with
  \<^const>\<open>Inl\<close> for the error.
\<close>

datatype SystemError =
    FileAlloc
  | MmapFail
  | MmapMismatchAddr
  | ArrayAllocatorOutOfMemory

datatype TransactionError =
    ReadLockBusy
  | WriteLockBusy
  | UpgradeLockBusy
  | IndexNotFound
  | LockBusy
  | UserAbort

end
