(* ===== verification/Oid_Word.thy ===== *)
theory Oid_Word
  imports Prelude Error_Types
begin

text \<open>
  \<^verbatim>\<open>src/attribute_cache/clock_cache/oid.rs\<close> and the \<^verbatim>\<open>Rid\<close> type of
  \<^verbatim>\<open>src/attribute_cache/mod.rs\<close>: the 64-bit object id. Bit 63 is the write lock, bits 56 to 62
  count the readers, bits 48 to 55 tell a cache index from a row id, bits 0 to 31 hold the id.
  An operation that loads the word and later compares-and-swaps it takes both contents: the one
  it loaded (\<open>val\<close>) and the one it finds (\<open>cur\<close>); they differ when another thread interfered.
\<close>

section \<open>Definitions\<close>

datatype Rid = Rid (as_u32: u32)

definition from_u32 :: "u32 \<Rightarrow> Rid" where
  "from_u32 i = Rid i"

text \<open>\<^verbatim>\<open>From<usize> for Rid\<close> and back: the cast to 32 bits truncates.\<close>

definition rid_from_usize :: "usize \<Rightarrow> Rid" where
  "rid_from_usize i = from_u32 (ucast i)"

definition usize_from_rid :: "Rid \<Rightarrow> usize" where
  "usize_from_rid r = ucast (as_u32 r)"

type_synonym LockedOid = usize

definition LOCK_MASK :: usize where "LOCK_MASK = 0xff00000000000000"
definition LOCK_WRITER :: usize where "LOCK_WRITER = 0x8000000000000000"
definition LOCK_READER :: usize where "LOCK_READER = 0x0100000000000000"
definition MAX_READER :: usize where "MAX_READER = (LOCK_MASK - LOCK_WRITER) div LOCK_READER"
definition IS_CACHED :: usize where "IS_CACHED = 0x00ff000000000000"
definition ID_MASK :: usize where "ID_MASK = 0x00000000ffffffff"

definition from_rid :: "Rid \<Rightarrow> LockedOid" where
  "from_rid idx = ucast (as_u32 idx)"

text \<open>The \<^verbatim>\<open>assert!\<close> of \<^verbatim>\<open>from_cache\<close> panics: \<^const>\<open>None\<close>.\<close>

definition from_cache :: "usize \<Rightarrow> LockedOid option" where
  "from_cache index = (if index AND IS_CACHED = 0 then Some (index OR IS_CACHED) else None)"

definition write_locked :: "LockedOid \<Rightarrow> bool" where
  "write_locked w \<longleftrightarrow> w AND LOCK_WRITER \<noteq> 0"

definition read_lock_cnt :: "LockedOid \<Rightarrow> usize" where
  "read_lock_cnt w = (w AND LOCK_MASK) div LOCK_READER"

definition is_cached :: "LockedOid \<Rightarrow> bool" where
  "is_cached w \<longleftrightarrow> w AND IS_CACHED \<noteq> 0"

definition is_rid :: "LockedOid \<Rightarrow> bool" where
  "is_rid w \<longleftrightarrow> \<not> is_cached w"

definition to_cache_index :: "LockedOid \<Rightarrow> usize" where
  "to_cache_index w = (w AND NOT LOCK_MASK) AND NOT IS_CACHED"

definition to_rid :: "LockedOid \<Rightarrow> Rid" where
  "to_rid w = from_u32 (ucast ((w AND NOT LOCK_MASK) AND ID_MASK))"

text \<open>
  One iteration of the loop of the blocking \<^verbatim>\<open>read\<close>: a reload when the value seen is
  write-locked, otherwise a compare-and-swap. \<^const>\<open>Inr\<close>: the guard was acquired; \<^const>\<open>Inl\<close>: the
  value to go on with.
\<close>

definition read_iter :: "bool \<Rightarrow> usize \<Rightarrow> usize \<Rightarrow> (usize + unit) \<times> usize" where
  "read_iter spurious val cur =
     (if val AND LOCK_WRITER \<noteq> 0 then (Inl cur, cur)
      else case compare_exchange_weak spurious cur val (val + LOCK_READER) of
             (Inr _, cur') \<Rightarrow> (Inr (), cur')
           | (Inl v, cur') \<Rightarrow> (Inl v, cur'))"

text \<open>
  The blocking loop. \<open>env k\<close> is the content of the cell at this thread's \<open>k\<close>-th access and
  \<open>spur k\<close> says whether a compare-and-swap there fails spuriously. The result is the number of
  the successful access and the content it leaves; \<^const>\<open>None\<close> is a loop that never ends.
\<close>

partial_function (option) read_loop ::
  "(nat \<Rightarrow> usize) \<Rightarrow> (nat \<Rightarrow> bool) \<Rightarrow> nat \<Rightarrow> usize \<Rightarrow> (nat \<times> usize) option" where
  "read_loop env spur k val =
     (case read_iter (spur k) val (env k) of
        (Inr _, cur') \<Rightarrow> Some (k, cur')
      | (Inl v, _) \<Rightarrow> read_loop env spur (Suc k) v)"

definition oid_read :: "(nat \<Rightarrow> usize) \<Rightarrow> (nat \<Rightarrow> bool) \<Rightarrow> (nat \<times> usize) option" where
  "oid_read env spur = read_loop env spur 1 (env 0)"

definition try_read :: "bool \<Rightarrow> usize \<Rightarrow> usize \<Rightarrow> (TransactionError + unit) \<times> usize" where
  "try_read spurious val cur =
     (if val AND LOCK_WRITER \<noteq> 0 then (Inl ReadLockBusy, cur)
      else case compare_exchange_weak spurious cur val (val + LOCK_READER) of
             (Inr _, cur') \<Rightarrow> (Inr (), cur')
           | (Inl _, cur') \<Rightarrow> (Inl LockBusy, cur'))"

text \<open>The \<^verbatim>\<open>debug_assert!\<close> of \<^verbatim>\<open>try_read\<close>, on the content at that moment.\<close>

definition try_read_assert :: "usize \<Rightarrow> bool" where
  "try_read_assert cur \<longleftrightarrow> read_lock_cnt cur + 1 < MAX_READER"

definition read_unlock :: "usize \<Rightarrow> usize" where
  "read_unlock cur = snd (fetch_sub cur LOCK_READER)"

definition read_unlock_assert :: "usize \<Rightarrow> bool" where
  "read_unlock_assert val \<longleftrightarrow> val AND LOCK_WRITER = 0 \<and> (val AND LOCK_MASK) div LOCK_READER > 0"

definition write_iter :: "bool \<Rightarrow> usize \<Rightarrow> usize \<Rightarrow> (usize + unit) \<times> usize" where
  "write_iter spurious val cur =
     (if val AND LOCK_MASK \<noteq> 0 then (Inl cur, cur)
      else case compare_exchange_weak spurious cur val (val OR LOCK_WRITER) of
             (Inr _, cur') \<Rightarrow> (Inr (), cur')
           | (Inl v, cur') \<Rightarrow> (Inl v, cur'))"

partial_function (option) write_loop ::
  "(nat \<Rightarrow> usize) \<Rightarrow> (nat \<Rightarrow> bool) \<Rightarrow> nat \<Rightarrow> usize \<Rightarrow> (nat \<times> usize) option" where
  "write_loop env spur k val =
     (case write_iter (spur k) val (env k) of
        (Inr _, cur') \<Rightarrow> Some (k, cur')
      | (Inl v, _) \<Rightarrow> write_loop env spur (Suc k) v)"

definition oid_write :: "(nat \<Rightarrow> usize) \<Rightarrow> (nat \<Rightarrow> bool) \<Rightarrow> (nat \<times> usize) option" where
  "oid_write env spur = write_loop env spur 1 (env 0)"

definition try_write :: "bool \<Rightarrow> usize \<Rightarrow> usize \<Rightarrow> (TransactionError + unit) \<times> usize" where
  "try_write spurious val cur =
     (if val AND LOCK_MASK \<noteq> 0 then (Inl WriteLockBusy, cur)
      else case compare_exchange_weak spurious cur val (val OR LOCK_WRITER) of
             (Inr _, cur') \<Rightarrow> (Inr (), cur')
           | (Inl _, cur') \<Rightarrow> (Inl LockBusy, cur'))"

definition write_unlock :: "usize \<Rightarrow> usize" where
  "write_unlock cur = snd (fetch_sub cur LOCK_WRITER)"

definition write_unlock_assert :: "usize \<Rightarrow> bool" where
  "write_unlock_assert val \<longleftrightarrow> val AND LOCK_MASK = LOCK_WRITER"

text \<open>
  \<^verbatim>\<open>OidReadGuard::upgrade\<close>: \<^const>\<open>Inl\<close> hands the read guard back, \<^const>\<open>Inr\<close> is the write guard.
\<close>

definition upgrade :: "bool \<Rightarrow> usize \<Rightarrow> usize \<Rightarrow> (unit + unit) \<times> usize" where
  "upgrade spurious val cur =
     (let read_locked_cnt = (val AND LOCK_MASK) div LOCK_READER
      in if read_locked_cnt > 1 then (Inl (), cur)
         else case compare_exchange_weak spurious cur val ((val AND NOT LOCK_MASK) OR LOCK_WRITER) of
                (Inr _, cur') \<Rightarrow> (Inr (), cur')
              | (Inl _, cur') \<Rightarrow> (Inl (), cur'))"

definition upgrade_assert :: "usize \<Rightarrow> bool" where
  "upgrade_assert val \<longleftrightarrow> val AND LOCK_WRITER = 0
     \<and> ((val AND LOCK_MASK) div LOCK_READER > 1 \<or> (val AND LOCK_MASK) div LOCK_READER = 1)"

text \<open>\<^verbatim>\<open>OidWriteGuard::store_rid\<close> and \<^verbatim>\<open>store_index\<close>: from the content loaded to the content stored.\<close>

definition store_rid :: "Rid \<Rightarrow> usize \<Rightarrow> usize" where
  "store_rid rid loaded = (((loaded AND NOT ID_MASK) AND NOT IS_CACHED) OR ucast (as_u32 rid))"

definition store_index :: "usize \<Rightarrow> usize \<Rightarrow> usize" where
  "store_index new loaded = (((loaded AND NOT ID_MASK) OR IS_CACHED) OR new)"

text \<open>
  What the word refers to, and the well-formed words: bits 32 to 47 are clear and the eight
  \<^verbatim>\<open>IS_CACHED\<close> bits agree.
\<close>

definition MID_MASK :: usize where "MID_MASK = 0x0000ffff00000000"

definition oid_wf :: "LockedOid \<Rightarrow> bool" where
  "oid_wf w \<longleftrightarrow> w AND MID_MASK = 0 \<and> (w AND IS_CACHED = 0 \<or> w AND IS_CACHED = IS_CACHED)"

datatype oid_ref = Row Rid | Slot nat

definition oid_ref_of :: "LockedOid \<Rightarrow> oid_ref" where
  "oid_ref_of w = (if is_cached w then Slot (unat (to_cache_index w)) else Row (to_rid w))"

text \<open>The lock byte and the payload below it, as numbers.\<close>

definition lock_byte :: "usize \<Rightarrow> nat" where
  "lock_byte w = unat w div 2 ^ 56"

definition payload :: "usize \<Rightarrow> nat" where
  "payload w = unat w mod 2 ^ 56"

section \<open>The two halves of the word\<close>

named_theorems oid_simps \<open>lock byte, payload and reference of the object id after each operation\<close>

lemma oid_word_eq_iff: "v = w \<longleftrightarrow> lock_byte v = lock_byte w \<and> payload v = payload w"
  unfolding lock_byte_def payload_def by (rule word_eq_split_iff)

lemma lock_byte_less: "lock_byte w < 256"
  using unsigned_less [of w, where ?'a = nat] by (simp add: lock_byte_def less_mult_imp_div_less)

lemma lock_byte_drop_bit: "lock_byte w = unat (drop_bit 56 w)"
  by (simp only: lock_byte_def unat_drop_bit_div)

lemma payload_take_bit: "payload w = unat (take_bit 56 w)"
  by (simp only: payload_def unat_take_bit_mod)

lemma LOCK_MASK_push: "LOCK_MASK = push_bit 56 (mask 8)"
  by (simp add: LOCK_MASK_def mask_eq_exp_minus_1 push_bit_eq_mult)

lemma IS_CACHED_push: "IS_CACHED = push_bit 48 (mask 8)"
  by (simp add: IS_CACHED_def mask_eq_exp_minus_1 push_bit_eq_mult)

lemma MID_MASK_push: "MID_MASK = push_bit 32 (mask 16)"
  by (simp add: MID_MASK_def mask_eq_exp_minus_1 push_bit_eq_mult)

lemma ID_MASK_mask: "ID_MASK = mask 32"
  by (simp add: ID_MASK_def mask_eq_exp_minus_1)

lemma LOCK_WRITER_exp: "LOCK_WRITER = 2 ^ 63"
  by (simp add: LOCK_WRITER_def)

lemma bit_oid_consts:
  "bit LOCK_MASK n \<longleftrightarrow> 56 \<le> n \<and> n < 64"
  "bit IS_CACHED n \<longleftrightarrow> 48 \<le> n \<and> n < 56"
  "bit MID_MASK n \<longleftrightarrow> 32 \<le> n \<and> n < 48"
  "bit ID_MASK n \<longleftrightarrow> n < 32"
  by (auto simp: LOCK_MASK_push IS_CACHED_push MID_MASK_push ID_MASK_mask bit_simps)

lemma MAX_READER_127: "MAX_READER = 127"
  by (simp add: MAX_READER_def LOCK_MASK_def LOCK_WRITER_def LOCK_READER_def)

lemma unat_and_LOCK_MASK: "unat (w AND LOCK_MASK) = lock_byte w * 2 ^ 56"
proof -
  have "w AND LOCK_MASK = push_bit 56 (drop_bit 56 w)"
    unfolding word_bits_eq_iff by (auto simp: bit_oid_consts bit_simps dest: bit_imp_le_length)
  moreover have "unat (push_bit 56 (drop_bit 56 w)) = take_bit 64 (push_bit 56 (lock_byte w))"
    by (simp only: unsigned_push_bit_eq lock_byte_drop_bit) simp
  moreover have "\<dots> = lock_byte w * 2 ^ 56"
    using lock_byte_less [of w] by (simp add: push_bit_eq_mult take_bit_eq_mod)
  ultimately show ?thesis by simp
qed

lemma unat_lock_quotient [oid_simps]:
  "unat ((w AND LOCK_MASK) div LOCK_READER) = lock_byte w"
  by (simp only: unat_div unat_and_LOCK_MASK) (simp add: LOCK_READER_def)

lemma unat_read_lock_cnt [oid_simps]: "unat (read_lock_cnt w) = lock_byte w"
  by (simp only: read_lock_cnt_def unat_lock_quotient)

lemma and_LOCK_WRITER_eq_0 [oid_simps]: "w AND LOCK_WRITER = 0 \<longleftrightarrow> lock_byte w < 128"
proof -
  have "bit w 63 \<longleftrightarrow> bit (drop_bit 56 w) 7"
    by (simp add: bit_simps)
  also have "\<dots> \<longleftrightarrow> odd (lock_byte w div 128)"
    by (simp only: lock_byte_drop_bit bit_unat_iff [symmetric] bit_iff_odd) simp
  finally have *: "bit w 63 \<longleftrightarrow> odd (lock_byte w div 128)" .
  have "lock_byte w div 128 = (if lock_byte w < 128 then 0 else 1)"
    using lock_byte_less [of w] by (simp add: div_nat_eqI)
  with * show ?thesis
    unfolding LOCK_WRITER_exp word_and_exp_eq_0_iff by simp
qed

lemma and_LOCK_MASK_eq_0 [oid_simps]: "w AND LOCK_MASK = 0 \<longleftrightarrow> lock_byte w = 0"
  using unat_and_LOCK_MASK [of w]
  by (metis mult_is_0 unat_eq_zero power_not_zero zero_neq_numeral)

lemma add_LOCK_READER [oid_simps]:
  "lock_byte (w + LOCK_READER) = (lock_byte w + 1) mod 256"
  "payload (w + LOCK_READER) = payload w"
  using div_mod_shift [of "unat w" 1 56 8]
  by (simp_all add: lock_byte_def payload_def unat_word_ariths LOCK_READER_def mod_mod_cancel)

lemma sub_LOCK_READER [oid_simps]:
  assumes "0 < lock_byte w"
  shows "lock_byte (w - LOCK_READER) = lock_byte w - 1"
    and "payload (w - LOCK_READER) = payload w"
  using assms add_LOCK_READER [of "w - LOCK_READER"] lock_byte_less [of "w - LOCK_READER"]
  by (auto simp: mod_Suc split: if_splits)

lemma or_LOCK_WRITER [oid_simps]:
  "lock_byte w = 0 \<Longrightarrow> lock_byte (w OR LOCK_WRITER) = 128"
  "payload (w OR LOCK_WRITER) = payload w"
proof -
  assume "lock_byte w = 0"
  then have "drop_bit 56 w = 0"
    by (simp add: lock_byte_drop_bit unat_eq_0)
  then show "lock_byte (w OR LOCK_WRITER) = 128"
    unfolding lock_byte_drop_bit drop_bit_or
    by (simp only: or.left_neutral) (simp add: LOCK_WRITER_def)
next
  show "payload (w OR LOCK_WRITER) = payload w"
    unfolding payload_take_bit take_bit_or by (simp add: LOCK_WRITER_def)
qed

lemma sub_LOCK_WRITER [oid_simps]:
  assumes "128 \<le> lock_byte w"
  shows "lock_byte (w - LOCK_WRITER) = lock_byte w - 128"
    and "payload (w - LOCK_WRITER) = payload w"
proof -
  have u: "2 ^ 63 \<le> unat w"
    using assms by (simp add: lock_byte_def)
  then have "LOCK_WRITER \<le> w"
    by (simp add: word_le_nat_alt LOCK_WRITER_def)
  then have "unat (w - LOCK_WRITER) = unat w - 2 ^ 63"
    by (simp add: unat_sub LOCK_WRITER_def)
  then have "unat w = unat (w - LOCK_WRITER) + 128 * 2 ^ 56"
    using u by simp
  then show "lock_byte (w - LOCK_WRITER) = lock_byte w - 128"
    and "payload (w - LOCK_WRITER) = payload w"
    unfolding lock_byte_def payload_def by (simp_all only: div_mult_self1 mod_mult_self1) simp
qed

lemma clear_lock [oid_simps]:
  "lock_byte (w AND NOT LOCK_MASK) = 0"
  "payload (w AND NOT LOCK_MASK) = payload w"
proof -
  have "w AND NOT LOCK_MASK = take_bit 56 w"
    unfolding word_bits_eq_iff by (auto simp: bit_oid_consts bit_simps dest: bit_imp_le_length)
  then show "lock_byte (w AND NOT LOCK_MASK) = 0" "payload (w AND NOT LOCK_MASK) = payload w"
    by (simp_all add: lock_byte_def payload_def unat_take_bit_mod)
qed

section \<open>What the word refers to\<close>

lemma oid_mask_bits:
  fixes w :: usize
  shows "w AND MID_MASK = 0 \<longleftrightarrow> (\<forall>n. 32 \<le> n \<longrightarrow> n < 48 \<longrightarrow> \<not> bit w n)"
    and "w AND IS_CACHED = 0 \<longleftrightarrow> (\<forall>n. 48 \<le> n \<longrightarrow> n < 56 \<longrightarrow> \<not> bit w n)"
    and "w AND IS_CACHED = IS_CACHED \<longleftrightarrow> (\<forall>n. 48 \<le> n \<longrightarrow> n < 56 \<longrightarrow> bit w n)"
  unfolding word_bits_eq_iff by (auto simp: bit_and_iff bit_oid_consts)

lemma lock_byte_eq_bits: "lock_byte v = lock_byte w \<longleftrightarrow> (\<forall>n. 56 \<le> n \<longrightarrow> bit v n = bit w n)"
proof -
  have "lock_byte v = lock_byte w \<longleftrightarrow> drop_bit 56 v = drop_bit 56 w"
    by (simp only: lock_byte_drop_bit word_unat_eq_iff)
  also have "\<dots> \<longleftrightarrow> (\<forall>n. 56 \<le> n \<longrightarrow> bit v n = bit w n)"
    unfolding word_bits_eq_iff by (auto simp: bit_drop_bit_eq le_iff_add)
  finally show ?thesis .
qed

lemma payload_eq_bits: "payload v = payload w \<longleftrightarrow> (\<forall>n<56. bit v n = bit w n)"
proof -
  have "payload v = payload w \<longleftrightarrow> take_bit 56 v = take_bit 56 w"
    by (simp only: payload_take_bit word_unat_eq_iff)
  also have "\<dots> \<longleftrightarrow> (\<forall>n<56. bit v n = bit w n)"
    unfolding word_bits_eq_iff by (auto simp: bit_take_bit_iff)
  finally show ?thesis .
qed

lemma bit_store_rid:
  "bit (store_rid r w) n \<longleftrightarrow>
     (if n < 32 then bit (as_u32 r) n else if 48 \<le> n \<and> n < 56 then False else bit w n)"
  using bit_u32_less [of "as_u32 r" n] bit_imp_le_length [of w n]
  by (auto simp: store_rid_def bit_oid_consts bit_simps)

lemma bit_store_index:
  assumes "i < 4294967296"
  shows "bit (store_index i w) n \<longleftrightarrow>
     (if n < 32 then bit i n else if 48 \<le> n \<and> n < 56 then True else bit w n)"
  using bit_small_usize_less [OF assms, of n] bit_imp_le_length [of w n]
  by (auto simp: store_index_def bit_oid_consts bit_simps)

lemma store_rid_wf [oid_simps]: "oid_wf w \<Longrightarrow> oid_wf (store_rid r w)"
  unfolding oid_wf_def oid_mask_bits by (auto simp: bit_store_rid)

lemma store_rid_ref [oid_simps]: "oid_ref_of (store_rid r w) = Row r"
proof -
  have "\<not> is_cached (store_rid r w)"
    unfolding is_cached_def oid_mask_bits by (simp add: bit_store_rid)
  moreover have "ucast ((store_rid r w AND NOT LOCK_MASK) AND ID_MASK) = as_u32 r"
    by (rule bit_word_eqI) (simp add: bit_store_rid bit_simps bit_oid_consts)
  ultimately show ?thesis
    by (simp add: oid_ref_of_def to_rid_def from_u32_def)
qed

lemma store_index_wf [oid_simps]: "oid_wf w \<Longrightarrow> i < 4294967296 \<Longrightarrow> oid_wf (store_index i w)"
  unfolding oid_wf_def oid_mask_bits by (auto simp: bit_store_index)

lemma store_index_ref [oid_simps]:
  assumes wf: "oid_wf w" and i: "i < 4294967296"
  shows "oid_ref_of (store_index i w) = Slot (unat i)"
proof -
  have "is_cached (store_index i w)"
    unfolding is_cached_def oid_mask_bits using i
    by (auto simp: bit_store_index intro!: exI [of _ 48])
  moreover have "to_cache_index (store_index i w) = i"
  proof (rule bit_word_eqI)
    fix n :: nat
    assume n: "n < LENGTH(64)"
    have mid: "bit w n \<Longrightarrow> \<not> (32 \<le> n \<and> n < 48)"
      using wf unfolding oid_wf_def oid_mask_bits by blast
    consider "n < 32" | "32 \<le> n" "n < 48" | "48 \<le> n" "n < 56" | "56 \<le> n"
      by linarith
    then show "bit (to_cache_index (store_index i w)) n = bit i n"
      using mid n bit_small_usize_less [OF i, of n]
      by cases (auto simp: to_cache_index_def bit_store_index i bit_simps bit_oid_consts)
  qed
  ultimately show ?thesis
    by (simp add: oid_ref_of_def)
qed

lemma store_lock_byte [oid_simps]:
  "lock_byte (store_rid r w) = lock_byte w"
  "i < 4294967296 \<Longrightarrow> lock_byte (store_index i w) = lock_byte w"
  unfolding lock_byte_eq_bits by (auto simp: bit_store_rid bit_store_index)

lemma payload_determines:
  assumes "payload v = payload w"
  shows "oid_ref_of v = oid_ref_of w" and "oid_wf v = oid_wf w"
    and "is_cached v = is_cached w" and "to_rid v = to_rid w"
    and "to_cache_index v = to_cache_index w"
proof -
  have b: "n < 56 \<Longrightarrow> bit v n = bit w n" for n
    using assms by (simp add: payload_eq_bits)
  have m: "v AND NOT LOCK_MASK = w AND NOT LOCK_MASK"
    by (rule bit_word_eqI) (auto simp: bit_oid_consts bit_simps b)
  have c: "v AND IS_CACHED = w AND IS_CACHED"
    by (rule bit_word_eqI) (auto simp: bit_oid_consts bit_simps b)
  have d: "v AND MID_MASK = w AND MID_MASK"
    by (rule bit_word_eqI) (auto simp: bit_oid_consts bit_simps b)
  show "is_cached v = is_cached w" and "to_rid v = to_rid w"
    and "to_cache_index v = to_cache_index w"
    by (simp_all only: is_cached_def to_rid_def to_cache_index_def c m)
  then show "oid_ref_of v = oid_ref_of w" and "oid_wf v = oid_wf w"
    by (simp_all only: oid_ref_of_def oid_wf_def c d)
qed

lemma lock_ops_keep [oid_simps]:
  "oid_wf (w + LOCK_READER) = oid_wf w" "oid_ref_of (w + LOCK_READER) = oid_ref_of w"
  "0 < lock_byte w \<Longrightarrow> oid_wf (w - LOCK_READER) = oid_wf w"
  "0 < lock_byte w \<Longrightarrow> oid_ref_of (w - LOCK_READER) = oid_ref_of w"
  "oid_wf (w OR LOCK_WRITER) = oid_wf w" "oid_ref_of (w OR LOCK_WRITER) = oid_ref_of w"
  "128 \<le> lock_byte w \<Longrightarrow> oid_wf (w - LOCK_WRITER) = oid_wf w"
  "128 \<le> lock_byte w \<Longrightarrow> oid_ref_of (w - LOCK_WRITER) = oid_ref_of w"
  "oid_wf (w AND NOT LOCK_MASK) = oid_wf w" "oid_ref_of (w AND NOT LOCK_MASK) = oid_ref_of w"
  by (rule payload_determines; simp add: oid_simps)+

lemma from_rid_simps [oid_simps]:
  "lock_byte (from_rid r) = 0" "oid_wf (from_rid r)" "oid_ref_of (from_rid r) = Row r"
proof -
  have b: "bit (from_rid r) n \<longleftrightarrow> bit (as_u32 r) n" for n
    using bit_u32_less [of "as_u32 r" n] by (auto simp: from_rid_def bit_simps)
  have hi: "\<not> bit (from_rid r) n" if "32 \<le> n" for n
    using that bit_u32_less [of "as_u32 r" n] by (auto simp: b)
  have "lock_byte (from_rid r) = lock_byte 0"
    unfolding lock_byte_eq_bits by (simp add: hi)
  then show "lock_byte (from_rid r) = 0"
    by (simp add: lock_byte_def)
  show "oid_wf (from_rid r)"
    unfolding oid_wf_def oid_mask_bits by (simp add: hi)
  have "\<not> is_cached (from_rid r)"
    unfolding is_cached_def oid_mask_bits by (simp add: hi)
  moreover have "ucast ((from_rid r AND NOT LOCK_MASK) AND ID_MASK) = as_u32 r"
    by (rule bit_word_eqI) (simp add: b bit_simps bit_oid_consts)
  ultimately show "oid_ref_of (from_rid r) = Row r"
    by (simp add: oid_ref_of_def to_rid_def from_u32_def)
qed

section \<open>The acquiring loops\<close>

text \<open>
  Both blocking acquisitions have one shape: an iteration either swaps the expected content for
  the acquired one or goes on with the content it found. The contract and the behaviour of the
  loop are stated once; \<open>grants v\<close> is the test on the content, \<open>acquired v\<close> the content installed.
\<close>

locale spin_acquire =
  fixes iter :: "bool \<Rightarrow> usize \<Rightarrow> usize \<Rightarrow> (usize + unit) \<times> usize"
    and loop :: "(nat \<Rightarrow> usize) \<Rightarrow> (nat \<Rightarrow> bool) \<Rightarrow> nat \<Rightarrow> usize \<Rightarrow> (nat \<times> usize) option"
    and grants :: "usize \<Rightarrow> bool" and acquired :: "usize \<Rightarrow> usize"
  assumes iter_eq: "iter sp v c = (if grants v \<and> c = v \<and> \<not> sp then (Inr (), acquired v) else (Inl c, c))"
    and loop_eq: "loop env spur k v =
      (case iter (spur k) v (env k) of (Inr _, c) \<Rightarrow> Some (k, c) | (Inl v', _) \<Rightarrow> loop env spur (Suc k) v')"
    and loop_least: "loop env spur k v = Some (j, c) \<Longrightarrow>
      k \<le> j \<and> iter (spur j) (if j = k then v else env (j - 1)) (env j) = (Inr (), c)"
begin

lemma loop_step:
  "loop env spur (Suc k) (env k) =
     (if grants (env k) \<and> env (Suc k) = env k \<and> \<not> spur (Suc k) then Some (Suc k, acquired (env k))
      else loop env spur (Suc (Suc k)) (env (Suc k)))"
  by (subst loop_eq) (simp add: iter_eq)

lemma loop_skip:
  assumes "\<And>i. k \<le> i \<Longrightarrow> i < k + n \<Longrightarrow> \<not> (grants (env i) \<and> env (Suc i) = env i \<and> \<not> spur (Suc i))"
  shows "loop env spur (Suc k) (env k) = loop env spur (Suc (k + n)) (env (k + n))"
  using assms
proof (induction n)
  case (Suc n)
  then show ?case
    using loop_step [of env spur "k + n"] by simp
qed simp

lemma loop_first:
  assumes "k \<le> j" and "grants (env j)" and "env (Suc j) = env j" and "\<not> spur (Suc j)"
    and "\<And>i. k \<le> i \<Longrightarrow> i < j \<Longrightarrow> \<not> (grants (env i) \<and> env (Suc i) = env i \<and> \<not> spur (Suc i))"
  shows "loop env spur (Suc k) (env k) = Some (Suc j, acquired (env j))"
  using assms loop_skip [of k "j - k" env spur] loop_step [of env spur j] by simp

theorem loop_result:
  "loop env spur 1 (env 0) = Some (j, c) \<longleftrightarrow>
     (\<exists>i. j = Suc i \<and> grants (env i) \<and> env (Suc i) = env i \<and> \<not> spur (Suc i)
        \<and> (\<forall>h<i. \<not> (grants (env h) \<and> env (Suc h) = env h \<and> \<not> spur (Suc h)))
        \<and> c = acquired (env i))"
  (is "?L \<longleftrightarrow> ?R")
proof
  let ?quiet = "\<lambda>i. grants (env i) \<and> env (Suc i) = env i \<and> \<not> spur (Suc i)"
  assume L: ?L
  then have "?quiet (j - 1)"
    using loop_least [OF L] by (auto simp: iter_eq split: if_splits)
  then obtain i where i: "?quiet i" and first: "\<forall>h<i. \<not> ?quiet h"
    using exists_least_iff [of ?quiet] by auto
  then have "loop env spur 1 (env 0) = Some (Suc i, acquired (env i))"
    using loop_first [of 0 i env spur] by simp
  with L i first show ?R by auto
next
  assume ?R
  then show ?L
    using loop_first [of 0 _ env spur] by auto
qed

corollary loop_returns:
  "(\<exists>r. loop env spur 1 (env 0) = Some r) \<longleftrightarrow>
     (\<exists>i. grants (env i) \<and> env (Suc i) = env i \<and> \<not> spur (Suc i))"
  (is "_ \<longleftrightarrow> (\<exists>i. ?quiet i)")
  using loop_result [of env spur] exists_least_iff [of ?quiet] by (auto simp: split_paired_Ex)

end

lemma read_iter_eq:
  "read_iter sp v c =
     (if lock_byte v < 128 \<and> c = v \<and> \<not> sp then (Inr (), v + LOCK_READER) else (Inl c, c))"
  by (simp add: read_iter_def atomic_simps oid_simps)

lemma write_iter_eq:
  "write_iter sp v c =
     (if lock_byte v = 0 \<and> c = v \<and> \<not> sp then (Inr (), v OR LOCK_WRITER) else (Inl c, c))"
  by (simp add: write_iter_def atomic_simps oid_simps)

lemma read_loop_least:
  assumes "read_loop env spur k v = Some (j, c)"
  shows "k \<le> j \<and> read_iter (spur j) (if j = k then v else env (j - 1)) (env j) = (Inr (), c)"
proof -
  let ?P = "\<lambda>env spur k v r. k \<le> fst r \<and>
    read_iter (spur (fst r)) (if fst r = k then v else env (fst r - 1)) (env (fst r)) = (Inr (), snd r)"
  have "?P env spur k v (j, c)"
  proof (rule read_loop.raw_induct [where P = ?P, OF _ assms], goal_cases)
    case (1 loop env spur k v r)
    show ?case
    proof (cases "read_iter (spur k) v (env k) = (Inl (env k), env k)")
      case True
      with 1(2) have "loop env spur (Suc k) (env k) = Some r"
        by simp
      from 1(1) [OF this] show ?thesis
        by (auto split: if_splits)
    next
      case False
      with 1(2) show ?thesis
        by (auto simp: read_iter_eq split: if_splits)
    qed
  qed
  then show ?thesis by (simp only: fst_conv snd_conv)
qed

lemma write_loop_least:
  assumes "write_loop env spur k v = Some (j, c)"
  shows "k \<le> j \<and> write_iter (spur j) (if j = k then v else env (j - 1)) (env j) = (Inr (), c)"
proof -
  let ?P = "\<lambda>env spur k v r. k \<le> fst r \<and>
    write_iter (spur (fst r)) (if fst r = k then v else env (fst r - 1)) (env (fst r)) = (Inr (), snd r)"
  have "?P env spur k v (j, c)"
  proof (rule write_loop.raw_induct [where P = ?P, OF _ assms], goal_cases)
    case (1 loop env spur k v r)
    show ?case
    proof (cases "write_iter (spur k) v (env k) = (Inl (env k), env k)")
      case True
      with 1(2) have "loop env spur (Suc k) (env k) = Some r"
        by simp
      from 1(1) [OF this] show ?thesis
        by (auto split: if_splits)
    next
      case False
      with 1(2) show ?thesis
        by (auto simp: write_iter_eq split: if_splits)
    qed
  qed
  then show ?thesis by (simp only: fst_conv snd_conv)
qed

interpretation rd: spin_acquire read_iter read_loop "\<lambda>v. lock_byte v < 128" "\<lambda>v. v + LOCK_READER"
proof unfold_locales
  show "read_loop env spur k v =
      (case read_iter (spur k) v (env k) of (Inr _, c) \<Rightarrow> Some (k, c)
       | (Inl v', _) \<Rightarrow> read_loop env spur (Suc k) v')" for env spur k v
    by (subst read_loop.simps) simp
qed (rule read_iter_eq read_loop_least; assumption?)+

interpretation wr: spin_acquire write_iter write_loop "\<lambda>v. lock_byte v = 0" "\<lambda>v. v OR LOCK_WRITER"
proof unfold_locales
  show "write_loop env spur k v =
      (case write_iter (spur k) v (env k) of (Inr _, c) \<Rightarrow> Some (k, c)
       | (Inl v', _) \<Rightarrow> write_loop env spur (Suc k) v')" for env spur k v
    by (subst write_loop.simps) simp
qed (rule write_iter_eq write_loop_least; assumption?)+

lemma try_read_eq:
  "try_read sp v c =
     (if lock_byte v < 128 then
        if c = v \<and> \<not> sp then (Inr (), v + LOCK_READER) else (Inl LockBusy, c)
      else (Inl ReadLockBusy, c))"
  by (simp add: try_read_def atomic_simps oid_simps)

lemma try_write_eq:
  "try_write sp v c =
     (if lock_byte v = 0 then
        if c = v \<and> \<not> sp then (Inr (), v OR LOCK_WRITER) else (Inl LockBusy, c)
      else (Inl WriteLockBusy, c))"
  by (simp add: try_write_def atomic_simps oid_simps)

lemma upgrade_eq:
  "upgrade sp v c =
     (if lock_byte v \<le> 1 \<and> c = v \<and> \<not> sp then (Inr (), (v AND NOT LOCK_MASK) OR LOCK_WRITER)
      else (Inl (), c))"
  by (auto simp add: upgrade_def Let_def atomic_simps word_less_nat_alt unat_lock_quotient)

lemma lock_assert_iffs:
  "read_unlock_assert v \<longleftrightarrow> 0 < lock_byte v \<and> lock_byte v < 128"
  "write_unlock_assert v \<longleftrightarrow> lock_byte v = 128"
  "upgrade_assert v \<longleftrightarrow> 0 < lock_byte v \<and> lock_byte v < 128"
  "try_read_assert v \<longleftrightarrow> lock_byte v < 126"
proof -
  show "read_unlock_assert v \<longleftrightarrow> 0 < lock_byte v \<and> lock_byte v < 128"
    by (auto simp: read_unlock_assert_def and_LOCK_WRITER_eq_0 word_less_nat_alt unat_lock_quotient)
  show "upgrade_assert v \<longleftrightarrow> 0 < lock_byte v \<and> lock_byte v < 128"
    by (auto simp: upgrade_assert_def and_LOCK_WRITER_eq_0 word_less_nat_alt
        word_unat_eq_iff [of "(v AND LOCK_MASK) div LOCK_READER" 1] unat_lock_quotient)
  have "unat LOCK_WRITER = 128 * 2 ^ 56"
    by (simp add: LOCK_WRITER_def)
  then show "write_unlock_assert v \<longleftrightarrow> lock_byte v = 128"
    unfolding write_unlock_assert_def word_unat_eq_iff unat_and_LOCK_MASK by simp
  have "unat (read_lock_cnt v + 1) = lock_byte v + 1"
    using lock_byte_less [of v] by (simp add: unat_word_ariths unat_read_lock_cnt)
  then show "try_read_assert v \<longleftrightarrow> lock_byte v < 126"
    by (simp add: try_read_assert_def word_less_nat_alt MAX_READER_127)
qed

section \<open>Properties\<close>

text \<open>
  C27: storing a row id or a cache slot under the write guard is a round trip: the word then refers
  to exactly that row or slot, its lock byte is untouched (the guard stays held), and it stays
  well formed, so the next store is a round trip again.
\<close>

theorem oid_store_round_trip:
  assumes "oid_wf w" and "i < 4294967296"
  shows "oid_ref_of (store_rid r w) = Row r \<and> oid_ref_of (store_index i w) = Slot (unat i)
    \<and> lock_byte (store_rid r w) = lock_byte w \<and> lock_byte (store_index i w) = lock_byte w
    \<and> oid_wf (store_rid r w) \<and> oid_wf (store_index i w)"
  using assms by (simp_all add: oid_simps)

theorem oid_store_round_trip_witness:
  "oid_wf 0x8000000000000007 \<and> (9 :: usize) < 4294967296
   \<and> oid_ref_of (store_index 9 0x8000000000000007) = Slot 9
   \<and> lock_byte (store_index 9 0x8000000000000007) = 128"
proof -
  have "oid_wf 0x8000000000000007"
    by (simp add: oid_wf_def MID_MASK_def IS_CACHED_def)
  then show ?thesis
    using oid_store_round_trip [of "0x8000000000000007" 9 "Rid 0"] by (simp add: lock_byte_def)
qed

text \<open>
  C28: the blocking \<^verbatim>\<open>read\<close> and \<^verbatim>\<open>write\<close> loops, against any interference of other threads (\<open>env\<close> is
  the content this thread finds at each access). The loop returns exactly at the first pair of
  consecutive accesses that find the same admissible content (no writer, respectively no holder
  at all) with no spurious failure, installing one more reader, respectively the writer bit.
  It returns if and only if such a pair of accesses exists.
\<close>

theorem oid_acquire_loops:
  "(oid_read env spur = Some (j, c) \<longleftrightarrow>
     (\<exists>i. j = Suc i \<and> \<not> write_locked (env i) \<and> env (Suc i) = env i \<and> \<not> spur (Suc i)
        \<and> (\<forall>h<i. write_locked (env h) \<or> env (Suc h) \<noteq> env h \<or> spur (Suc h))
        \<and> c = env i + LOCK_READER))
   \<and> (oid_write env spur = Some (j, c) \<longleftrightarrow>
     (\<exists>i. j = Suc i \<and> read_lock_cnt (env i) = 0 \<and> env (Suc i) = env i \<and> \<not> spur (Suc i)
        \<and> (\<forall>h<i. read_lock_cnt (env h) \<noteq> 0 \<or> env (Suc h) \<noteq> env h \<or> spur (Suc h))
        \<and> c = env i OR LOCK_WRITER))
   \<and> ((\<exists>r. oid_read env spur = Some r) \<longleftrightarrow>
        (\<exists>i. \<not> write_locked (env i) \<and> env (Suc i) = env i \<and> \<not> spur (Suc i)))
   \<and> ((\<exists>r. oid_write env spur = Some r) \<longleftrightarrow>
        (\<exists>i. read_lock_cnt (env i) = 0 \<and> env (Suc i) = env i \<and> \<not> spur (Suc i)))"
proof -
  have r: "write_locked v \<longleftrightarrow> \<not> lock_byte v < 128" for v
    by (simp only: write_locked_def and_LOCK_WRITER_eq_0)
  have w: "read_lock_cnt v = 0 \<longleftrightarrow> lock_byte v = 0" for v
    by (simp only: unat_eq_0 [symmetric] unat_read_lock_cnt)
  show ?thesis
    unfolding oid_read_def oid_write_def r w rd.loop_result wr.loop_result rd.loop_returns
      wr.loop_returns
    by (simp only: de_Morgan_conj not_not)
qed

theorem oid_acquire_loops_witness:
  "oid_read (\<lambda>k. if k < 3 then 0x8000000000000007 else 0x0200000000000007) (\<lambda>_. False)
     = Some (4, 0x0300000000000007)"
proof -
  let ?env = "\<lambda>k::nat. if k < 3 then 0x8000000000000007 else 0x0200000000000007 :: usize"
  have "\<exists>i. (4::nat) = Suc i \<and> \<not> write_locked (?env i) \<and> ?env (Suc i) = ?env i \<and> \<not> False
        \<and> (\<forall>h<i. write_locked (?env h) \<or> ?env (Suc h) \<noteq> ?env h \<or> False)
        \<and> 0x0300000000000007 = ?env i + LOCK_READER"
    by (intro exI [of _ 3]) (simp add: write_locked_def LOCK_WRITER_def LOCK_READER_def)
  then show ?thesis
    using oid_acquire_loops [of ?env "\<lambda>_. False" 4 "0x0300000000000007"] by blast
qed

end
