(* ===== verification/Oid_Lock.thy ===== *)
theory Oid_Lock
  imports Oid_Word
begin

text \<open>
  \<^verbatim>\<open>src/attribute_cache/clock_cache/oid.rs\<close> under concurrency: any number of clients below the
  reader limit run the lock operations on one object id, each operation in its two atomic
  accesses (the load of the word, then the compare-and-swap or the store), interleaved in any
  order. The word functions of \<open>Oid_Word\<close> are the steps. The abstract reader-writer lock that the
  protocol implements is \<open>rw_step\<close>.
\<close>

section \<open>The interleaved lock\<close>

text \<open>
  Where a client is: between the load of \<open>v\<close> and the access that follows it, or holding a guard.
\<close>

datatype client =
    Idle
  | Read_Spin usize | Try_Read usize | Reading
  | Write_Spin usize | Try_Write usize | Writing
  | Upgrading usize
  | Storing_Rid Rid usize | Storing_Index usize usize

record lock_sys =
  cell :: LockedOid
  pcs :: "tid \<Rightarrow> client"

definition init_sys :: "Rid \<Rightarrow> lock_sys" where
  "init_sys r = \<lparr> cell = from_rid r, pcs = (\<lambda>_. Idle) \<rparr>"

definition go :: "lock_sys \<Rightarrow> tid \<Rightarrow> client \<Rightarrow> LockedOid \<Rightarrow> lock_sys" where
  "go s t p c = \<lparr> cell = c, pcs = (pcs s)(t := p) \<rparr>"

text \<open>One access of client \<open>t\<close> of the set \<open>T\<close>.\<close>

inductive lock_step :: "tid set \<Rightarrow> lock_sys \<Rightarrow> lock_sys \<Rightarrow> bool" for T :: "tid set" where
  call_read: "t \<in> T \<Longrightarrow> pcs s t = Idle \<Longrightarrow> lock_step T s (go s t (Read_Spin (cell s)) (cell s))"
| read_again: "t \<in> T \<Longrightarrow> pcs s t = Read_Spin v \<Longrightarrow> read_iter spur v (cell s) = (Inl v', c)
    \<Longrightarrow> lock_step T s (go s t (Read_Spin v') c)"
| read_ok: "t \<in> T \<Longrightarrow> pcs s t = Read_Spin v \<Longrightarrow> read_iter spur v (cell s) = (Inr u, c)
    \<Longrightarrow> lock_step T s (go s t Reading c)"
| call_try_read: "t \<in> T \<Longrightarrow> pcs s t = Idle \<Longrightarrow> lock_step T s (go s t (Try_Read (cell s)) (cell s))"
| try_read_ok: "t \<in> T \<Longrightarrow> pcs s t = Try_Read v \<Longrightarrow> try_read spur v (cell s) = (Inr u, c)
    \<Longrightarrow> lock_step T s (go s t Reading c)"
| try_read_err: "t \<in> T \<Longrightarrow> pcs s t = Try_Read v \<Longrightarrow> try_read spur v (cell s) = (Inl e, c)
    \<Longrightarrow> lock_step T s (go s t Idle c)"
| drop_read: "t \<in> T \<Longrightarrow> pcs s t = Reading \<Longrightarrow> lock_step T s (go s t Idle (read_unlock (cell s)))"
| call_write: "t \<in> T \<Longrightarrow> pcs s t = Idle \<Longrightarrow> lock_step T s (go s t (Write_Spin (cell s)) (cell s))"
| write_again: "t \<in> T \<Longrightarrow> pcs s t = Write_Spin v \<Longrightarrow> write_iter spur v (cell s) = (Inl v', c)
    \<Longrightarrow> lock_step T s (go s t (Write_Spin v') c)"
| write_ok: "t \<in> T \<Longrightarrow> pcs s t = Write_Spin v \<Longrightarrow> write_iter spur v (cell s) = (Inr u, c)
    \<Longrightarrow> lock_step T s (go s t Writing c)"
| call_try_write: "t \<in> T \<Longrightarrow> pcs s t = Idle \<Longrightarrow> lock_step T s (go s t (Try_Write (cell s)) (cell s))"
| try_write_ok: "t \<in> T \<Longrightarrow> pcs s t = Try_Write v \<Longrightarrow> try_write spur v (cell s) = (Inr u, c)
    \<Longrightarrow> lock_step T s (go s t Writing c)"
| try_write_err: "t \<in> T \<Longrightarrow> pcs s t = Try_Write v \<Longrightarrow> try_write spur v (cell s) = (Inl e, c)
    \<Longrightarrow> lock_step T s (go s t Idle c)"
| drop_write: "t \<in> T \<Longrightarrow> pcs s t = Writing \<Longrightarrow> lock_step T s (go s t Idle (write_unlock (cell s)))"
| call_upgrade: "t \<in> T \<Longrightarrow> pcs s t = Reading \<Longrightarrow> lock_step T s (go s t (Upgrading (cell s)) (cell s))"
| upgrade_ok: "t \<in> T \<Longrightarrow> pcs s t = Upgrading v \<Longrightarrow> upgrade spur v (cell s) = (Inr u, c)
    \<Longrightarrow> lock_step T s (go s t Writing c)"
| upgrade_err: "t \<in> T \<Longrightarrow> pcs s t = Upgrading v \<Longrightarrow> upgrade spur v (cell s) = (Inl u, c)
    \<Longrightarrow> lock_step T s (go s t Reading c)"
| call_store_rid: "t \<in> T \<Longrightarrow> pcs s t = Writing
    \<Longrightarrow> lock_step T s (go s t (Storing_Rid r (cell s)) (cell s))"
| end_store_rid: "t \<in> T \<Longrightarrow> pcs s t = Storing_Rid r v \<Longrightarrow> lock_step T s (go s t Writing (store_rid r v))"
| call_store_index: "t \<in> T \<Longrightarrow> pcs s t = Writing \<Longrightarrow> i < 4294967296
    \<Longrightarrow> lock_step T s (go s t (Storing_Index i (cell s)) (cell s))"
| end_store_index: "t \<in> T \<Longrightarrow> pcs s t = Storing_Index i v
    \<Longrightarrow> lock_step T s (go s t Writing (store_index i v))"

inductive_cases lock_stepE: "lock_step T s s'"

inductive reachable :: "tid set \<Rightarrow> Rid \<Rightarrow> lock_sys \<Rightarrow> bool" for T :: "tid set" and r :: Rid where
  start: "reachable T r (init_sys r)"
| more: "reachable T r s \<Longrightarrow> lock_step T s s' \<Longrightarrow> reachable T r s'"

section \<open>The abstract reader-writer lock\<close>

text \<open>Who holds which guard, and what the object id refers to.\<close>

record rw_lock =
  readers :: "tid set"
  writer :: "tid option"
  refers :: oid_ref

inductive rw_step :: "rw_lock \<Rightarrow> rw_lock \<Rightarrow> bool" where
  acquire_read: "writer a = None \<Longrightarrow> t \<notin> readers a \<Longrightarrow> rw_step a (a\<lparr> readers := insert t (readers a) \<rparr>)"
| release_read: "t \<in> readers a \<Longrightarrow> rw_step a (a\<lparr> readers := readers a - {t} \<rparr>)"
| acquire_write: "writer a = None \<Longrightarrow> readers a = {} \<Longrightarrow> rw_step a (a\<lparr> writer := Some t \<rparr>)"
| release_write: "writer a = Some t \<Longrightarrow> rw_step a (a\<lparr> writer := None \<rparr>)"
| exchange: "writer a = None \<Longrightarrow> readers a = {t} \<Longrightarrow> rw_step a (a\<lparr> readers := {}, writer := Some t \<rparr>)"
| redirect: "writer a = Some t \<Longrightarrow> rw_step a (a\<lparr> refers := x \<rparr>)"

fun holds_read :: "client \<Rightarrow> bool" where
  "holds_read Reading = True"
| "holds_read (Upgrading _) = True"
| "holds_read _ = False"

fun holds_write :: "client \<Rightarrow> bool" where
  "holds_write Writing = True"
| "holds_write (Storing_Rid _ _) = True"
| "holds_write (Storing_Index _ _) = True"
| "holds_write _ = False"

definition reading :: "lock_sys \<Rightarrow> tid set" where
  "reading s = {t. holds_read (pcs s t)}"

definition writing :: "lock_sys \<Rightarrow> tid set" where
  "writing s = {t. holds_write (pcs s t)}"

definition abs_lock :: "lock_sys \<Rightarrow> rw_lock" where
  "abs_lock s = \<lparr> readers = reading s,
     writer = (if writing s = {} then None else Some (Min (writing s))),
     refers = oid_ref_of (cell s) \<rparr>"

text \<open>
  The invariant: the lock byte counts the holders, a writer excludes everyone else, the word a
  storing client loaded is still the current one, and the word is well formed.
\<close>

fun pending_store :: "client \<Rightarrow> usize option" where
  "pending_store (Storing_Rid _ v) = Some v"
| "pending_store (Storing_Index _ v) = Some v"
| "pending_store _ = None"

fun pending_index :: "client \<Rightarrow> usize option" where
  "pending_index (Storing_Index i _) = Some i"
| "pending_index _ = None"

definition lock_inv :: "tid set \<Rightarrow> lock_sys \<Rightarrow> bool" where
  "lock_inv T s \<longleftrightarrow> reading s \<subseteq> T \<and> writing s \<subseteq> T \<and> oid_wf (cell s)
     \<and> (writing s = {} \<and> lock_byte (cell s) = card (reading s)
        \<or> (\<exists>t. writing s = {t}) \<and> reading s = {} \<and> lock_byte (cell s) = 128)
     \<and> (\<forall>t v. pending_store (pcs s t) = Some v \<longrightarrow> v = cell s)
     \<and> (\<forall>t i. pending_index (pcs s t) = Some i \<longrightarrow> i < 4294967296)"

section \<open>The kinds of steps\<close>

lemma go_simps [simp]:
  "cell (go s t p c) = c"
  "pcs (go s t p c) = (pcs s)(t := p)"
  "reading (go s t p c) = (if holds_read p then insert t (reading s) else reading s - {t})"
  "writing (go s t p c) = (if holds_write p then insert t (writing s) else writing s - {t})"
  by (auto simp: go_def reading_def writing_def)

lemma in_holders [simp]:
  "t \<in> reading s \<longleftrightarrow> holds_read (pcs s t)" "t \<in> writing s \<longleftrightarrow> holds_write (pcs s t)"
  by (simp_all add: reading_def writing_def)

lemmas lock_eqs = read_iter_eq write_iter_eq try_read_eq try_write_eq upgrade_eq

text \<open>
  Seen from the word, the accesses fall into eight kinds: no effect on the lock, a reader in or
  out, a writer in or out, a reader turned writer, and the two stores.
\<close>

lemma lock_step_cases [consumes 1]:
  assumes "lock_step T s s'"
  obtains
    (silent) t p where "t \<in> T" "s' = go s t p (cell s)" "holds_read p = holds_read (pcs s t)"
      "holds_write p = holds_write (pcs s t)" "pending_store p \<in> {None, Some (cell s)}"
      "\<forall>i. pending_index p = Some i \<longrightarrow> i < 4294967296"
  | (get_read) t where "t \<in> T" "\<not> holds_read (pcs s t)" "\<not> holds_write (pcs s t)"
      "lock_byte (cell s) < 128" "s' = go s t Reading (cell s + LOCK_READER)"
  | (leave_read) t where "t \<in> T" "pcs s t = Reading" "s' = go s t Idle (cell s - LOCK_READER)"
  | (get_write) t where "t \<in> T" "\<not> holds_read (pcs s t)" "\<not> holds_write (pcs s t)"
      "lock_byte (cell s) = 0" "s' = go s t Writing (cell s OR LOCK_WRITER)"
  | (leave_write) t where "t \<in> T" "pcs s t = Writing" "s' = go s t Idle (cell s - LOCK_WRITER)"
  | (turn) t where "t \<in> T" "holds_read (pcs s t)" "lock_byte (cell s) \<le> 1"
      "s' = go s t Writing ((cell s AND NOT LOCK_MASK) OR LOCK_WRITER)"
  | (put_rid) t r v where "t \<in> T" "pcs s t = Storing_Rid r v" "s' = go s t Writing (store_rid r v)"
  | (put_index) t i v where "t \<in> T" "pcs s t = Storing_Index i v"
      "s' = go s t Writing (store_index i v)"
  using assms
  by cases (auto simp: lock_eqs read_unlock_def write_unlock_def atomic_simps split: if_splits
      intro: silent get_read leave_read get_write leave_write turn put_rid put_index)

section \<open>The invariant\<close>

lemma lock_inv_init: "lock_inv T (init_sys r)"
  by (simp add: lock_inv_def init_sys_def reading_def writing_def oid_simps)

definition few :: "tid set \<Rightarrow> bool" where
  "few T \<longleftrightarrow> finite T \<and> card T < 128"

lemma inv_readers:
  assumes "few T" "lock_inv T s"
  shows "finite (reading s)" "card (reading s) < 128"
  using assms by (auto simp: few_def lock_inv_def intro: finite_subset card_mono le_less_trans)

lemma inv_writer:
  assumes "lock_inv T s" "holds_write (pcs s t)"
  shows "writing s = {t}" "reading s = {}" "lock_byte (cell s) = 128"
  using assms by (auto simp: lock_inv_def set_eq_iff)

lemma inv_reader:
  assumes "few T" "lock_inv T s" "holds_read (pcs s t)"
  shows "writing s = {}" "lock_byte (cell s) = card (reading s)" "0 < lock_byte (cell s)"
proof -
  have "t \<in> reading s"
    using assms(3) by simp
  then show "writing s = {}" "lock_byte (cell s) = card (reading s)" "0 < lock_byte (cell s)"
    using assms(2) inv_readers [OF assms(1,2)]
    unfolding lock_inv_def by (blast, blast, metis card_gt_0_iff empty_iff zero_less_numeral)
qed

lemma inv_free:
  assumes "lock_inv T s" "lock_byte (cell s) < 128"
  shows "writing s = {}" "lock_byte (cell s) = card (reading s)"
  using assms by (auto simp: lock_inv_def)

lemma inv_storing:
  assumes "lock_inv T s"
  shows "pending_store (pcs s t) = Some v \<Longrightarrow> v = cell s"
    and "pending_index (pcs s t) = Some i \<Longrightarrow> i < 4294967296"
  using assms by (auto simp: lock_inv_def)

lemma pending_holds_write:
  "pending_store p = Some v \<Longrightarrow> holds_write p" "pending_index p = Some i \<Longrightarrow> holds_write p"
  by (cases p; simp)+

text \<open>A step to a state without pending stores of others: what is left to show.\<close>

lemma lock_inv_goI:
  assumes "lock_inv T s" "t \<in> T" "oid_wf c"
    and "pending_store p = None" "pending_index p = None"
    and "writing s \<subseteq> {t}"
    and "if holds_write p then \<not> holds_read p \<and> reading s - {t} = {} \<and> lock_byte c = 128
         else lock_byte c = card (reading (go s t p c))"
  shows "lock_inv T (go s t p c)"
proof -
  have others: "\<not> holds_write (pcs s t')" if "t' \<noteq> t" for t'
    using assms(6) that by (auto simp: writing_def)
  have w: "writing s - {t} = {}"
    using assms(6) by blast
  have "pending_store (pcs s t') = None" "pending_index (pcs s t') = None" if "t' \<noteq> t" for t'
    using others [OF that] pending_holds_write [of "pcs s t'"] by (metis not_None_eq)+
  then show ?thesis
    using assms(1-5,7) w by (auto simp: lock_inv_def split: if_splits)
qed

lemma lock_inv_silent:
  assumes "lock_inv T s" "t \<in> T" "holds_read p = holds_read (pcs s t)"
    and "holds_write p = holds_write (pcs s t)" "pending_store p \<in> {None, Some (cell s)}"
    and "\<forall>i. pending_index p = Some i \<longrightarrow> i < 4294967296"
  shows "lock_inv T (go s t p (cell s))"
proof -
  have "reading (go s t p (cell s)) = reading s" "writing (go s t p (cell s)) = writing s"
    using assms(3,4) by (auto simp: set_eq_iff)
  then show ?thesis
    using assms unfolding lock_inv_def by (auto simp del: go_simps(3,4))
qed

lemma lock_inv_step:
  assumes few: "few T" and inv: "lock_inv T s" and step: "lock_step T s s'"
  shows "lock_inv T s'"
proof -
  have wf: "oid_wf (cell s)"
    using inv by (simp add: lock_inv_def)
  from step show ?thesis
  proof (cases rule: lock_step_cases)
    case (silent t p)
    then show ?thesis by (simp add: lock_inv_silent inv)
  next
    case (get_read t)
    note free = inv_free [OF inv get_read(4)]
    have "card (insert t (reading s)) = Suc (card (reading s))"
      using get_read inv_readers [OF few inv] by simp
    then show ?thesis
      unfolding get_read(5) using get_read inv_readers [OF few inv] free
      by (intro lock_inv_goI [OF inv]) (simp_all add: oid_simps wf)
  next
    case (leave_read t)
    then have "holds_read (pcs s t)" by simp
    note r = inv_reader [OF few inv this]
    show ?thesis
      unfolding leave_read(3) using leave_read r inv_readers [OF few inv]
      by (intro lock_inv_goI [OF inv]) (simp_all add: oid_simps wf)
  next
    case (get_write t)
    then have "reading s = {}" "writing s = {}"
      using inv_free [OF inv] inv_readers [OF few inv] by auto
    then show ?thesis
      unfolding get_write(5) using get_write
      by (intro lock_inv_goI [OF inv]) (simp_all add: oid_simps wf)
  next
    case (leave_write t)
    then have "holds_write (pcs s t)" by simp
    note w = inv_writer [OF inv this]
    show ?thesis
      unfolding leave_write(3) using leave_write w
      by (intro lock_inv_goI [OF inv]) (simp_all add: oid_simps wf)
  next
    case (turn t)
    note r = inv_reader [OF few inv turn(2)]
    have "t \<in> reading s" "card (reading s) = 1"
      using r turn(2,3) by simp_all
    then have "reading s = {t}"
      by (metis card_1_singletonE singletonD)
    then show ?thesis
      unfolding turn(4) using turn r
      by (intro lock_inv_goI [OF inv]) (simp_all add: oid_simps wf)
  next
    case (put_rid t r v)
    then have "v = cell s" "holds_write (pcs s t)"
      using inv_storing(1) [OF inv, of t v] by simp_all
    then show ?thesis
      unfolding put_rid(3) using put_rid inv_writer [OF inv, of t] wf
      by (intro lock_inv_goI [OF inv]) (simp_all add: oid_simps)
  next
    case (put_index t i v)
    then have "v = cell s" "i < 4294967296" "holds_write (pcs s t)"
      using inv_storing [OF inv, of t] by simp_all
    then show ?thesis
      unfolding put_index(3) using put_index inv_writer [OF inv, of t] wf
      by (intro lock_inv_goI [OF inv]) (simp_all add: oid_simps)
  qed
qed

lemma lock_inv_reachable: "few T \<Longrightarrow> reachable T r s \<Longrightarrow> lock_inv T s"
  by (rotate_tac, induction rule: reachable.induct) (auto intro: lock_inv_init lock_inv_step)

section \<open>Refinement of the abstract lock\<close>

lemma abs_lock_simps:
  "readers (abs_lock s) = reading s" "refers (abs_lock s) = oid_ref_of (cell s)"
  "writer (abs_lock s) = None \<longleftrightarrow> writing s = {}"
  "writing s = {t} \<Longrightarrow> writer (abs_lock s) = Some t"
  by (simp_all add: abs_lock_def)

lemma abs_go_silent:
  assumes "holds_read p = holds_read (pcs s t)" "holds_write p = holds_write (pcs s t)"
  shows "abs_lock (go s t p (cell s)) = abs_lock s"
proof -
  have "reading (go s t p (cell s)) = reading s" "writing (go s t p (cell s)) = writing s"
    using assms by (auto simp: set_eq_iff)
  then show ?thesis
    by (simp add: abs_lock_def)
qed

lemma rw_step_eqI: "rw_step a b \<Longrightarrow> b = c \<Longrightarrow> rw_step a c"
  by simp

lemma abs_store:
  assumes "lock_inv T s" "holds_write (pcs s t)" "holds_write p" "\<not> holds_read p"
  shows "rw_step (abs_lock s) (abs_lock (go s t p c))"
  using inv_writer [OF assms(1,2)] assms(3,4)
  by (intro rw_step_eqI [OF rw_step.redirect [of _ t "oid_ref_of c"]]) (simp_all add: abs_lock_def)

lemma lock_step_refines:
  assumes few: "few T" and inv: "lock_inv T s" and step: "lock_step T s s'"
  shows "rw_step (abs_lock s) (abs_lock s') \<or> abs_lock s' = abs_lock s"
  using step
proof (cases rule: lock_step_cases)
  case (silent t p)
  then show ?thesis by (simp add: abs_go_silent)
next
  case (get_read t)
  then have "rw_step (abs_lock s) (abs_lock s')"
    using inv_free [OF inv]
    by (intro rw_step_eqI [OF rw_step.acquire_read [of _ t]]) (simp_all add: abs_lock_def oid_simps)
  then show ?thesis ..
next
  case (leave_read t)
  then have "rw_step (abs_lock s) (abs_lock s')"
    using inv_reader [OF few inv, of t]
    by (intro rw_step_eqI [OF rw_step.release_read [of t]]) (simp_all add: abs_lock_def oid_simps)
  then show ?thesis ..
next
  case (get_write t)
  then have "writing s = {}" "reading s = {}"
    using inv_free [OF inv] inv_readers [OF few inv] by auto
  then have "rw_step (abs_lock s) (abs_lock s')"
    using get_write
    by (intro rw_step_eqI [OF rw_step.acquire_write [of _ t]]) (simp_all add: abs_lock_def oid_simps)
  then show ?thesis ..
next
  case (leave_write t)
  then have "rw_step (abs_lock s) (abs_lock s')"
    using inv_writer [OF inv, of t]
    by (intro rw_step_eqI [OF rw_step.release_write [of _ t]]) (simp_all add: abs_lock_def oid_simps)
  then show ?thesis ..
next
  case (turn t)
  note r = inv_reader [OF few inv turn(2)]
  have "t \<in> reading s" "card (reading s) = 1"
    using r turn(2,3) by simp_all
  then have "reading s = {t}"
    by (metis card_1_singletonE singletonD)
  then have "rw_step (abs_lock s) (abs_lock s')"
    using turn r
    by (intro rw_step_eqI [OF rw_step.exchange [of _ t]]) (simp_all add: abs_lock_def oid_simps)
  then show ?thesis ..
next
  case (put_rid t r v)
  then show ?thesis using abs_store [OF inv, of t Writing] by simp
next
  case (put_index t i v)
  then show ?thesis using abs_store [OF inv, of t Writing] by simp
qed

lemma reader_step:
  assumes "few T" "lock_inv T s" "lock_step T s s'" "holds_read (pcs s t)"
  shows "oid_ref_of (cell s') = oid_ref_of (cell s)"
proof -
  note r = inv_reader [OF assms(1,2,4)]
  have none: "\<not> holds_write (pcs s t')" for t'
    using r(1) by (auto simp: set_eq_iff)
  have "pcs s t' \<noteq> Writing" "pcs s t' \<noteq> Storing_Rid x v" "pcs s t' \<noteq> Storing_Index i v" for t' x v i
    using none [of t'] by auto
  note free = this
  from assms(3) show ?thesis
    by (cases rule: lock_step_cases) (use free r in \<open>simp_all add: oid_simps\<close>)
qed

lemma writer_step:
  assumes "lock_inv T s" "lock_step T s s'" "holds_write (pcs s t)" "pcs s' t = pcs s t"
  shows "cell s' = cell s"
proof -
  note w = inv_writer [OF assms(1,3)]
  have sole: "t' = t" if "holds_write (pcs s t')" for t'
    using that w(1) by (auto simp: set_eq_iff)
  have none: "\<not> holds_read (pcs s t')" for t'
    using w(2) by (auto simp: set_eq_iff)
  show ?thesis
    using assms(2)
  proof (cases rule: lock_step_cases)
    case (leave_read t')
    then show ?thesis using none [of t'] by simp
  next
    case (leave_write t')
    then show ?thesis using sole [of t'] assms(4) by simp
  next
    case (turn t')
    then show ?thesis using none [of t'] by simp
  next
    case (put_rid t' r v)
    then show ?thesis using sole [of t'] assms(4) by simp
  next
    case (put_index t' i v)
    then show ?thesis using sole [of t'] assms(4) by simp
  qed (use w in simp_all)
qed

text \<open>A sample run: both clients load the free word, client 1 enters as writer, or client 0 as reader.\<close>

definition sample_loaded :: lock_sys where
  "sample_loaded = go (go (init_sys (Rid 7)) 0 (Try_Read 7) 7) 1 (Try_Write 7) 7"

definition sample_writing :: lock_sys where
  "sample_writing = go sample_loaded 1 Writing 0x8000000000000007"

definition sample_reading :: lock_sys where
  "sample_reading = go sample_loaded 0 Reading 0x0100000000000007"

lemmas sample_defs = sample_loaded_def sample_writing_def sample_reading_def init_sys_def from_rid_def

lemma sample_steps:
  "lock_step {0, 1} sample_loaded sample_writing" "lock_step {0, 1} sample_loaded sample_reading"
proof -
  show "lock_step {0, 1} sample_loaded sample_writing"
    unfolding sample_writing_def
    by (rule lock_step.try_write_ok [of _ _ _ 7 False "()"])
      (simp_all add: sample_loaded_def try_write_def LOCK_MASK_def LOCK_WRITER_def atomic_simps)
  show "lock_step {0, 1} sample_loaded sample_reading"
    unfolding sample_reading_def
    by (rule lock_step.try_read_ok [of _ _ _ 7 False "()"])
      (simp_all add: sample_loaded_def try_read_def LOCK_READER_def LOCK_WRITER_def atomic_simps)
qed

lemma sample_reachable:
  "reachable {0, 1} (Rid 7) sample_loaded" "reachable {0, 1} (Rid 7) sample_writing"
  "reachable {0, 1} (Rid 7) sample_reading"
proof -
  let ?s0 = "init_sys (Rid 7)" and ?s1 = "go (init_sys (Rid 7)) 0 (Try_Read 7) 7"
  have "lock_step {0, 1} ?s0 ?s1"
    using lock_step.call_try_read [of 0 "{0, 1}" ?s0] by (simp add: init_sys_def from_rid_def)
  moreover have "lock_step {0, 1} ?s1 sample_loaded"
    using lock_step.call_try_write [of 1 "{0, 1}" ?s1] by (simp add: sample_defs)
  ultimately show *: "reachable {0, 1} (Rid 7) sample_loaded"
    using reachable.start reachable.more by blast
  show "reachable {0, 1} (Rid 7) sample_writing" "reachable {0, 1} (Rid 7) sample_reading"
    using reachable.more [OF *] sample_steps by blast+
qed

lemma sample_holders:
  "reading sample_writing = {}" "writing sample_writing = {1}"
  "reading sample_reading = {0}" "writing sample_reading = {}"
  "reading sample_loaded = {}" "writing sample_loaded = {}"
  by (auto simp: sample_defs reading_def writing_def go_def)

lemma sample_client_bound: "finite {0, 1 :: tid}" "card {0, 1 :: tid} < 128"
  by simp_all

section \<open>Properties\<close>

text \<open>
  C10: mutual exclusion. With fewer than 128 clients, in every reachable state of every
  interleaving a write guard excludes all other guards, and the lock byte of the word is exactly
  the number of read guards, or 128 when a write guard is out.
\<close>

theorem lock_mutual_exclusion:
  assumes "finite T" and "card T < 128" and "reachable T r s"
  shows "(\<forall>t. holds_write (pcs s t) \<longrightarrow> writing s = {t} \<and> reading s = {})
    \<and> unat (read_lock_cnt (cell s)) = card (reading s) + 128 * card (writing s)
    \<and> (write_locked (cell s) \<longleftrightarrow> writing s \<noteq> {})"
proof -
  have few: "few T" using assms by (simp add: few_def)
  note inv = lock_inv_reachable [OF few assms(3)]
  have "unat (read_lock_cnt (cell s)) = card (reading s) + 128 * card (writing s)"
    using inv by (auto simp: lock_inv_def oid_simps)
  moreover have "write_locked (cell s) \<longleftrightarrow> writing s \<noteq> {}"
    using inv inv_readers [OF few inv] by (auto simp: lock_inv_def write_locked_def oid_simps)
  ultimately show ?thesis
    using inv_writer [OF inv] by blast
qed

theorem lock_mutual_exclusion_witness:
  "holds_write (pcs sample_writing 1) \<and> reading sample_writing = {}
   \<and> unat (read_lock_cnt (cell sample_writing)) = 128"
  using lock_mutual_exclusion [OF sample_client_bound sample_reachable(2)]
  by (simp add: sample_holders) (simp add: sample_writing_def)

text \<open>
  C11: the protocol implements the abstract reader-writer lock: every access of every client is a
  step of \<open>rw_step\<close> (enter or leave as reader or writer, turn a sole reader into the writer,
  redirect the object id under the write guard) or leaves the abstract lock unchanged.
\<close>

theorem lock_refines_rw_lock:
  assumes "finite T" and "card T < 128" and "reachable T r s" and "lock_step T s s'"
  shows "rw_step (abs_lock s) (abs_lock s') \<or> abs_lock s' = abs_lock s"
  using assms lock_step_refines lock_inv_reachable by (simp add: few_def)

theorem lock_refines_rw_lock_witness:
  "rw_step (abs_lock sample_loaded) (abs_lock sample_writing)
   \<and> writer (abs_lock sample_writing) = Some 1"
proof -
  have "abs_lock sample_writing \<noteq> abs_lock sample_loaded"
    by (simp add: abs_lock_def sample_holders)
  with lock_refines_rw_lock [OF sample_client_bound sample_reachable(1) sample_steps(1)] show ?thesis
    by (simp add: abs_lock_def sample_holders)
qed

text \<open>
  C26: what a guard protects. While a read guard is held no step changes what the object id refers
  to; while a write guard is held the word changes only through its holder.
\<close>

theorem guard_protects:
  assumes "finite T" and "card T < 128" and "reachable T r s" and "lock_step T s s'"
  shows "(holds_read (pcs s t) \<longrightarrow> oid_ref_of (cell s') = oid_ref_of (cell s))
    \<and> (holds_write (pcs s t) \<and> pcs s' t = pcs s t \<longrightarrow> cell s' = cell s)"
proof -
  have few: "few T" using assms by (simp add: few_def)
  note inv = lock_inv_reachable [OF few assms(3)]
  show ?thesis
    using reader_step [OF few inv assms(4)] writer_step [OF inv assms(4)] by blast
qed

theorem guard_protects_witness:
  "lock_step {0, 1} sample_reading (go sample_reading 0 (Upgrading 0x0100000000000007) 0x0100000000000007)
   \<and> holds_read (pcs sample_reading 0)
   \<and> oid_ref_of (cell (go sample_reading 0 (Upgrading 0x0100000000000007) 0x0100000000000007))
      = oid_ref_of (cell sample_reading)"
proof -
  have st: "lock_step {0, 1} sample_reading
      (go sample_reading 0 (Upgrading 0x0100000000000007) 0x0100000000000007)"
    using lock_step.call_upgrade [of 0 "{0, 1}" sample_reading]
    by (simp add: sample_reading_def)
  with guard_protects [OF sample_client_bound sample_reachable(3) st, of 0] show ?thesis
    by (simp add: sample_reading_def)
qed

text \<open>
  The debug assertions of the release and upgrade operations hold wherever their guard is
  held: \<^verbatim>\<open>read_unlock\<close> and \<^verbatim>\<open>upgrade\<close> always find a reader and no writer, \<^verbatim>\<open>write_unlock\<close> always
  finds exactly the writer bit.
\<close>

theorem guard_assertions:
  assumes "finite T" and "card T < 128" and "reachable T r s"
  shows "(holds_read (pcs s t) \<longrightarrow> read_unlock_assert (cell s) \<and> upgrade_assert (cell s))
    \<and> (holds_write (pcs s t) \<longrightarrow> write_unlock_assert (cell s))"
proof -
  have few: "few T" using assms by (simp add: few_def)
  note inv = lock_inv_reachable [OF few assms(3)]
  show ?thesis
    using inv_reader [OF few inv, of t] inv_readers [OF few inv] inv_writer [OF inv, of t]
    by (auto simp: lock_assert_iffs)
qed

theorem guard_assertions_witness:
  "read_unlock_assert (cell sample_reading) \<and> upgrade_assert (cell sample_reading)
   \<and> write_unlock_assert (cell sample_writing)"
  using guard_assertions [OF sample_client_bound sample_reachable(3), of 0]
    guard_assertions [OF sample_client_bound sample_reachable(2), of 1]
  by (simp add: sample_reading_def sample_writing_def)

text \<open>
  C29: the lock is never lost. In every reachable state where no client holds a guard, an
  undisturbed \<^verbatim>\<open>try_read\<close> and an undisturbed \<^verbatim>\<open>try_write\<close> both succeed; in every reachable state
  with a single read guard an undisturbed \<^verbatim>\<open>upgrade\<close> succeeds.
\<close>

theorem lock_never_lost:
  assumes "finite T" and "card T < 128" and "reachable T r s"
  shows "(reading s = {} \<and> writing s = {} \<longrightarrow>
      fst (try_read False (cell s) (cell s)) = Inr ()
      \<and> fst (try_write False (cell s) (cell s)) = Inr ())
    \<and> (card (reading s) = 1 \<longrightarrow> fst (upgrade False (cell s) (cell s)) = Inr ())"
proof -
  have few: "few T" using assms by (simp add: few_def)
  note inv = lock_inv_reachable [OF few assms(3)]
  have "lock_byte (cell s) = 1" if "card (reading s) = 1"
    using that inv by (auto simp: lock_inv_def)
  then show ?thesis
    using inv by (auto simp: lock_eqs lock_inv_def)
qed

theorem lock_never_lost_witness:
  "fst (try_write False (cell sample_loaded) (cell sample_loaded)) = Inr ()
   \<and> fst (upgrade False (cell sample_reading) (cell sample_reading)) = Inr ()"
  using lock_never_lost [OF sample_client_bound sample_reachable(1)]
    lock_never_lost [OF sample_client_bound sample_reachable(3)]
  by (simp add: sample_holders)

text \<open>
  C30: the limit of 127 readers is needed and \<^verbatim>\<open>try_read\<close> does not enforce it in a release build:
  with 127 readers the next \<^verbatim>\<open>try_read\<close> is granted and its carry sets the writer bit, so the word
  is then write-locked although 128 readers hold it. The debug assertion refuses earlier, from
  the 127th reader on.
\<close>

theorem reader_overflow:
  assumes "lock_byte w = 127"
  shows "fst (try_read False w w) = Inr () \<and> write_locked (snd (try_read False w w))
    \<and> write_unlock_assert (snd (try_read False w w)) \<and> \<not> try_read_assert w
    \<and> (\<forall>v. try_read_assert v \<longleftrightarrow> unat (read_lock_cnt v) < 126)"
  using assms
  by (simp add: try_read_eq lock_assert_iffs write_locked_def oid_simps)

theorem reader_overflow_witness:
  "lock_byte 0x7f00000000000007 = 127
   \<and> write_locked (snd (try_read False 0x7f00000000000007 0x7f00000000000007))"
proof -
  have "lock_byte 0x7f00000000000007 = 127"
    by (simp add: lock_byte_def)
  then show ?thesis
    using reader_overflow [of "0x7f00000000000007"] by simp
qed


end
