(* ===== verification/Obj_Alloc.thy ===== *)
theory Obj_Alloc
  imports Prelude Error_Types
begin

text \<open>
  \<^verbatim>\<open>ArrayAllocator\<close> of \<^verbatim>\<open>src/utils/obj_alloc.rs\<close>: a free list threaded through the blocks of an array.
  Memory maps the address of an aligned 8-byte word to its content; the link of a free block is
  the word at its address, the null pointer is 0. The concurrent allocation loop is a step
  relation; \<open>alloc\<close> is the call that nobody disturbs.
\<close>

section \<open>Definitions\<close>

type_synonym memory = "addr \<Rightarrow> nat"

text \<open>\<^verbatim>\<open>align_up\<close> at machine width.\<close>

definition align_up :: "usize \<Rightarrow> usize \<Rightarrow> usize" where
  "align_up sz align = (sz + align - 1) AND NOT (align - 1)"

record ArrayAllocator =
  cap :: nat
  start :: addr
  list_node :: addr

definition LIST_NODE_SIZE :: nat where "LIST_NODE_SIZE = 8"

text \<open>
  The loop of \<^verbatim>\<open>new\<close> and of \<^verbatim>\<open>reset\<close> from index \<open>i\<close> on, with \<open>k\<close> blocks to go: each block is written
  with a node that links to the one before it.
\<close>

fun link_blocks :: "addr \<Rightarrow> nat \<Rightarrow> nat \<Rightarrow> nat \<Rightarrow> addr \<Rightarrow> memory \<Rightarrow> addr \<times> memory" where
  "link_blocks data sz i 0 node_n m = (node_n, m)"
| "link_blocks data sz i (Suc k) node_n m =
     (let list_node = data + i * sz
      in link_blocks data sz (i + 1) k list_node (m(list_node := node_n)))"

text \<open>\<open>sz\<close> and \<open>al\<close> are the size and the alignment of \<open>T\<close>; the two assertions panic: \<^const>\<open>None\<close>.\<close>

definition allocator_new :: "nat \<Rightarrow> nat \<Rightarrow> nat \<Rightarrow> addr \<Rightarrow> memory \<Rightarrow> (ArrayAllocator \<times> memory) option" where
  "allocator_new sz al c data m =
     (if sz \<ge> LIST_NODE_SIZE \<and> al \<ge> LIST_NODE_SIZE then
        let (new_node, m') = link_blocks data sz 0 c 0 m
        in Some (\<lparr> cap = c, start = data, list_node = new_node \<rparr>, m')
      else None)"

definition allocator_reset :: "nat \<Rightarrow> ArrayAllocator \<Rightarrow> memory \<Rightarrow> ArrayAllocator \<times> memory" where
  "allocator_reset sz a m =
     (let (new_node, m') = link_blocks (start a) sz 0 (cap a) 0 m
      in (a\<lparr> list_node := new_node \<rparr>, m'))"

text \<open>
  One allocation that no other thread disturbs: the index and the address of the block.
\<close>

definition alloc :: "nat \<Rightarrow> ArrayAllocator \<Rightarrow> memory \<Rightarrow> (SystemError + nat \<times> addr) \<times> ArrayAllocator" where
  "alloc sz a m =
     (let node = list_node a
      in if node = 0 then (Inl ArrayAllocatorOutOfMemory, a)
         else let nxt = m node; (_, head) = compare_exchange (list_node a) node nxt
              in (Inr ((node - start a) div sz, node), a\<lparr> list_node := head \<rparr>))"

definition get_by_index :: "nat \<Rightarrow> ArrayAllocator \<Rightarrow> nat \<Rightarrow> addr" where
  "get_by_index sz a index = start a + index * sz"

definition dealloc :: "addr \<Rightarrow> ArrayAllocator \<Rightarrow> memory \<Rightarrow> ArrayAllocator \<times> memory" where
  "dealloc ptr a m =
     (let nxt = list_node a; m' = m(ptr := nxt);
          (_, head) = compare_exchange_weak False (list_node a) nxt ptr
      in (a\<lparr> list_node := head \<rparr>, m'))"

section \<open>The allocation loop under concurrency\<close>

text \<open>
  A thread is outside \<^verbatim>\<open>alloc\<close>, has the head it loaded, or also has the link it read from that
  block. A thread in \<^verbatim>\<open>dealloc\<close> has the head it loaded, and then has also written its block.
\<close>

datatype alloc_pc =
    Outside | Loaded addr | Linked addr addr
  | Freeing addr addr | Freed addr addr

record alloc_sys =
  head :: addr
  mem :: memory
  apcs :: "tid \<Rightarrow> alloc_pc"
  given :: "addr list"
  failed :: nat

definition alloc_init :: "ArrayAllocator \<Rightarrow> memory \<Rightarrow> alloc_sys" where
  "alloc_init a m = \<lparr> head = list_node a, mem = m, apcs = (\<lambda>_. Outside), given = [], failed = 0 \<rparr>"

text \<open>
  The accesses of the loop. The owner of a block writes what it likes into it. \<open>given\<close> lists the
  blocks handed out and not returned, \<open>failed\<close> counts the calls that reported an empty list.
\<close>

inductive alloc_step :: "alloc_sys \<Rightarrow> alloc_sys \<Rightarrow> bool" where
  load_head: "apcs s t = Outside \<Longrightarrow> alloc_step s (s\<lparr> apcs := (apcs s)(t := Loaded (head s)) \<rparr>)"
| out_of_memory: "apcs s t = Loaded 0 \<Longrightarrow>
    alloc_step s (s\<lparr> apcs := (apcs s)(t := Outside), failed := failed s + 1 \<rparr>)"
| load_link: "apcs s t = Loaded n \<Longrightarrow> n \<noteq> 0 \<Longrightarrow>
    alloc_step s (s\<lparr> apcs := (apcs s)(t := Linked n (mem s n)) \<rparr>)"
| swap_ok: "apcs s t = Linked n x \<Longrightarrow> compare_exchange (head s) n x = (Inr u, h) \<Longrightarrow>
    alloc_step s (s\<lparr> head := h, apcs := (apcs s)(t := Outside), given := n # given s \<rparr>)"
| swap_again: "apcs s t = Linked n x \<Longrightarrow> compare_exchange (head s) n x = (Inl v, h) \<Longrightarrow>
    alloc_step s (s\<lparr> head := h, apcs := (apcs s)(t := Loaded v) \<rparr>)"
| owner_writes: "n \<in> set (given s) \<Longrightarrow> alloc_step s (s\<lparr> mem := (mem s)(n := v) \<rparr>)"

inductive_cases alloc_stepE: "alloc_step s s'"

text \<open>The accesses of \<^verbatim>\<open>dealloc\<close>, by a thread that owns the block.\<close>

inductive dealloc_step :: "alloc_sys \<Rightarrow> alloc_sys \<Rightarrow> bool" where
  free_load: "apcs s t = Outside \<Longrightarrow> n \<in> set (given s) \<Longrightarrow>
    dealloc_step s (s\<lparr> apcs := (apcs s)(t := Freeing n (head s)) \<rparr>)"
| free_write: "apcs s t = Freeing n x \<Longrightarrow>
    dealloc_step s (s\<lparr> mem := (mem s)(n := x), apcs := (apcs s)(t := Freed n x) \<rparr>)"
| free_ok: "apcs s t = Freed n x \<Longrightarrow> compare_exchange_weak spur (head s) x n = (Inr u, h) \<Longrightarrow>
    dealloc_step s (s\<lparr> head := h, apcs := (apcs s)(t := Outside), given := remove1 n (given s) \<rparr>)"
| free_again: "apcs s t = Freed n x \<Longrightarrow> compare_exchange_weak spur (head s) x n = (Inl v, h) \<Longrightarrow>
    dealloc_step s (s\<lparr> head := h, apcs := (apcs s)(t := Freeing n v) \<rparr>)"

section \<open>Linked lists in memory\<close>

fun linked :: "memory \<Rightarrow> addr \<Rightarrow> addr list \<Rightarrow> bool" where
  "linked m p [] \<longleftrightarrow> p = 0"
| "linked m p (x # xs) \<longleftrightarrow> p = x \<and> x \<noteq> 0 \<and> linked m (m x) xs"

definition blocks :: "addr \<Rightarrow> nat \<Rightarrow> nat \<Rightarrow> addr list" where
  "blocks data sz c = map (\<lambda>i. data + i * sz) [0..<c]"

lemma linked_frame [simp]: "a \<notin> set xs \<Longrightarrow> linked (m(a := v)) p xs = linked m p xs"
  by (induction xs arbitrary: p) auto

lemma linked_nonnull: "linked m p xs \<Longrightarrow> 0 \<notin> set xs"
  by (induction xs arbitrary: p) auto

lemma linked_empty_iff: "linked m p xs \<Longrightarrow> p = 0 \<longleftrightarrow> xs = []"
  by (cases xs) auto

lemma linked_cong: "(\<And>a. a \<in> set xs \<Longrightarrow> m a = m' a) \<Longrightarrow> linked m p xs = linked m' p xs"
  by (induction xs arbitrary: p) auto

lemma linked_unique: "linked m p xs \<Longrightarrow> linked m p ys \<Longrightarrow> xs = ys"
proof (induction xs arbitrary: p ys)
  case Nil
  then show ?case by (cases ys) auto
next
  case (Cons x xs)
  then show ?case by (cases ys) auto
qed

lemma in_blocks: "a \<in> set (blocks data sz c) \<longleftrightarrow> (\<exists>i<c. a = data + i * sz)"
  by (auto simp: blocks_def)

lemma blocks_length [simp]: "length (blocks data sz c) = c"
  by (simp add: blocks_def)

lemma distinct_blocks: "0 < sz \<Longrightarrow> distinct (blocks data sz c)"
  using distinct_map_mult_add [of sz data]
  by (simp add: blocks_def distinct_map inj_on_subset [where A = UNIV])

lemma blocks_Suc: "blocks data sz (Suc c) = blocks data sz c @ [data + c * sz]"
  by (simp add: blocks_def)

lemma link_blocks_linked:
  assumes "0 < sz" "0 < data" "linked m node (rev (blocks data sz i))"
  shows "linked (snd (link_blocks data sz i k node m)) (fst (link_blocks data sz i k node m))
      (rev (blocks data sz (i + k)))
    \<and> (\<forall>a. a \<notin> set (blocks data sz (i + k)) \<longrightarrow> snd (link_blocks data sz i k node m) a = m a)"
  using assms(3)
proof (induction k arbitrary: i node m)
  case (Suc k)
  let ?a = "data + i * sz"
  have new: "?a \<notin> set (blocks data sz i)"
    using distinct_blocks [OF assms(1), of data "Suc i"] by (simp add: blocks_Suc)
  then have "linked (m(?a := node)) ?a (rev (blocks data sz (Suc i)))"
    using Suc.prems assms(2) by (simp add: blocks_Suc)
  note IH = Suc.IH [OF this]
  have "?a \<in> set (blocks data sz (i + Suc k))"
    unfolding in_blocks by (intro exI [of _ i]) simp
  then have "(m(?a := node)) a = m a" if "a \<notin> set (blocks data sz (i + Suc k))" for a
    using that by auto
  then show ?case
    using IH by (simp add: Let_def del: fun_upd_apply)
qed simp

lemma allocator_new_linked:
  assumes "allocator_new sz al c data m = Some (a, m')" "0 < data"
  shows "linked m' (list_node a) (rev (blocks data sz c))" "cap a = c" "start a = data"
    "\<And>x. x \<notin> set (blocks data sz c) \<Longrightarrow> m' x = m x" "0 < sz"
proof -
  have sz: "0 < sz"
    using assms(1) by (auto simp: allocator_new_def LIST_NODE_SIZE_def split: if_splits)
  then show "0 < sz" .
  have a: "a = \<lparr> cap = c, start = data, list_node = fst (link_blocks data sz 0 c 0 m) \<rparr>"
    and m': "m' = snd (link_blocks data sz 0 c 0 m)"
    using assms(1) by (auto simp: allocator_new_def split: if_splits prod.splits)
  have "linked m 0 (rev (blocks data sz 0))"
    by (simp add: blocks_def)
  from link_blocks_linked [OF sz assms(2) this, of c]
  show "linked m' (list_node a) (rev (blocks data sz c))"
    and "\<And>x. x \<notin> set (blocks data sz c) \<Longrightarrow> m' x = m x"
    using a m' by simp_all
  show "cap a = c" "start a = data"
    by (simp_all add: a)
qed

text \<open>The undisturbed call takes the first block of the list, or reports that there is none.\<close>

lemma alloc_linked:
  assumes "linked m (list_node a) xs"
  shows "alloc sz a m =
    (case xs of
       [] \<Rightarrow> (Inl ArrayAllocatorOutOfMemory, a)
     | x # ys \<Rightarrow> (Inr ((x - start a) div sz, x), a\<lparr> list_node := m x \<rparr>))"
    and "\<And>x ys. xs = x # ys \<Longrightarrow> linked m (m x) ys"
  using assms by (auto simp: alloc_def Let_def compare_exchange_def split: list.splits)

lemma dealloc_linked:
  assumes "linked m (list_node a) xs" "ptr \<notin> set xs" "ptr \<noteq> 0"
  shows "linked (snd (dealloc ptr a m)) (list_node (fst (dealloc ptr a m))) (ptr # xs)"
  using assms by (simp add: dealloc_def Let_def compare_exchange_weak_def)

section \<open>The invariant of the concurrent allocation\<close>

text \<open>
  Some list of free blocks is linked from the head; together with the blocks handed out it is the
  array. A link read from a block that is still free is its current link, and a thread that saw
  the empty list saw it for good.
\<close>

definition alloc_inv :: "addr set \<Rightarrow> alloc_sys \<Rightarrow> bool" where
  "alloc_inv B s \<longleftrightarrow> (\<exists>xs. linked (mem s) (head s) xs \<and> distinct (xs @ given s)
     \<and> set xs \<union> set (given s) = B
     \<and> (\<forall>t n x. apcs s t = Linked n x \<longrightarrow> n \<noteq> 0 \<and> (n \<in> set xs \<longrightarrow> x = mem s n))
     \<and> (\<forall>t. apcs s t = Loaded 0 \<longrightarrow> xs = [])
     \<and> (0 < failed s \<longrightarrow> xs = []))"

lemma alloc_inv_init:
  assumes "linked m (list_node a) xs" "distinct xs"
  shows "alloc_inv (set xs) (alloc_init a m)"
  using assms unfolding alloc_inv_def alloc_init_def by auto

lemma alloc_inv_step:
  assumes "alloc_inv B s" "alloc_step s s'"
  shows "alloc_inv B s'"
proof -
  obtain xs where xs: "linked (mem s) (head s) xs" "distinct (xs @ given s)" "set xs \<union> set (given s) = B"
    "\<forall>t n x. apcs s t = Linked n x \<longrightarrow> n \<noteq> 0 \<and> (n \<in> set xs \<longrightarrow> x = mem s n)"
    "\<forall>t. apcs s t = Loaded 0 \<longrightarrow> xs = []" "0 < failed s \<longrightarrow> xs = []"
    using assms(1) by (auto simp: alloc_inv_def)
  note empty = linked_empty_iff [OF xs(1)]
  from assms(2) show ?thesis
  proof cases
    case (load_head t)
    then show ?thesis using xs empty unfolding alloc_inv_def by (intro exI [of _ xs]) auto
  next
    case (out_of_memory t)
    then show ?thesis using xs unfolding alloc_inv_def by (intro exI [of _ xs]) auto
  next
    case (load_link t n)
    then show ?thesis using xs unfolding alloc_inv_def by (intro exI [of _ xs]) auto
  next
    case (swap_ok t n x u h)
    then have n: "head s = n" "h = x" "n \<noteq> 0"
      using xs(4) by (auto simp: compare_exchange_def split: if_splits)
    then obtain ys where ys: "xs = n # ys"
      using xs(1) by (cases xs) auto
    then have "x = mem s n"
      using xs(4) swap_ok by auto
    then show ?thesis
      using xs n ys swap_ok unfolding alloc_inv_def by (intro exI [of _ ys]) auto
  next
    case (swap_again t n x v h)
    then have "v = head s" "h = head s"
      by (auto simp: compare_exchange_def split: if_splits)
    then show ?thesis
      using xs empty swap_again unfolding alloc_inv_def by (intro exI [of _ xs]) auto
  next
    case (owner_writes n v)
    then have "n \<notin> set xs"
      using xs(2) by auto
    then show ?thesis
      using xs owner_writes unfolding alloc_inv_def by (intro exI [of _ xs]) auto
  qed
qed

lemma alloc_inv_steps:
  assumes "alloc_step\<^sup>*\<^sup>* s s'" "alloc_inv B s"
  shows "alloc_inv B s'"
  using assms by (induction rule: rtranclp_induct) (auto intro: alloc_inv_step)

lemma alloc_inv_given:
  assumes "alloc_inv B s"
  shows "distinct (given s)" "set (given s) \<subseteq> B"
    "(head s = 0 \<longleftrightarrow> set (given s) = B)" "0 < failed s \<Longrightarrow> set (given s) = B"
proof -
  obtain xs where xs: "linked (mem s) (head s) xs" "distinct (xs @ given s)" "set xs \<union> set (given s) = B"
    "0 < failed s \<longrightarrow> xs = []"
    using assms by (auto simp: alloc_inv_def)
  then show "distinct (given s)" "set (given s) \<subseteq> B" "0 < failed s \<Longrightarrow> set (given s) = B"
    by auto
  have "head s = 0 \<longleftrightarrow> set xs = {}"
    using linked_empty_iff [OF xs(1)] by simp
  also have "\<dots> \<longleftrightarrow> set (given s) = B"
  proof -
    have "set xs \<inter> set (given s) = {}"
      using xs(2) by simp
    moreover have "set xs \<subseteq> set (given s)" if "set (given s) = B"
      using xs(3) that by auto
    ultimately show ?thesis
      using xs(3) by (metis inf.orderE sup_bot_left)
  qed
  finally show "head s = 0 \<longleftrightarrow> set (given s) = B" .
qed

lemma and_not_mask_unat: "unat (w AND NOT (mask k)) = unat w div 2 ^ k * 2 ^ k"
  for w :: "'a::len word"
proof -
  have "w AND NOT (mask k) = push_bit k (drop_bit k w)"
    unfolding word_bits_eq_iff by (auto simp: bit_simps dest: bit_imp_le_length)
  then have "unat (w AND NOT (mask k)) = take_bit LENGTH('a) (push_bit k (unat w div 2 ^ k))"
    by (simp only: unsigned_push_bit_eq unat_drop_bit_div)
  also have "\<dots> = unat w div 2 ^ k * 2 ^ k"
    using le_less_trans [OF div_times_less_eq_dividend unsigned_less [of w, where ?'a = nat]]
    by (simp add: push_bit_eq_mult take_bit_nat_eq_self_iff)
  finally show ?thesis .
qed

lemma align_up_value:
  assumes "k < 64" and "unat sz + 2 ^ k \<le> 2 ^ 64"
  shows "unat (align_up sz (2 ^ k)) = (unat sz + (2 ^ k - 1)) div 2 ^ k * 2 ^ k"
proof -
  have m: "unat (mask k :: usize) = 2 ^ k - 1"
  proof -
    have "(mask k :: usize) = of_nat (2 ^ k - 1)"
      by (simp add: mask_eq_exp_minus_1 of_nat_diff)
    moreover have "(2::nat) ^ k - 1 < 2 ^ 64"
      using power_strict_increasing [OF assms(1), of "2::nat"] by linarith
    ultimately show ?thesis
      by (simp only: unat_of_nat_usize)
  qed
  have "align_up sz (2 ^ k) = (sz + mask k) AND NOT (mask k)"
    by (simp only: align_up_def mask_eq_exp_minus_1 add_diff_eq)
  moreover have "unat (sz + mask k) = unat sz + (2 ^ k - 1)"
    using assms(2) by (simp add: unat_word_ariths(1) m)
  ultimately show ?thesis
    by (simp add: and_not_mask_unat)
qed

text \<open>A number of calls in a row.\<close>

fun alloc_times :: "nat \<Rightarrow> nat \<Rightarrow> ArrayAllocator \<Rightarrow> memory \<Rightarrow> (SystemError + nat \<times> addr) list" where
  "alloc_times 0 sz a m = []"
| "alloc_times (Suc k) sz a m = (let (r, a') = alloc sz a m in r # alloc_times k sz a' m)"

lemma alloc_times_linked:
  assumes "linked m (list_node a) xs"
  shows "alloc_times k sz a m =
    map (\<lambda>x. Inr ((x - start a) div sz, x)) (take k xs)
    @ replicate (k - length xs) (Inl ArrayAllocatorOutOfMemory)"
  using assms
proof (induction k arbitrary: xs a)
  case (Suc k)
  show ?case
  proof (cases xs)
    case Nil
    then show ?thesis
      using Suc.IH [OF Suc.prems] alloc_linked(1) [OF Suc.prems, of sz] by simp
  next
    case (Cons x ys)
    then have "linked m (list_node (a\<lparr> list_node := m x \<rparr>)) ys"
      using Suc.prems by simp
    from Suc.IH [OF this] show ?thesis
      using Cons alloc_linked(1) [OF Suc.prems, of sz] by simp
  qed
qed simp

section \<open>Properties\<close>

text \<open>
  An array allocator used by one thread: from a fresh allocator of \<open>c\<close> blocks, the next \<open>k \<le> c\<close>
  calls of \<^verbatim>\<open>alloc\<close> return the blocks from the last one down, each with its index and its address
  \<open>start + index * size\<close>, and call number \<open>c + 1\<close> reports that the allocator is out of memory.
\<close>

theorem alloc_sequence:
  assumes "allocator_new sz al c data m = Some (a, m')" and "0 < data"
  shows "alloc_times (c + k) sz a m' =
    map (\<lambda>i. Inr (i, data + i * sz)) (rev [0..<c]) @ replicate k (Inl ArrayAllocatorOutOfMemory)"
proof -
  note new = allocator_new_linked [OF assms]
  have "(data + i * sz - data) div sz = i" for i
    using new(5) by simp
  then show ?thesis
    unfolding alloc_times_linked [OF new(1)]
    by (simp add: new(3) blocks_def rev_map comp_def)
qed

theorem alloc_sequence_witness:
  "\<exists>a m'. allocator_new 16 8 3 4096 (\<lambda>_. 77) = Some (a, m')
     \<and> alloc_times 4 16 a m' = [Inr (2, 4128), Inr (1, 4112), Inr (0, 4096), Inl ArrayAllocatorOutOfMemory]"
proof -
  obtain n m' where "link_blocks 4096 16 0 3 0 (\<lambda>_. 77) = (n, m')"
    by (rule prod.exhaust)
  then obtain a where "allocator_new 16 8 3 4096 (\<lambda>_. 77) = Some (a, m')"
    by (simp add: allocator_new_def LIST_NODE_SIZE_def)
  then show ?thesis
    using alloc_sequence [of 16 8 3 4096 "\<lambda>_. 77" a m' 1] by (simp add: upt_rec)
qed

text \<open>
  C15: the lock-free allocation loop. Whatever the interleaving of any number of allocating threads
  and of owners writing into their blocks, the blocks handed out are pairwise different blocks of
  the array, a call fails only when every block is handed out, and the list is empty exactly then.
\<close>

theorem concurrent_alloc_unique:
  assumes "allocator_new sz al c data m = Some (a, m')" and "0 < data"
    and "alloc_step\<^sup>*\<^sup>* (alloc_init a m') s"
  shows "distinct (given s) \<and> set (given s) \<subseteq> {data + i * sz |i. i < c}
    \<and> (0 < failed s \<longrightarrow> length (given s) = c) \<and> (head s = 0 \<longleftrightarrow> length (given s) = c)"
proof -
  note new = allocator_new_linked [OF assms(1,2)]
  have d: "distinct (blocks data sz c)"
    using new(5) by (rule distinct_blocks)
  have inv: "alloc_inv (set (blocks data sz c)) s"
    using alloc_inv_steps [OF assms(3)] alloc_inv_init [OF new(1)] d by simp
  note g = alloc_inv_given [OF inv]
  have card: "set (given s) = set (blocks data sz c) \<longleftrightarrow> length (given s) = c"
    using g(1,2) d card_subset_eq [of "set (blocks data sz c)" "set (given s)"]
    by (metis List.finite_set blocks_length distinct_card)
  have "set (blocks data sz c) = {data + i * sz |i. i < c}"
    by (auto simp: in_blocks)
  then show ?thesis
    using g card by simp
qed

theorem concurrent_alloc_unique_witness:
  "\<exists>a m' s. allocator_new 8 8 1 8 (\<lambda>_. 0) = Some (a, m') \<and> alloc_step\<^sup>*\<^sup>* (alloc_init a m') s
     \<and> given s = [8] \<and> head s = 0"
proof -
  let ?a = "\<lparr> cap = 1, start = 8, list_node = 8 \<rparr>"
  have new: "allocator_new 8 8 1 8 (\<lambda>_. 0) = Some (?a, \<lambda>_. 0)"
    by (simp add: allocator_new_def LIST_NODE_SIZE_def fun_eq_iff)
  let ?s1 = "\<lparr> head = 8, mem = \<lambda>_. 0, apcs = (\<lambda>_. Outside)(3 := Loaded 8), given = [], failed = 0 \<rparr>"
  let ?s2 = "\<lparr> head = 8, mem = \<lambda>_. 0, apcs = (\<lambda>_. Outside)(3 := Linked 8 0), given = [], failed = 0 \<rparr>"
  let ?s3 = "\<lparr> head = 0, mem = \<lambda>_. 0, apcs = \<lambda>_. Outside, given = [8], failed = 0 \<rparr>"
  have "alloc_step (alloc_init ?a (\<lambda>_. 0)) ?s1"
    using alloc_step.load_head [of "alloc_init ?a (\<lambda>_. 0)" 3] by (simp add: alloc_init_def)
  moreover have "alloc_step ?s1 ?s2"
    using alloc_step.load_link [of ?s1 3 8] by simp
  moreover have "alloc_step ?s2 ?s3"
    using alloc_step.swap_ok [of ?s2 3 8 0 8 0] by (simp add: atomic_simps fun_upd_idem)
  ultimately have run: "alloc_step\<^sup>*\<^sup>* (alloc_init ?a (\<lambda>_. 0)) ?s3"
    by (meson converse_rtranclp_into_rtranclp rtranclp.rtrancl_refl)
  then have "head ?s3 = 0 \<longleftrightarrow> length (given ?s3) = 1"
    using concurrent_alloc_unique [OF new _ run] by simp
  with new run show ?thesis
    by (intro exI [of _ ?a] exI [of _ "\<lambda>_. 0"] exI [of _ ?s3]) simp
qed

text \<open>
  \<^verbatim>\<open>align_up\<close> to a power of two rounds up to the next multiple when the sum does not overflow.
\<close>

theorem align_up_rounds:
  assumes "k < 64" and "unat sz + 2 ^ k \<le> 2 ^ 64"
  shows "unat (align_up sz (2 ^ k)) = (unat sz + (2 ^ k - 1)) div 2 ^ k * 2 ^ k
    \<and> unat sz \<le> unat (align_up sz (2 ^ k)) \<and> unat (align_up sz (2 ^ k)) < unat sz + 2 ^ k"
proof -
  note up = align_up_value [OF assms]
  let ?n = "unat sz + (2 ^ k - 1)"
  have "?n div 2 ^ k * 2 ^ k + ?n mod 2 ^ k = ?n" "?n mod 2 ^ k < 2 ^ k" "0 < (2::nat) ^ k"
    by (simp_all only: div_mult_mod_eq) simp_all
  then have "unat sz \<le> ?n div 2 ^ k * 2 ^ k" "?n div 2 ^ k * 2 ^ k < unat sz + 2 ^ k"
    by linarith+
  with up show ?thesis by simp
qed

theorem align_up_rounds_witness:
  "unat (1000 :: usize) + 2 ^ 9 \<le> 2 ^ 64 \<and> unat (align_up 1000 (2 ^ 9)) = 1024"
  using align_up_rounds [of 9 1000] by simp

lemma aba_run:
  fixes s0 :: alloc_sys
  assumes s0: "s0 = \<lparr> head = 16, mem = (\<lambda>_. 0)(16 := 8), apcs = (\<lambda>_. Outside), given = [], failed = 0 \<rparr>"
  shows "\<exists>s. (\<lambda>s s'. alloc_step s s' \<or> dealloc_step s s')\<^sup>*\<^sup>* s0 s \<and> head s = 8 \<and> given s = [16, 8]"
proof -
  let ?R = "\<lambda>s s'. alloc_step s s' \<or> dealloc_step s s'"
  have step: "?R\<^sup>*\<^sup>* a c" if "alloc_step a b'" "b' = b" "?R\<^sup>*\<^sup>* b c" for a b b' c
    using converse_rtranclp_into_rtranclp [of ?R a b c] that by simp
  have fstep: "?R\<^sup>*\<^sup>* a c" if "dealloc_step a b'" "b' = b" "?R\<^sup>*\<^sup>* b c" for a b b' c
    using converse_rtranclp_into_rtranclp [of ?R a b c] that by simp
  show ?thesis
    unfolding s0
    apply (intro exI conjI)
      apply (rule step, rule alloc_step.load_head [of _ 0], simp, simp)
      apply (rule step, rule alloc_step.load_link [of _ 0 16], simp, simp, simp)
      apply (rule step, rule alloc_step.load_head [of _ 1], simp, simp)
      apply (rule step, rule alloc_step.load_link [of _ 1 16], simp, simp, simp)
      apply (rule step, rule alloc_step.swap_ok [of _ 1 16 8 16 8], simp, simp add: atomic_simps, simp)
      apply (rule step, rule alloc_step.load_head [of _ 1], simp, simp)
      apply (rule step, rule alloc_step.load_link [of _ 1 8], simp, simp, simp)
      apply (rule step, rule alloc_step.swap_ok [of _ 1 8 0 8 0], simp, simp add: atomic_simps, simp)
      apply (rule fstep, rule dealloc_step.free_load [of _ 1 16], simp, simp, simp)
      apply (rule fstep, rule dealloc_step.free_write [of _ 1 16 0], simp, simp)
      apply (rule fstep, rule dealloc_step.free_ok [of _ 1 16 0 False 0 16], simp, simp add: atomic_simps, simp)
      apply (rule step, rule alloc_step.swap_ok [of _ 0 16 8 16 8], simp, simp add: atomic_simps, simp)
      apply (rule rtranclp.rtrancl_refl)
     apply simp
    apply simp
    done
qed

text \<open>
  C32: with \<^verbatim>\<open>dealloc\<close> the loop is not safe. Two allocating threads and one that returns a block
  reach a state (a stale link is swapped in after the head went away and came back) where the head
  of the free list is a block that is handed out, so that the next call hands it out again.
\<close>

theorem dealloc_aba:
  "\<exists>a m' s. allocator_new 8 8 2 8 (\<lambda>_. 0) = Some (a, m')
     \<and> (\<lambda>s s'. alloc_step s s' \<or> dealloc_step s s')\<^sup>*\<^sup>* (alloc_init a m') s
     \<and> head s \<in> set (given s)"
proof -
  have "link_blocks 8 8 0 2 0 (\<lambda>_. 0) = (16, (\<lambda>_. 0)(16 := 8))"
    by (simp add: numeral_2_eq_2 fun_eq_iff)
  then have new: "allocator_new 8 8 2 8 (\<lambda>_. 0)
      = Some (\<lparr> cap = 2, start = 8, list_node = 16 \<rparr>, (\<lambda>_. 0)(16 := 8))"
    by (simp add: allocator_new_def LIST_NODE_SIZE_def)
  obtain s where "(\<lambda>s s'. alloc_step s s' \<or> dealloc_step s s')\<^sup>*\<^sup>*
      (alloc_init \<lparr> cap = 2, start = 8, list_node = 16 \<rparr> ((\<lambda>_. 0)(16 := 8))) s"
    "head s = 8" "given s = [16, 8]"
    using aba_run [OF refl] by (auto simp: alloc_init_def)
  with new show ?thesis by (intro exI [of _ s] exI conjI) auto
qed

end
