(* ===== verification/Heap_Array.thy ===== *)
theory Heap_Array
  imports Obj_Alloc Oid_Word
begin

text \<open>
  \<^verbatim>\<open>HeapArray\<close> of \<^verbatim>\<open>src/utils/obj_alloc.rs\<close>, at the element type it is used with (\<^verbatim>\<open>LockedOid\<close>, one
  8-byte word): arenas of \<open>N\<close> elements from one shared allocator, and per thread a current arena
  and a free list. The table from thread ids to per-thread allocators is a concurrent hash map of
  the \<^verbatim>\<open>flurry\<close> crate; its operations are a parameter with the laws of \<open>hash_map_laws\<close>.
\<close>

section \<open>Hash maps\<close>

record ('k, 'v, 'm) hash_map =
  hm_new :: 'm
  hm_get :: "'m \<Rightarrow> 'k \<Rightarrow> 'v option"
  hm_insert :: "'m \<Rightarrow> 'k \<Rightarrow> 'v \<Rightarrow> 'm"
  hm_remove :: "'m \<Rightarrow> 'k \<Rightarrow> 'm"

locale hash_map_laws =
  fixes ops :: "('k, 'v, 'm) hash_map"
  assumes get_new: "hm_get ops (hm_new ops) k = None"
    and get_insert: "hm_get ops (hm_insert ops m k v) k' = (if k' = k then Some v else hm_get ops m k')"
    and get_remove: "hm_get ops (hm_remove ops m k) k' = (if k' = k then None else hm_get ops m k')"
begin

lemma get_insert_same: "hm_get ops (hm_insert ops m k v) k = Some v"
  by (simp add: get_insert)

lemma get_insert_other: "k' \<noteq> k \<Longrightarrow> hm_get ops (hm_insert ops m k v) k' = hm_get ops m k'"
  by (simp add: get_insert)

lemma insert_cases:
  assumes "hm_get ops (hm_insert ops m k v) k' = Some w"
  obtains "k' = k" "w = v" | "k' \<noteq> k" "hm_get ops m k' = Some w"
  using assms by (auto simp: get_insert split: if_splits)

end

text \<open>Finite maps behave as the laws say.\<close>

definition map_ops :: "('k, 'v, 'k \<rightharpoonup> 'v) hash_map" where
  "map_ops = \<lparr> hm_new = Map.empty, hm_get = (\<lambda>m k. m k), hm_insert = (\<lambda>m k v. m(k \<mapsto> v)),
     hm_remove = (\<lambda>m k. m(k := None)) \<rparr>"

interpretation maps: hash_map_laws map_ops
  by unfold_locales (simp_all add: map_ops_def)

section \<open>Definitions\<close>

text \<open>A call that can also panic.\<close>

datatype 'a outcome = Done 'a | Fail SystemError | Panic

definition OID_SIZE :: nat where "OID_SIZE = 8"

text \<open>\<^verbatim>\<open>TlsFreeList\<close>: the head of a list threaded through returned elements.\<close>

definition free_pop :: "addr \<Rightarrow> memory \<Rightarrow> addr option \<times> addr" where
  "free_pop h m = (if h = 0 then (None, h) else (Some h, m h))"

definition free_insert :: "addr \<Rightarrow> addr \<Rightarrow> memory \<Rightarrow> addr \<times> memory" where
  "free_insert ptr h m = (ptr, m(ptr := h))"

record TlsAllocator =
  arena :: ArrayAllocator
  free_list :: addr

definition tls_new :: "ArrayAllocator \<Rightarrow> TlsAllocator" where
  "tls_new ar = \<lparr> arena = ar, free_list = 0 \<rparr>"

definition tls_alloc :: "TlsAllocator \<Rightarrow> memory \<Rightarrow> (SystemError + addr) \<times> TlsAllocator" where
  "tls_alloc ta m =
     (case free_pop (free_list ta) m of
        (Some ptr, h) \<Rightarrow> (Inr ptr, ta\<lparr> free_list := h \<rparr>)
      | (None, _) \<Rightarrow>
          (case alloc OID_SIZE (arena ta) m of
             (Inl e, ar) \<Rightarrow> (Inl e, ta\<lparr> arena := ar \<rparr>)
           | (Inr (_, ptr), ar) \<Rightarrow> (Inr ptr, ta\<lparr> arena := ar \<rparr>)))"

definition tls_update_arena :: "ArrayAllocator \<Rightarrow> TlsAllocator \<Rightarrow> TlsAllocator" where
  "tls_update_arena ar ta = ta\<lparr> arena := ar \<rparr>"

definition tls_dealloc :: "addr \<Rightarrow> TlsAllocator \<Rightarrow> memory \<Rightarrow> TlsAllocator \<times> memory" where
  "tls_dealloc ptr ta m = (let (h, m') = free_insert ptr (free_list ta) m in (ta\<lparr> free_list := h \<rparr>, m'))"

text \<open>
  The hash map holds references to the per-thread allocators; \<open>objs\<close> are the objects they lead to
  and \<open>next_obj\<close> the next unused reference.
\<close>

record 'm HeapArray =
  heap :: ArrayAllocator
  tls_mapping :: 'm
  objs :: "nat \<Rightarrow> TlsAllocator"
  next_obj :: nat

definition heap_array_new ::
  "(tid, nat, 'm) hash_map \<Rightarrow> nat \<Rightarrow> nat \<Rightarrow> addr \<Rightarrow> memory \<Rightarrow> ('m HeapArray \<times> memory) option" where
  "heap_array_new ops N arena_cnt ptr m =
     map_option (\<lambda>(a, m').
         (\<lparr> heap = a, tls_mapping = hm_new ops,
            objs = (\<lambda>_. tls_new \<lparr> cap = 0, start = 0, list_node = 0 \<rparr>), next_obj = 0 \<rparr>, m'))
       (allocator_new (N * OID_SIZE) OID_SIZE arena_cnt ptr m)"

definition new_arena ::
  "nat \<Rightarrow> 'm HeapArray \<Rightarrow> memory \<Rightarrow> (ArrayAllocator \<times> 'm HeapArray \<times> memory) outcome" where
  "new_arena N H m =
     (case alloc (N * OID_SIZE) (heap H) m of
        (Inl e, _) \<Rightarrow> Fail e
      | (Inr (_, ptr), h) \<Rightarrow>
          (case allocator_new OID_SIZE OID_SIZE (N * OID_SIZE div OID_SIZE) ptr m of
             None \<Rightarrow> Panic
           | Some (ar, m') \<Rightarrow> Done (ar, H\<lparr> heap := h \<rparr>, m')))"

definition get_tls_allocator ::
  "(tid, nat, 'm) hash_map \<Rightarrow> nat \<Rightarrow> tid \<Rightarrow> 'm HeapArray \<Rightarrow> memory \<Rightarrow> (nat \<times> 'm HeapArray \<times> memory) outcome"
  where
  "get_tls_allocator ops N thread_id H m =
     (case hm_get ops (tls_mapping H) thread_id of
        Some v \<Rightarrow> Done (v, H, m)
      | None \<Rightarrow>
          (case new_arena N H m of
             Fail e \<Rightarrow> Fail e
           | Panic \<Rightarrow> Panic
           | Done (ar, H1, m1) \<Rightarrow>
               let r = next_obj H1;
                   H2 = H1\<lparr> tls_mapping := hm_insert ops (tls_mapping H1) thread_id r,
                            objs := (objs H1)(r := tls_new ar), next_obj := r + 1 \<rparr>
               in (case hm_get ops (tls_mapping H2) thread_id of
                     Some v \<Rightarrow> Done (v, H2, m1)
                   | None \<Rightarrow> Panic)))"

definition ptr_to_index :: "'m HeapArray \<Rightarrow> addr \<Rightarrow> u32" where
  "ptr_to_index H ptr = of_nat ((ptr - start (heap H)) div OID_SIZE)"

definition index_to_ptr :: "'m HeapArray \<Rightarrow> u32 \<Rightarrow> addr" where
  "index_to_ptr H index = start (heap H) + unat index * OID_SIZE"

definition heap_capacity :: "nat \<Rightarrow> 'm HeapArray \<Rightarrow> nat" where
  "heap_capacity N H = cap (heap H) * N"

text \<open>
  The loop of \<^verbatim>\<open>append\<close>: when the thread's allocator is exhausted it takes a new arena and tries
  again. The outer \<^const>\<open>None\<close> is a loop that never ends.
\<close>

partial_function (option) append_loop ::
  "nat \<Rightarrow> nat \<Rightarrow> nat \<Rightarrow> 'm HeapArray \<Rightarrow> memory \<Rightarrow> (u32 \<times> 'm HeapArray \<times> memory) outcome option" where
  "append_loop N r item H m =
     (case tls_alloc (objs H r) m of
        (Inr ptr, ta) \<Rightarrow>
          (let H' = H\<lparr> objs := (objs H)(r := ta) \<rparr>
           in Some (Done (ptr_to_index H' ptr, H', m(ptr := item))))
      | (Inl _, ta) \<Rightarrow>
          (case new_arena N (H\<lparr> objs := (objs H)(r := ta) \<rparr>) m of
             Fail e \<Rightarrow> Some (Fail e)
           | Panic \<Rightarrow> Some Panic
           | Done (ar, H1, m1) \<Rightarrow>
               append_loop N r item (H1\<lparr> objs := (objs H1)(r := tls_update_arena ar (objs H1 r)) \<rparr>) m1))"

definition append_item ::
  "(tid, nat, 'm) hash_map \<Rightarrow> nat \<Rightarrow> tid \<Rightarrow> nat \<Rightarrow> 'm HeapArray \<Rightarrow> memory
    \<Rightarrow> (u32 \<times> 'm HeapArray \<times> memory) outcome option" where
  "append_item ops N thread_id item H m =
     (case get_tls_allocator ops N thread_id H m of
        Fail e \<Rightarrow> Some (Fail e)
      | Panic \<Rightarrow> Some Panic
      | Done (r, H1, m1) \<Rightarrow> append_loop N r item H1 m1)"

definition delete_item ::
  "(tid, nat, 'm) hash_map \<Rightarrow> nat \<Rightarrow> tid \<Rightarrow> u32 \<Rightarrow> 'm HeapArray \<Rightarrow> memory \<Rightarrow> ('m HeapArray \<times> memory) outcome"
  where
  "delete_item ops N thread_id idx H m =
     (let ptr = index_to_ptr H idx
      in case get_tls_allocator ops N thread_id H m of
           Done (r, H1, m1) \<Rightarrow>
             let (ta, m2) = tls_dealloc ptr (objs H1 r) m1
             in Done (H1\<lparr> objs := (objs H1)(r := ta) \<rparr>, m2)
         | _ \<Rightarrow> Panic)"

section \<open>The invariant\<close>

text \<open>
  Every element belongs to the shared list of arenas, to the free elements of one per-thread
  allocator, or to the live elements.
\<close>

datatype owner = Nobody | Shared | Thread nat | Live

definition arena_cells :: "nat \<Rightarrow> addr \<Rightarrow> addr set" where
  "arena_cells N a = set (blocks a OID_SIZE N)"

definition free_cells :: "memory \<Rightarrow> TlsAllocator \<Rightarrow> addr list \<Rightarrow> addr list \<Rightarrow> bool" where
  "free_cells m ta F G \<longleftrightarrow> linked m (list_node (arena ta)) F \<and> linked m (free_list ta) G \<and> distinct (F @ G)"

definition owned_inv ::
  "(tid, nat, 'm) hash_map \<Rightarrow> nat \<Rightarrow> 'm HeapArray \<Rightarrow> memory \<Rightarrow> addr set \<Rightarrow> (addr \<Rightarrow> owner) \<Rightarrow> addr list \<Rightarrow> bool"
  where
  "owned_inv ops N H m live own A \<longleftrightarrow>
     linked m (list_node (heap H)) A \<and> distinct A
     \<and> set A \<subseteq> set (blocks (start (heap H)) (N * OID_SIZE) (cap (heap H)))
     \<and> (\<forall>a\<in>set A. \<forall>c\<in>arena_cells N a. own c = Shared)
     \<and> (\<forall>c. own c = Live \<longleftrightarrow> c \<in> live)
     \<and> (\<forall>c. own c \<noteq> Nobody \<longrightarrow> c \<in> set (blocks (start (heap H)) OID_SIZE (heap_capacity N H)))
     \<and> (\<forall>t r. hm_get ops (tls_mapping H) t = Some r \<longrightarrow> r < next_obj H
          \<and> (\<exists>F G. free_cells m (objs H r) F G \<and> (\<forall>c\<in>set (F @ G). own c = Thread r)))
     \<and> (\<forall>t t' r. hm_get ops (tls_mapping H) t = Some r \<and> hm_get ops (tls_mapping H) t' = Some r \<longrightarrow> t = t')
     \<and> (\<forall>c r. own c = Thread r \<longrightarrow> r < next_obj H)"

definition heap_inv ::
  "(tid, nat, 'm) hash_map \<Rightarrow> nat \<Rightarrow> 'm HeapArray \<Rightarrow> memory \<Rightarrow> addr set \<Rightarrow> bool" where
  "heap_inv ops N H m live \<longleftrightarrow> 0 < N \<and> 0 < start (heap H) \<and> heap_capacity N H < 2 ^ 32
     \<and> (\<exists>own A. owned_inv ops N H m live own A)"

section \<open>Arenas and cells\<close>

lemma OID_SIZE_simps [simp]: "0 < OID_SIZE" "OID_SIZE \<noteq> 0" "LIST_NODE_SIZE \<le> OID_SIZE" "OID_SIZE \<le> n * OID_SIZE \<longleftrightarrow> 0 < n"
  by (simp_all add: OID_SIZE_def LIST_NODE_SIZE_def) arith

lemma in_arena_cells: "c \<in> arena_cells N a \<longleftrightarrow> (\<exists>j<N. c = a + j * OID_SIZE)"
  by (auto simp: arena_cells_def in_blocks)

lemma arena_self: "0 < N \<Longrightarrow> a \<in> arena_cells N a"
  unfolding in_arena_cells by (intro exI [of _ 0]) simp

lemma arena_index: "st + i * (N * OID_SIZE) + j * OID_SIZE = st + (i * N + j) * OID_SIZE"
  by (simp add: algebra_simps)

lemma arena_cells_disjoint:
  assumes "a \<in> set (blocks st (N * OID_SIZE) c)" "a' \<in> set (blocks st (N * OID_SIZE) c)" "a \<noteq> a'"
  shows "arena_cells N a \<inter> arena_cells N a' = {}"
proof -
  obtain i i' where i: "a = st + i * (N * OID_SIZE)" "a' = st + i' * (N * OID_SIZE)"
    using assms by (auto simp: in_blocks)
  have "i = i'" if "j < N" "j' < N" "a + j * OID_SIZE = a' + j' * OID_SIZE" for j j'
  proof -
    have "i * N + j = i' * N + j'"
      using that(3) unfolding i arena_index by simp
    then have "(i * N + j) div N = (i' * N + j') div N"
      by simp
    then show ?thesis
      using that(1,2) by simp
  qed
  then show ?thesis
    using i assms(3) by (auto simp: in_arena_cells)
qed

lemma arena_cells_in:
  assumes "a \<in> set (blocks st (N * OID_SIZE) c)"
  shows "arena_cells N a \<subseteq> set (blocks st OID_SIZE (c * N))"
proof
  fix x
  assume "x \<in> arena_cells N a"
  then obtain i j where ij: "i < c" "j < N" "x = st + (i * N + j) * OID_SIZE"
    using assms by (auto simp: in_arena_cells in_blocks arena_index)
  have "i * N + j < i * N + N"
    using ij(2) by simp
  also have "\<dots> = Suc i * N"
    by simp
  also have "\<dots> \<le> c * N"
    using ij(1) by (intro mult_le_mono1) simp
  finally show "x \<in> set (blocks st OID_SIZE (c * N))"
    using ij(3) by (auto simp: in_blocks)
qed

lemma index_round_trip:
  assumes "p \<in> set (blocks (start (heap H)) OID_SIZE c)" "c \<le> 2 ^ 32"
  shows "index_to_ptr H (ptr_to_index H p) = p" "unat (ptr_to_index H p) < c"
proof -
  obtain k where k: "k < c" "p = start (heap H) + k * OID_SIZE"
    using assms(1) by (auto simp: in_blocks)
  then have "ptr_to_index H p = of_nat k"
    by (simp add: ptr_to_index_def)
  moreover have "unat (of_nat k :: u32) = k"
    using k(1) assms(2) by (simp add: unsigned_of_nat take_bit_nat_eq_self_iff)
  ultimately show "index_to_ptr H (ptr_to_index H p) = p" "unat (ptr_to_index H p) < c"
    using k by (simp_all add: index_to_ptr_def)
qed

section \<open>The per-thread allocator\<close>

lemma tls_alloc_cases:
  assumes "free_cells m ta F G"
  obtains (none) "F @ G = []" "tls_alloc ta m = (Inl ArrayAllocatorOutOfMemory, ta)"
  | (some) p ta' F' G' where "p \<in> set (F @ G)" "p \<notin> set (F' @ G')" "set (F' @ G') \<subseteq> set (F @ G)"
      "tls_alloc ta m = (Inr p, ta')" "free_cells m ta' F' G'"
proof (cases G)
  case (Cons g G')
  then show ?thesis
    using assms some [of g F G' "ta\<lparr> free_list := m g \<rparr>"]
    by (auto simp: free_cells_def tls_alloc_def free_pop_def)
next
  case Nil
  have F: "linked m (list_node (arena ta)) F" and h: "free_list ta = 0" and d: "distinct F"
    using assms Nil by (auto simp: free_cells_def)
  show ?thesis
  proof (cases F)
    case Nil
    then show ?thesis
      using \<open>G = []\<close> h none alloc_linked(1) [OF F, of OID_SIZE]
      by (simp add: tls_alloc_def free_pop_def)
  next
    case (Cons f F')
    then show ?thesis
      using \<open>G = []\<close> h d F some [of f F' "[]" "ta\<lparr> arena := (arena ta)\<lparr> list_node := m f \<rparr> \<rparr>"]
        alloc_linked(1) [OF F, of OID_SIZE]
      by (auto simp: tls_alloc_def free_pop_def free_cells_def)
  qed
qed

lemma free_cells_cong:
  assumes "free_cells m ta F G" "\<And>c. c \<in> set (F @ G) \<Longrightarrow> m' c = m c"
  shows "free_cells m' ta F G"
  using assms linked_cong [of F m m'] linked_cong [of G m m'] by (auto simp: free_cells_def)

lemma free_cells_frame [simp]: "p \<notin> set F \<Longrightarrow> p \<notin> set G \<Longrightarrow> free_cells (m(p := v)) ta F G = free_cells m ta F G"
  by (simp add: free_cells_def)

section \<open>Taking an arena\<close>

lemma new_arena_cases:
  assumes "owned_inv ops N H m live own A" "0 < N" "0 < start (heap H)"
  obtains (none) "A = []" "new_arena N H m = Fail ArrayAllocatorOutOfMemory"
  | (some) a A' ar m' where "A = a # A'"
      "new_arena N H m = Done (ar, H\<lparr> heap := (heap H)\<lparr> list_node := m a \<rparr> \<rparr>, m')"
      "linked m' (list_node ar) (rev (blocks a OID_SIZE N))"
      "\<And>x. x \<notin> arena_cells N a \<Longrightarrow> m' x = m x" "linked m (m a) A'"
proof -
  have A: "linked m (list_node (heap H)) A"
    using assms(1) by (simp add: owned_inv_def)
  note al = alloc_linked(1) [OF A, of "N * OID_SIZE"] alloc_linked(2) [OF A]
  show ?thesis
  proof (cases A)
    case Nil
    then show ?thesis
      using none al by (simp add: new_arena_def)
  next
    case (Cons a A')
    obtain ar m' where new: "allocator_new OID_SIZE OID_SIZE N a m = Some (ar, m')"
      by (cases "link_blocks a OID_SIZE 0 N 0 m") (simp add: allocator_new_def)
    have "0 < a"
      using A Cons by simp
    note lk = allocator_new_linked [OF new this]
    show ?thesis
      using some [OF Cons, of ar m'] Cons al new lk(1,4)
      by (simp add: new_arena_def arena_cells_def)
  qed
qed

lemma owned_inv_take_arena:
  assumes inv: "owned_inv ops N H m live own (a # A')" and N: "0 < N"
    and lk: "linked m (m a) A'" and frame: "\<And>x. x \<notin> arena_cells N a \<Longrightarrow> m' x = m x"
    and cells: "free_cells m' ta (rev (blocks a OID_SIZE N)) []"
    and maps: "\<And>t v. hm_get ops M t = Some v \<Longrightarrow> v = r \<or> hm_get ops (tls_mapping H) t = Some v \<and> v \<noteq> r"
    and inj: "\<And>t t' v. hm_get ops M t = Some v \<Longrightarrow> hm_get ops M t' = Some v \<Longrightarrow> t = t'"
    and r: "r < k" "next_obj H \<le> k"
  shows "owned_inv ops N (H\<lparr> heap := (heap H)\<lparr> list_node := m a \<rparr>, tls_mapping := M,
      objs := (objs H)(r := ta), next_obj := k \<rparr>) m' live
      (\<lambda>c. if c \<in> arena_cells N a then Thread r else own c) A'"
proof -
  let ?B = "set (blocks (start (heap H)) (N * OID_SIZE) (cap (heap H)))"
  note i = inv [unfolded owned_inv_def]
  have aB: "a \<in> ?B" "set A' \<subseteq> ?B" "a \<notin> set A'"
    using i by auto
  have sh: "own c = Shared" if "c \<in> arena_cells N a" for c
    using i that by simp
  have dis: "arena_cells N a \<inter> arena_cells N a' = {}" if "a' \<in> set A'" for a'
    using arena_cells_disjoint [of a _ N _ a'] aB that by blast
  have lk': "linked m' (m a) A'"
    using lk linked_cong [of A' m m'] frame dis arena_self [OF N] by (metis disjoint_iff)
  have lists: "\<exists>F G. free_cells m' (if v = r then ta else objs H v) F G
      \<and> (\<forall>c\<in>set (F @ G). (if c \<in> arena_cells N a then Thread r else own c) = Thread v)"
    if get: "hm_get ops M t = Some v" for t v
  proof (cases "v = r")
    case True
    then show ?thesis
      using cells by (intro exI [of _ "rev (blocks a OID_SIZE N)"] exI [of _ "[]"]) (simp add: arena_cells_def)
  next
    case False
    then have "hm_get ops (tls_mapping H) t = Some v"
      using maps [OF get] by simp
    then obtain F G where FG: "free_cells m (objs H v) F G" "\<forall>c\<in>set (F @ G). own c = Thread v"
      using i by blast
    then have out: "c \<notin> arena_cells N a" if "c \<in> set (F @ G)" for c
      using sh [of c] that by (metis owner.distinct(7))
    then have "free_cells m' (objs H v) F G"
      using free_cells_cong [OF FG(1), of m'] frame by blast
    then show ?thesis
      using FG(2) out False by (intro exI [of _ F] exI [of _ G]) auto
  qed
  have bound: "v < k" if "hm_get ops M t = Some v" for t v
    using maps [OF that] i r by (metis less_le_trans)
  have "\<forall>c v. own c = Thread v \<longrightarrow> v < next_obj H"
    using i by blast
  then have own_k: "v < k" if "own c = Thread v" for c v
    using that r(2) by (meson less_le_trans)
  show ?thesis
    unfolding owned_inv_def heap_capacity_def
  proof (intro conjI, goal_cases)
    case 4
    then show ?case using i dis by (auto simp: disjoint_iff)
  next
    case 5
    then show ?case using i sh by (auto simp del: OID_SIZE_simps) (metis owner.distinct(9) sh)
  next
    case 6
    then show ?case using i arena_cells_in [OF aB(1)] by (auto simp: heap_capacity_def)
  next
    case 7
    then show ?case using lists bound by auto
  next
    case 8
    then show ?case using inj by auto
  next
    case 9
    then show ?case using own_k r(1) by auto
  qed (use i lk' aB in auto)
qed

section \<open>Handing an element out\<close>

lemma owned_inv_give:
  assumes inv: "owned_inv ops N H m live own A" and N: "0 < N"
    and get: "hm_get ops (tls_mapping H) t = Some r"
    and p: "own p = Thread r" "p \<notin> set (F' @ G')" "\<forall>c\<in>set (F' @ G'). own c = Thread r"
    and cells: "free_cells m ta F' G'"
  shows "owned_inv ops N (H\<lparr> objs := (objs H)(r := ta) \<rparr>) (m(p := item)) (insert p live) (own(p := Live)) A"
proof -
  note i = inv [unfolded owned_inv_def]
  have shared: "own c = Shared" if "a \<in> set A" "c \<in> arena_cells N a" for a c
    using i that by blast
  then have notA: "p \<notin> set A" and not_arena: "\<And>a. a \<in> set A \<Longrightarrow> p \<notin> arena_cells N a"
    using p(1) arena_self [OF N] by (metis owner.distinct(7))+
  have lists: "\<exists>F G. free_cells (m(p := item)) (if v = r then ta else objs H v) F G
      \<and> (\<forall>c\<in>set (F @ G). (own(p := Live)) c = Thread v)"
    if g: "hm_get ops (tls_mapping H) t' = Some v" for t' v
  proof (cases "v = r")
    case True
    then show ?thesis
      using cells p
      by (rule_tac exI [of _ F'], rule_tac exI [of _ G']) auto
  next
    case False
    obtain F G where FG: "free_cells m (objs H v) F G" "\<forall>c\<in>set (F @ G). own c = Thread v"
      using i g by blast
    then have "p \<notin> set (F @ G)"
      using p(1) False by (metis owner.inject)
    then show ?thesis
      using FG False
      by (rule_tac exI [of _ F], rule_tac exI [of _ G]) auto
  qed
  have own: "\<forall>c. own c = Live \<longleftrightarrow> c \<in> live"
    "\<forall>c. own c \<noteq> Nobody \<longrightarrow> c \<in> set (blocks (start (heap H)) OID_SIZE (heap_capacity N H))"
    using i by blast+
  then have "p \<in> set (blocks (start (heap H)) OID_SIZE (heap_capacity N H))"
    using p(1) by simp
  then show ?thesis
    unfolding owned_inv_def heap_capacity_def
  proof (intro conjI, goal_cases)
    case 4
    then show ?case using shared not_arena by auto
  next
    case 5
    then show ?case using own by auto
  next
    case 6
    then show ?case using own by (auto simp: heap_capacity_def)
  next
    case 7
    then show ?case using lists i by auto
  next
    case 8
    then show ?case using i by auto
  next
    case 9
    then show ?case using i by auto
  qed (use i notA in auto)
qed

text \<open>What a successful append establishes.\<close>

definition appended ::
  "(tid, nat, 'm) hash_map \<Rightarrow> nat \<Rightarrow> nat \<Rightarrow> 'm HeapArray \<Rightarrow> memory \<Rightarrow> addr set \<Rightarrow> u32 \<Rightarrow> 'm HeapArray \<Rightarrow> memory \<Rightarrow> bool"
  where
  "appended ops N item H m live idx H' m' \<longleftrightarrow>
     (let p = index_to_ptr H' idx
      in start (heap H') = start (heap H) \<and> cap (heap H') = cap (heap H)
         \<and> p \<notin> live \<and> unat idx < heap_capacity N H \<and> m' p = item
         \<and> (\<forall>a\<in>live. m' a = m a) \<and> heap_inv ops N H' m' (insert p live))"

lemma append_loop_give:
  assumes inv: "owned_inv ops N H m live own A" and N: "0 < N" "0 < start (heap H)" "heap_capacity N H < 2 ^ 32"
    and get: "hm_get ops (tls_mapping H) t = Some r"
    and cells: "free_cells m (objs H r) F G" "\<forall>c\<in>set (F @ G). own c = Thread r" "F @ G \<noteq> []"
  shows "\<exists>idx H' m'. append_loop N r item H m = Some (Done (idx, H', m'))
    \<and> appended ops N item H m live idx H' m'"
  using cells(1)
proof (cases rule: tls_alloc_cases)
  case none
  then show ?thesis using cells(3) by simp
next
  case (some p ta F' G')
  let ?H = "H\<lparr> objs := (objs H)(r := ta) \<rparr>"
  have p: "own p = Thread r" and rest: "\<forall>c\<in>set (F' @ G'). own c = Thread r"
    using some(1,3) cells(2) by auto
  have "p \<in> live \<longleftrightarrow> own p = Live"
    "own p \<noteq> Nobody \<Longrightarrow> p \<in> set (blocks (start (heap H)) OID_SIZE (heap_capacity N H))"
    using inv unfolding owned_inv_def by blast+
  then have "p \<in> set (blocks (start (heap ?H)) OID_SIZE (heap_capacity N ?H))" "p \<notin> live"
    using p by (simp_all add: heap_capacity_def)
  moreover from this have "index_to_ptr ?H (ptr_to_index ?H p) = p"
    "unat (ptr_to_index ?H p) < heap_capacity N H"
    using index_round_trip [of p ?H "heap_capacity N ?H"] N(3) by (simp_all add: heap_capacity_def)
  moreover have "heap_inv ops N ?H (m(p := item)) (insert p live)"
    using owned_inv_give [OF inv N(1) get p some(2) rest some(5)] N
    by (auto simp: heap_inv_def heap_capacity_def)
  moreover have "append_loop N r item H m = Some (Done (ptr_to_index ?H p, ?H, m(p := item)))"
    by (subst append_loop.simps) (simp add: some(4) Let_def)
  ultimately show ?thesis
    by (auto simp: appended_def Let_def)
qed

lemma live_frame:
  assumes "owned_inv ops N H m live own (a # A')" "x \<in> live"
  shows "x \<notin> arena_cells N a"
proof -
  have "own x = Live" "\<forall>c\<in>arena_cells N a. own c = Shared"
    using assms unfolding owned_inv_def by auto
  then show ?thesis by auto
qed

lemma append_loop_refill:
  assumes inv: "owned_inv ops N H m live own A" and N: "0 < N" "0 < start (heap H)" "heap_capacity N H < 2 ^ 32"
    and get: "hm_get ops (tls_mapping H) t = Some r"
    and cells: "free_cells m (objs H r) [] []"
  shows "A = [] \<and> append_loop N r item H m = Some (Fail ArrayAllocatorOutOfMemory)
    \<or> A \<noteq> [] \<and> (\<exists>idx H' m'. append_loop N r item H m = Some (Done (idx, H', m'))
        \<and> appended ops N item H m live idx H' m')"
proof -
  have al: "tls_alloc (objs H r) m = (Inl ArrayAllocatorOutOfMemory, objs H r)"
    using cells by (rule tls_alloc_cases) simp_all
  from inv N(1,2) show ?thesis
  proof (cases rule: new_arena_cases)
    case none
    then show ?thesis
      by (subst append_loop.simps) (simp add: al)
  next
    case (some a A' ar m')
    let ?ta = "tls_update_arena ar (objs H r)"
    let ?H = "H\<lparr> heap := (heap H)\<lparr> list_node := m a \<rparr>, tls_mapping := tls_mapping H,
      objs := (objs H)(r := ?ta), next_obj := next_obj H \<rparr>"
    let ?own = "\<lambda>c. if c \<in> arena_cells N a then Thread r else own c"
    note i = inv [unfolded owned_inv_def]
    have r: "r < next_obj H" and inj: "\<And>t t' v. hm_get ops (tls_mapping H) t = Some v \<Longrightarrow>
        hm_get ops (tls_mapping H) t' = Some v \<Longrightarrow> t = t'"
      using i get by blast+
    have cells': "free_cells m' ?ta (rev (blocks a OID_SIZE N)) []"
      using some(3) cells by (simp add: free_cells_def tls_update_arena_def distinct_blocks)
    have "owned_inv ops N ?H m' live ?own A'"
      using inv some(1) by (intro owned_inv_take_arena [OF _ N(1) some(5,4) cells'] inj r) auto
    then have "\<exists>idx H' m''. append_loop N r item ?H m' = Some (Done (idx, H', m''))
        \<and> appended ops N item ?H m' live idx H' m''"
      using N get cells'
      by (intro append_loop_give) (auto simp: heap_capacity_def arena_cells_def blocks_def)
    moreover have "append_loop N r item H m = append_loop N r item ?H m'"
      by (subst append_loop.simps) (simp add: al some(2))
    moreover have "m' x = m x" if "x \<in> live" for x
      using live_frame [OF inv [unfolded some(1)] that] some(4) by simp
    ultimately show ?thesis
      using some(1) by (auto simp: appended_def heap_capacity_def)
  qed
qed

lemma append_item_cases:
  assumes laws: "hash_map_laws ops" and inv: "heap_inv ops N H m live"
  shows "append_item ops N t item H m = Some (Fail ArrayAllocatorOutOfMemory) \<and> list_node (heap H) = 0
    \<or> (\<exists>idx H' m'. append_item ops N t item H m = Some (Done (idx, H', m'))
        \<and> appended ops N item H m live idx H' m')"
proof -
  obtain own A where own: "owned_inv ops N H m live own A"
    and N: "0 < N" "0 < start (heap H)" "heap_capacity N H < 2 ^ 32"
    using inv by (auto simp: heap_inv_def)
  note i = own [unfolded owned_inv_def]
  have empty: "list_node (heap H) = 0 \<longleftrightarrow> A = []"
    using i linked_empty_iff by blast
  show ?thesis
  proof (cases "hm_get ops (tls_mapping H) t")
    case (Some r)
    obtain F G where FG: "free_cells m (objs H r) F G" "\<forall>c\<in>set (F @ G). own c = Thread r"
      using i Some by blast
    have it: "append_item ops N t item H m = append_loop N r item H m"
      by (simp add: append_item_def get_tls_allocator_def Some)
    show ?thesis
      using append_loop_give [OF own N Some FG, of item] append_loop_refill [OF own N Some, of item] FG(1)
      by (cases "F @ G = []") (auto simp: it empty)
  next
    case None
    from own N(1,2) show ?thesis
    proof (cases rule: new_arena_cases)
      case none
      then show ?thesis
        by (simp add: append_item_def get_tls_allocator_def None empty)
    next
      case (some a A' ar m')
      let ?r = "next_obj H"
      let ?M = "hm_insert ops (tls_mapping H) t ?r"
      let ?H = "H\<lparr> heap := (heap H)\<lparr> list_node := m a \<rparr>, tls_mapping := ?M,
        objs := (objs H)(?r := tls_new ar), next_obj := ?r + 1 \<rparr>"
      have get: "hm_get ops ?M t' = (if t' = t then Some ?r else hm_get ops (tls_mapping H) t')" for t'
        by (rule hash_map_laws.get_insert [OF laws])
      have bound: "v < ?r" if "hm_get ops (tls_mapping H) t' = Some v" for t' v
        using i that by blast
      have inj: "t1 = t2" if "hm_get ops ?M t1 = Some v" "hm_get ops ?M t2 = Some v" for t1 t2 v
        using that i bound by (auto simp: get split: if_splits)
      have maps: "v = ?r \<or> hm_get ops (tls_mapping H) t' = Some v \<and> v \<noteq> ?r"
        if "hm_get ops ?M t' = Some v" for t' v
        using that bound [of t' v] by (auto simp: get split: if_splits)
      have cells: "free_cells m' (tls_new ar) (rev (blocks a OID_SIZE N)) []"
        using some(3) by (simp add: free_cells_def tls_new_def distinct_blocks)
      have "owned_inv ops N ?H m' live (\<lambda>c. if c \<in> arena_cells N a then Thread ?r else own c) A'"
        by (rule owned_inv_take_arena [OF own [unfolded some(1)] N(1) some(5,4) cells maps inj]) simp_all
      then have "\<exists>idx H' m''. append_loop N ?r item ?H m' = Some (Done (idx, H', m''))
          \<and> appended ops N item ?H m' live idx H' m''"
        using N get cells
        by (intro append_loop_give [where t = t]) (auto simp: heap_capacity_def arena_cells_def blocks_def)
      moreover have "append_item ops N t item H m = append_loop N ?r item ?H m'"
        using get [of t] by (simp add: append_item_def get_tls_allocator_def None some(2) Let_def)
      moreover have "m' x = m x" if "x \<in> live" for x
        using live_frame [OF own [unfolded some(1)] that] some(4) by simp
      ultimately show ?thesis
        by (auto simp: appended_def heap_capacity_def)
    qed
  qed
qed

lemma heap_array_new_inv:
  assumes "hash_map_laws ops" "heap_array_new ops N c ptr m = Some (H, m')"
    and "0 < N" "0 < ptr" "c * N < 2 ^ 32"
  shows "heap_inv ops N H m' {}" "heap_capacity N H = c * N" "start (heap H) = ptr"
    "0 < c \<Longrightarrow> list_node (heap H) \<noteq> 0"
proof -
  obtain a where a: "allocator_new (N * OID_SIZE) OID_SIZE c ptr m = Some (a, m')" "heap H = a"
    "tls_mapping H = hm_new ops" "next_obj H = 0"
    using assms(2) by (auto simp: heap_array_new_def)
  note lk = allocator_new_linked [OF a(1) assms(4)]
  let ?own = "\<lambda>x. if \<exists>b\<in>set (blocks ptr (N * OID_SIZE) c). x \<in> arena_cells N b then Shared else Nobody"
  have "owned_inv ops N H m' {} ?own (rev (blocks ptr (N * OID_SIZE) c))"
    using lk(1,2,3) a(2-) hash_map_laws.get_new [OF assms(1)] assms(3)
      distinct_blocks [of "N * OID_SIZE" ptr c]
    unfolding owned_inv_def heap_capacity_def by (auto split: if_splits dest: subsetD [OF arena_cells_in])
  then show "heap_inv ops N H m' {}"
    using assms(3-5) lk(2,3) a(2) unfolding heap_inv_def heap_capacity_def by auto
  show "heap_capacity N H = c * N" "start (heap H) = ptr"
    using lk(2,3) a(2) by (simp_all add: heap_capacity_def)
  show "list_node (heap H) \<noteq> 0" if "0 < c"
    using that linked_empty_iff [OF lk(1)] a(2) by (simp add: blocks_def)
qed

lemma heap_array_new_total: "0 < N \<Longrightarrow> \<exists>H m'. heap_array_new ops N c ptr m = Some (H, m')"
  by (cases "link_blocks ptr (N * OID_SIZE) 0 c 0 m")
    (simp add: heap_array_new_def allocator_new_def OID_SIZE_def LIST_NODE_SIZE_def)

section \<open>Properties\<close>

text \<open>
  C13: appending to the heap array, by any thread in any order. Assuming the laws of the hash map,
  an append always returns; it fails only when the shared list of arenas is empty, and otherwise
  returns an index below the capacity whose element was not live before (no two live elements
  share an index, whichever threads appended them), stores the item there, leaves every live
  element as it was, and keeps the invariant with the new element live.
\<close>

theorem heap_append:
  assumes "hash_map_laws ops" and "heap_inv ops N H m live"
  shows "(append_item ops N t item H m = Some (Fail ArrayAllocatorOutOfMemory) \<and> list_node (heap H) = 0)
    \<or> (\<exists>idx H' m'. append_item ops N t item H m = Some (Done (idx, H', m'))
         \<and> index_to_ptr H' idx \<notin> live \<and> unat idx < heap_capacity N H
         \<and> m' (index_to_ptr H' idx) = item \<and> (\<forall>a\<in>live. m' a = m a)
         \<and> heap_inv ops N H' m' (insert (index_to_ptr H' idx) live))"
  using append_item_cases [OF assms, of t item] by (auto simp: appended_def Let_def)

lemma sample_heap:
  "\<exists>H m'. heap_array_new map_ops 2 2 64 (\<lambda>_. 0) = Some (H, m') \<and> heap_inv map_ops 2 H m' {}
     \<and> list_node (heap H) = 80"
proof -
  have lb: "link_blocks 64 16 0 2 0 (\<lambda>_. 0) = (80, (\<lambda>_. 0)(80 := 64))"
    by (simp add: numeral_2_eq_2 fun_eq_iff)
  obtain H m' where H: "heap_array_new map_ops 2 2 64 (\<lambda>_. 0) = Some (H, m')" "list_node (heap H) = 80"
    by (simp add: heap_array_new_def allocator_new_def OID_SIZE_def LIST_NODE_SIZE_def lb)
  with heap_array_new_inv(1) [OF maps.hash_map_laws_axioms H(1)] show ?thesis
    by auto
qed

theorem heap_append_witness:
  "\<exists>H m idx H' m'. heap_inv map_ops 2 H m {}
     \<and> append_item map_ops 2 5 42 H m = Some (Done (idx, H', m'))
     \<and> unat idx < heap_capacity 2 H \<and> m' (index_to_ptr H' idx) = 42"
proof -
  obtain H m where H: "heap_inv map_ops 2 H m {}" "list_node (heap H) = 80"
    using sample_heap by blast
  with heap_append [OF maps.hash_map_laws_axioms H(1), of 5 42] show ?thesis
    by auto blast
qed

text \<open>
  Returning an element with \<^verbatim>\<open>delete\<close> puts it on the free list of the calling thread, and that
  thread's next append hands out the same index again.
\<close>

theorem delete_then_append:
  assumes "hm_get ops (tls_mapping H) t = Some r" and "0 < start (heap H)"
  shows "\<exists>H' m'. delete_item ops N t idx H m = Done (H', m')
    \<and> (\<exists>H'' m''. append_item ops N t item H' m' = Some (Done (idx, H'', m''))
         \<and> m'' (index_to_ptr H idx) = item
         \<and> (\<forall>a. a \<noteq> index_to_ptr H idx \<longrightarrow> m'' a = m a))"
proof -
  let ?p = "index_to_ptr H idx"
  let ?ta = "(objs H r)\<lparr> free_list := ?p \<rparr>"
  let ?H = "H\<lparr> objs := (objs H)(r := ?ta) \<rparr>" and ?m = "m(?p := free_list (objs H r))"
  have del: "delete_item ops N t idx H m = Done (?H, ?m)"
    by (simp add: delete_item_def get_tls_allocator_def assms(1) tls_dealloc_def free_insert_def Let_def)
  have p: "?p \<noteq> 0"
    using assms(2) by (simp add: index_to_ptr_def)
  then have al: "tls_alloc ?ta ?m = (Inr ?p, ?ta\<lparr> free_list := free_list (objs H r) \<rparr>)"
    by (simp add: tls_alloc_def free_pop_def)
  have "ptr_to_index H ?p = idx"
    by (simp add: ptr_to_index_def index_to_ptr_def)
  then have "append_item ops N t item ?H ?m = Some (Done (idx,
      ?H\<lparr> objs := (objs ?H)(r := ?ta\<lparr> free_list := free_list (objs H r) \<rparr>) \<rparr>, ?m(?p := item)))"
    by (simp add: append_item_def get_tls_allocator_def assms(1) append_loop.simps al Let_def
        ptr_to_index_def)
  with del show ?thesis
    by auto
qed

definition sample_array :: "(tid \<rightharpoonup> nat) HeapArray" where
  "sample_array = \<lparr> heap = \<lparr> cap = 2, start = 64, list_node = 0 \<rparr>, tls_mapping = [5 \<mapsto> 0],
     objs = (\<lambda>_. tls_new \<lparr> cap = 0, start = 0, list_node = 0 \<rparr>), next_obj = 1 \<rparr>"

theorem delete_then_append_witness:
  "\<exists>H' m' H'' m''. delete_item map_ops 2 5 3 sample_array (\<lambda>_. 0) = Done (H', m')
     \<and> append_item map_ops 2 5 42 H' m' = Some (Done (3, H'', m'')) \<and> m'' 88 = 42"
proof -
  have "hm_get map_ops (tls_mapping sample_array) 5 = Some 0" "0 < start (heap sample_array)"
    "index_to_ptr sample_array 3 = 88"
    by (simp_all add: sample_array_def map_ops_def index_to_ptr_def OID_SIZE_def)
  then show ?thesis
    using delete_then_append [of map_ops sample_array 5 0 2 3 "\<lambda>_. 0" 42] by auto
qed

end
