(* ===== verification/Oid_Array.thy ===== *)
theory Oid_Array
  imports Heap_Array
begin

text \<open>
  \<^verbatim>\<open>src/storage/oid_array.rs\<close>: the array of object ids, one locked word per row, allocated from a heap
  array with 64 elements per arena. A row id is the index of its word.
\<close>

section \<open>Definitions\<close>

definition OID_ARENA :: nat where "OID_ARENA = 64"

definition ARENA_SIZE :: usize where "ARENA_SIZE = 64 * 8"

record 'm OidArray =
  oheap :: "'m HeapArray"
  omem :: memory

text \<open>
  \<^verbatim>\<open>new\<close>: room for \<open>c\<close> words and 128 arenas more, rounded up to whole arenas. \<open>ptr\<close> is where the
  allocator put the zeroed block of that size.
\<close>

definition oid_array_size :: "nat \<Rightarrow> usize" where
  "oid_array_size c =
     (let size1 = of_nat c * 8; size2 = size1 + ARENA_SIZE * 128 in align_up size2 ARENA_SIZE)"

definition zero_block :: "addr \<Rightarrow> nat \<Rightarrow> memory \<Rightarrow> memory" where
  "zero_block ptr n m = (\<lambda>a. if ptr \<le> a \<and> a < ptr + n then 0 else m a)"

definition oid_array_new ::
  "(tid, nat, 'm) hash_map \<Rightarrow> nat \<Rightarrow> addr \<Rightarrow> memory \<Rightarrow> 'm OidArray option" where
  "oid_array_new ops c ptr m =
     (let sz = oid_array_size c
      in map_option (\<lambda>(H, m'). \<lparr> oheap = H, omem = m' \<rparr>)
           (heap_array_new ops OID_ARENA (unat (sz div ARENA_SIZE)) ptr (zero_block ptr (unat sz) m)))"

definition oid_capacity :: "'m OidArray \<Rightarrow> nat" where
  "oid_capacity O' = heap_capacity OID_ARENA (oheap O')"

definition oid_array_reset :: "(tid, nat, 'm) hash_map \<Rightarrow> 'm OidArray \<Rightarrow> 'm OidArray option" where
  "oid_array_reset ops O' =
     (let ptr = start (heap (oheap O')); sz = oid_capacity O' * OID_SIZE
      in map_option (\<lambda>(H, m'). \<lparr> oheap = H, omem = m' \<rparr>)
           (heap_array_new ops OID_ARENA (sz div unat ARENA_SIZE) ptr (zero_block ptr sz (omem O'))))"

text \<open>\<^verbatim>\<open>get_sync\<close> leads to the word of a row; the word is read and replaced through it.\<close>

definition get_sync :: "'m OidArray \<Rightarrow> Rid \<Rightarrow> LockedOid" where
  "get_sync O' rid = of_nat (omem O' (index_to_ptr (oheap O') (as_u32 rid)))"

definition set_sync :: "'m OidArray \<Rightarrow> Rid \<Rightarrow> LockedOid \<Rightarrow> 'm OidArray" where
  "set_sync O' rid w = O'\<lparr> omem := (omem O')(index_to_ptr (oheap O') (as_u32 rid) := unat w) \<rparr>"

text \<open>
  \<^verbatim>\<open>alloc_rid\<close>: append an unlocked word, lock it, store its own row id. The result is the row id
  with its write guard held; \<^verbatim>\<open>expect\<close> panics when the array is full. The lock loop runs on a word
  nobody else knows yet.
\<close>

definition alloc_rid ::
  "(tid, nat, 'm) hash_map \<Rightarrow> tid \<Rightarrow> 'm OidArray \<Rightarrow> (Rid \<times> 'm OidArray) outcome option" where
  "alloc_rid ops t O' =
     (case append_item ops OID_ARENA t (unat (from_rid (from_u32 0))) (oheap O') (omem O') of
        None \<Rightarrow> None
      | Some (Done (idx, H, m)) \<Rightarrow>
          (let rid = from_u32 idx; O1 = \<lparr> oheap = H, omem = m \<rparr>
           in case oid_write (\<lambda>_. get_sync O1 rid) (\<lambda>_. False) of
                None \<Rightarrow> None
              | Some (_, w) \<Rightarrow> Some (Done (rid, set_sync O1 rid (store_rid rid w))))
      | Some _ \<Rightarrow> Some Panic)"

section \<open>The invariant\<close>

definition rid_ptr :: "'m OidArray \<Rightarrow> Rid \<Rightarrow> addr" where
  "rid_ptr O' r = index_to_ptr (oheap O') (as_u32 r)"

definition oid_inv :: "(tid, nat, 'm) hash_map \<Rightarrow> 'm OidArray \<Rightarrow> Rid set \<Rightarrow> bool" where
  "oid_inv ops O' R \<longleftrightarrow> heap_inv ops OID_ARENA (oheap O') (omem O') (rid_ptr O' ` R)
     \<and> (\<forall>r\<in>R. unat (as_u32 r) < oid_capacity O')"

lemma rid_ptr_inj: "rid_ptr O' r = rid_ptr O' r' \<longleftrightarrow> r = r'"
  by (cases r; cases r') (simp add: rid_ptr_def index_to_ptr_def word_unat_eq_iff)

lemma get_set_sync [simp]:
  "get_sync (set_sync O' r w) r' = (if r' = r then w else get_sync O' r')"
proof -
  have "index_to_ptr (oheap O') (as_u32 r') = index_to_ptr (oheap O') (as_u32 r) \<longleftrightarrow> r' = r"
    using rid_ptr_inj [of O' r' r] by (simp only: rid_ptr_def)
  then show ?thesis
    by (auto simp: get_sync_def set_sync_def)
qed

lemma rid_ptr_set_sync [simp]: "rid_ptr (set_sync O' r w) = rid_ptr O'"
  by (simp add: fun_eq_iff rid_ptr_def set_sync_def)

text \<open>A live element belongs to no list, so writing it keeps the invariant of the heap array.\<close>

lemma owned_inv_write_live:
  assumes "owned_inv ops N H m live own A" "0 < N" "p \<in> live"
  shows "owned_inv ops N H (m(p := v)) live own A"
proof -
  note i = assms(1) [unfolded owned_inv_def]
  have p: "own p = Live"
    using i assms(3) by blast
  then have A: "p \<notin> set A"
    using i arena_self [OF assms(2)] by (metis owner.distinct(9))
  have lists: "\<exists>F G. free_cells (m(p := v)) (objs H r) F G \<and> (\<forall>c\<in>set (F @ G). own c = Thread r)"
    if "hm_get ops (tls_mapping H) t = Some r" for t r
  proof -
    obtain F G where FG: "free_cells m (objs H r) F G" "\<forall>c\<in>set (F @ G). own c = Thread r"
      using i \<open>hm_get ops (tls_mapping H) t = Some r\<close> by blast
    then have "p \<notin> set F" "p \<notin> set G"
      using p by fastforce+
    then show ?thesis
      using FG free_cells_frame by blast
  qed
  have bound: "r < next_obj H" if "hm_get ops (tls_mapping H) t = Some r" for t r
    using i that by blast
  show ?thesis
    unfolding owned_inv_def
  proof (intro conjI, goal_cases)
    case 7
    then show ?case by (intro allI impI conjI) (erule bound, erule lists)
  qed (use i A in \<open>(simp; fail)+\<close>)
qed

lemma heap_inv_write_live:
  "heap_inv ops N H m live \<Longrightarrow> p \<in> live \<Longrightarrow> heap_inv ops N H (m(p := v)) live"
  by (auto simp: heap_inv_def intro: owned_inv_write_live)

lemma oid_inv_set [simp]:
  assumes "oid_inv ops O' R" "r \<in> R"
  shows "oid_inv ops (set_sync O' r w) R"
  using assms heap_inv_write_live [of ops OID_ARENA "oheap O'" "omem O'" "rid_ptr O' ` R" "rid_ptr O' r" "unat w"]
  by (simp add: oid_inv_def) (simp add: set_sync_def oid_capacity_def rid_ptr_def)

lemma oid_inv_rid:
  assumes "oid_inv ops O' R" "r \<in> R"
  shows "as_u32 r \<noteq> 0xffffffff" "unat (as_u32 r) < oid_capacity O'"
proof -
  show lt: "unat (as_u32 r) < oid_capacity O'"
    using assms by (simp add: oid_inv_def)
  have "oid_capacity O' < 2 ^ 32"
    using assms(1) by (simp add: oid_inv_def heap_inv_def oid_capacity_def)
  with lt have "unat (as_u32 r) < 2 ^ 32 - 1"
    by linarith
  then show "as_u32 r \<noteq> 0xffffffff"
    by auto
qed

lemma oid_write_quiet:
  assumes "lock_byte w = 0"
  shows "oid_write (\<lambda>_. w) (\<lambda>_. False) = Some (1, w OR LOCK_WRITER)"
  unfolding oid_write_def using assms by (subst write_loop.simps) (simp add: write_iter_eq)

text \<open>A fresh row: the word of \<open>r\<close> is write-locked and refers to \<open>r\<close> itself.\<close>

definition fresh_word :: "Rid \<Rightarrow> LockedOid \<Rightarrow> bool" where
  "fresh_word r w \<longleftrightarrow> lock_byte w = 128 \<and> oid_ref_of w = Row r \<and> oid_wf w"

lemma alloc_rid_cases:
  assumes laws: "hash_map_laws ops" and inv: "oid_inv ops O' R"
  shows "alloc_rid ops t O' = Some Panic \<and> list_node (heap (oheap O')) = 0
    \<or> (\<exists>r O''. alloc_rid ops t O' = Some (Done (r, O'')) \<and> r \<notin> R \<and> oid_inv ops O'' (insert r R)
        \<and> oid_capacity O'' = oid_capacity O' \<and> fresh_word r (get_sync O'' r)
        \<and> (\<forall>r'\<in>R. get_sync O'' r' = get_sync O' r'))"
proof -
  let ?item = "unat (from_rid (from_u32 0))"
  have hinv: "heap_inv ops OID_ARENA (oheap O') (omem O') (rid_ptr O' ` R)"
    using inv by (simp add: oid_inv_def)
  consider (full) "append_item ops OID_ARENA t ?item (oheap O') (omem O') = Some (Fail ArrayAllocatorOutOfMemory)"
      "list_node (heap (oheap O')) = 0"
    | (room) idx H m where
      "append_item ops OID_ARENA t ?item (oheap O') (omem O') = Some (Done (idx, H, m))"
      "appended ops OID_ARENA ?item (oheap O') (omem O') (rid_ptr O' ` R) idx H m"
    using append_item_cases [OF laws hinv, of t ?item] by (elim disjE exE conjE) simp_all
  then show ?thesis
  proof cases
    case full
    then show ?thesis by (simp add: alloc_rid_def)
  next
    case room
    let ?r = "from_u32 idx" and ?O = "\<lparr> oheap = H, omem = m \<rparr>"
    have ptr: "rid_ptr ?O = rid_ptr O'"
      using room(2) by (simp add: fun_eq_iff rid_ptr_def index_to_ptr_def appended_def Let_def)
    have p: "index_to_ptr H idx = rid_ptr O' ?r"
      using fun_cong [OF ptr, of ?r] by (simp add: rid_ptr_def from_u32_def)
    have ap: "rid_ptr O' ?r \<notin> rid_ptr O' ` R" "unat idx < oid_capacity O'" "m (rid_ptr O' ?r) = ?item"
      "\<forall>a\<in>rid_ptr O' ` R. m a = omem O' a" "heap_inv ops OID_ARENA H m (rid_ptr O' ` insert ?r R)"
      "oid_capacity ?O = oid_capacity O'"
      using room(2) by (simp_all add: appended_def Let_def p oid_capacity_def heap_capacity_def)
    have w0: "get_sync ?O ?r = from_rid (from_u32 0)"
      using ap(3) p by (simp add: get_sync_def from_u32_def)
    let ?w = "store_rid ?r (from_rid (from_u32 0) OR LOCK_WRITER)"
    have "oid_inv ops ?O (insert ?r R)"
      using ap(2,5,6) inv by (simp add: oid_inv_def ptr) (simp add: from_u32_def)
    then have "oid_inv ops (set_sync ?O ?r ?w) (insert ?r R)"
      by simp
    moreover have "alloc_rid ops t O' = Some (Done (?r, set_sync ?O ?r ?w))"
      by (simp add: alloc_rid_def room(1) Let_def w0 oid_write_quiet oid_simps)
    moreover have "fresh_word ?r ?w"
      by (simp add: fresh_word_def oid_simps)
    moreover have "get_sync ?O r' = get_sync O' r'" if "r' \<in> R" for r'
      using ap(4) that fun_cong [OF ptr, of r'] by (simp add: get_sync_def rid_ptr_def)
    moreover have "?r \<notin> R"
      using ap(1) by blast
    moreover have "oid_capacity (set_sync ?O ?r ?w) = oid_capacity O'"
      using ap(6) by (simp add: set_sync_def oid_capacity_def)
    ultimately show ?thesis
      by (intro disjI2 exI [of _ ?r] exI [of _ "set_sync ?O ?r ?w"]) auto
  qed
qed


lemma oid_array_new_inv:
  assumes laws: "hash_map_laws ops" and new: "oid_array_new ops c ptr m = Some O'"
    and "0 < ptr" and c: "c + 8256 < 2 ^ 32"
  shows "oid_inv ops O' {}" "c \<le> oid_capacity O'" "list_node (heap (oheap O')) \<noteq> 0"
proof -
  have u: "unat (of_nat c * 8 + ARENA_SIZE * 128 :: usize) = c * 8 + 65536"
  proof -
    have "(of_nat c * 8 + ARENA_SIZE * 128 :: usize) = of_nat (c * 8 + 65536)"
      by (simp add: ARENA_SIZE_def)
    moreover have "c * 8 + 65536 < 2 ^ 64"
      using c by simp
    ultimately show ?thesis
      by (simp only: unat_of_nat_usize)
  qed
  have a: "ARENA_SIZE = 2 ^ 9"
    by (simp add: ARENA_SIZE_def)
  have up: "unat (oid_array_size c) = (c * 8 + 65536 + (2 ^ 9 - 1)) div 2 ^ 9 * 2 ^ 9"
    using align_up_value [of 9 "of_nat c * 8 + ARENA_SIZE * 128"] c u
    by (simp add: oid_array_size_def Let_def a)
  let ?n = "unat (oid_array_size c div ARENA_SIZE)"
  have n: "?n = (c * 8 + 66047) div 512"
    by (simp add: unat_div up a)
  have "?n * 512 + (c * 8 + 66047) mod 512 = c * 8 + 66047" "(c * 8 + 66047) mod 512 < (512 :: nat)"
    unfolding n by (rule div_mult_mod_eq) simp
  then have "c \<le> ?n * 64" "?n * 64 < 2 ^ 32"
    using c by linarith+
  obtain H m' where H: "heap_array_new ops OID_ARENA ?n ptr (zero_block ptr (unat (oid_array_size c)) m) = Some (H, m')"
    "O' = \<lparr> oheap = H, omem = m' \<rparr>"
    using new by (auto simp: oid_array_new_def Let_def)
  note hi = heap_array_new_inv [OF laws H(1)]
  have "0 < ?n"
    unfolding n by simp
  then show "oid_inv ops O' {}" "c \<le> oid_capacity O'" "list_node (heap (oheap O')) \<noteq> 0"
    using hi \<open>0 < ptr\<close> \<open>c \<le> ?n * 64\<close> \<open>?n * 64 < 2 ^ 32\<close>
    by (simp_all add: oid_inv_def H(2) oid_capacity_def OID_ARENA_def)
qed


lemma oid_array_new_total: "\<exists>O'. oid_array_new ops c ptr m = Some O'"
  using heap_array_new_total [of OID_ARENA ops "unat (oid_array_size c div ARENA_SIZE)" ptr
      "zero_block ptr (unat (oid_array_size c)) m"]
  by (auto simp: oid_array_new_def Let_def OID_ARENA_def)

text \<open>\<^verbatim>\<open>reset\<close> starts over with all words free and the same capacity.\<close>

lemma oid_array_reset_inv:
  assumes laws: "hash_map_laws ops" and inv: "oid_inv ops O' R" and reset: "oid_array_reset ops O' = Some O1"
  shows "oid_inv ops O1 {}" "oid_capacity O1 = oid_capacity O'"
proof -
  let ?ptr = "start (heap (oheap O'))" and ?n = "cap (heap (oheap O'))"
  have h: "0 < ?ptr" "?n * OID_ARENA < 2 ^ 32"
    using inv by (simp_all add: oid_inv_def heap_inv_def heap_capacity_def)
  have n: "oid_capacity O' * OID_SIZE div unat ARENA_SIZE = ?n"
    by (simp add: oid_capacity_def heap_capacity_def OID_ARENA_def OID_SIZE_def ARENA_SIZE_def)
  obtain H m' where H: "heap_array_new ops OID_ARENA ?n ?ptr (zero_block ?ptr (oid_capacity O' * OID_SIZE) (omem O')) = Some (H, m')"
    "O1 = \<lparr> oheap = H, omem = m' \<rparr>"
    using reset by (auto simp: oid_array_reset_def Let_def n)
  note hi = heap_array_new_inv [OF laws H(1)]
  show "oid_inv ops O1 {}" "oid_capacity O1 = oid_capacity O'"
    using hi h by (simp_all add: oid_inv_def H(2) oid_capacity_def OID_ARENA_def) (simp add: heap_capacity_def)
qed

lemma oid_array_reset_total: "\<exists>O1. oid_array_reset ops O' = Some O1"
  using heap_array_new_total [of OID_ARENA ops "oid_capacity O' * OID_SIZE div unat ARENA_SIZE" "start (heap (oheap O'))"
      "zero_block (start (heap (oheap O'))) (oid_capacity O' * OID_SIZE) (omem O')"]
  by (auto simp: oid_array_reset_def Let_def OID_ARENA_def)

text \<open>Rows allocated one after the other, each by some thread.\<close>

fun alloc_rids ::
  "(tid, nat, 'm) hash_map \<Rightarrow> tid list \<Rightarrow> 'm OidArray \<Rightarrow> (Rid list \<times> 'm OidArray) outcome option" where
  "alloc_rids ops [] O' = Some (Done ([], O'))"
| "alloc_rids ops (t # ts) O' =
     (case alloc_rid ops t O' of
        Some (Done (r, O1)) \<Rightarrow>
          (case alloc_rids ops ts O1 of
             Some (Done (rs, O2)) \<Rightarrow> Some (Done (r # rs, O2))
           | x \<Rightarrow> x)
      | Some _ \<Rightarrow> Some Panic
      | None \<Rightarrow> None)"

lemma alloc_rids_spec:
  assumes "hash_map_laws ops" "oid_inv ops O' R"
  shows "alloc_rids ops ts O' = Some Panic
    \<or> (\<exists>rs O''. alloc_rids ops ts O' = Some (Done (rs, O'')) \<and> length rs = length ts \<and> distinct rs
        \<and> set rs \<inter> R = {} \<and> oid_inv ops O'' (set rs \<union> R) \<and> oid_capacity O'' = oid_capacity O'
        \<and> (\<forall>r\<in>set rs. fresh_word r (get_sync O'' r)) \<and> (\<forall>r\<in>R. get_sync O'' r = get_sync O' r))"
  using assms(2)
proof (induction ts arbitrary: O' R)
  case (Cons t ts)
  from alloc_rid_cases [OF assms(1) Cons.prems, of t] show ?case
  proof (elim disjE exE conjE)
    fix r O1
    assume r: "alloc_rid ops t O' = Some (Done (r, O1))" "r \<notin> R" "oid_inv ops O1 (insert r R)"
      "oid_capacity O1 = oid_capacity O'" "fresh_word r (get_sync O1 r)"
      "\<forall>r'\<in>R. get_sync O1 r' = get_sync O' r'"
    from Cons.IH [OF r(3)] show ?thesis
    proof (elim disjE exE conjE)
      fix rs O2
      assume rs: "alloc_rids ops ts O1 = Some (Done (rs, O2))" "length rs = length ts" "distinct rs"
        "set rs \<inter> insert r R = {}" "oid_inv ops O2 (set rs \<union> insert r R)"
        "oid_capacity O2 = oid_capacity O1" "\<forall>r\<in>set rs. fresh_word r (get_sync O2 r)"
        "\<forall>r'\<in>insert r R. get_sync O2 r' = get_sync O1 r'"
      then show ?thesis
        using r by (intro disjI2 exI [of _ "r # rs"] exI [of _ O2]) auto
    qed (simp add: r)
  qed simp
qed simp

section \<open>Properties\<close>

text \<open>
  C14: row ids are unique. Starting from a new array, whatever threads allocate rows in whatever
  order, each allocation returns or panics (it never hangs); the row ids returned are pairwise
  different and below the capacity, which is at least the requested one, and each row's word is
  write-locked for its creator and refers to the row itself.
\<close>

theorem alloc_rid_unique:
  assumes "hash_map_laws ops" and "oid_array_new ops c ptr m = Some O'" and "0 < ptr"
    and "c + 8256 < 2 ^ 32"
  shows "alloc_rids ops ts O' = Some Panic
    \<or> (\<exists>rs O''. alloc_rids ops ts O' = Some (Done (rs, O'')) \<and> length rs = length ts \<and> distinct rs
        \<and> (\<forall>r\<in>set rs. unat (as_u32 r) < oid_capacity O'' \<and> write_locked (get_sync O'' r)
             \<and> oid_ref_of (get_sync O'' r) = Row r)
        \<and> c \<le> oid_capacity O'')"
proof -
  note new = oid_array_new_inv [OF assms]
  from alloc_rids_spec [OF assms(1) new(1), of ts] show ?thesis
  proof (elim disjE exE conjE)
    fix rs O''
    assume rs: "alloc_rids ops ts O' = Some (Done (rs, O''))" "length rs = length ts" "distinct rs"
      "oid_inv ops O'' (set rs \<union> {})" "oid_capacity O'' = oid_capacity O'"
      "\<forall>r\<in>set rs. fresh_word r (get_sync O'' r)"
    then show ?thesis
      using new(2) oid_inv_rid(2) [OF rs(4)]
      by (intro disjI2 exI [of _ rs] exI [of _ O''])
        (auto simp: fresh_word_def write_locked_def oid_simps)
  qed simp
qed

theorem alloc_rid_unique_witness:
  "\<exists>(O' :: (tid \<rightharpoonup> nat) OidArray) r O''. oid_array_new map_ops 10 4096 (\<lambda>_. 0) = Some O'
     \<and> alloc_rids map_ops [1] O' = Some (Done ([r], O'')) \<and> write_locked (get_sync O'' r)
     \<and> 10 \<le> oid_capacity O''"
proof -
  note laws = maps.hash_map_laws_axioms
  obtain O' :: "(tid \<rightharpoonup> nat) OidArray" where O': "oid_array_new map_ops 10 4096 (\<lambda>_. 0) = Some O'"
    using oid_array_new_total by blast
  note new = oid_array_new_inv [OF laws O']
  have "alloc_rids map_ops [1] O' \<noteq> Some Panic"
    using alloc_rid_cases [OF laws new(1), of 1] new(3) by auto
  with alloc_rid_unique [OF laws O', of "[1]"] O' show ?thesis
    by (auto simp: length_Suc_conv)
qed

end
