(* ===== verification/Node_Meta.thy ===== *)
theory Node_Meta
  imports Prelude
begin

text \<open>
  \<^verbatim>\<open>src/attribute_cache/clock_cache/node_meta.rs\<close>: the 32-bit metadata word of a cache slot. The top
  byte counts hotness, bit 20 is the dirty bit, bit 16 the reference bit of the clock algorithm.
\<close>

section \<open>Definitions\<close>

type_synonym NodeMeta = u32

definition HOTNESS_MASK :: u32 where "HOTNESS_MASK = 0xff000000"
definition HOTNESS_SHIFT :: nat where "HOTNESS_SHIFT = 24"
definition DIRTY_MASK :: u32 where "DIRTY_MASK = 0x00100000"
definition REF_MASK :: u32 where "REF_MASK = 0x00010000"

definition new_meta :: NodeMeta where
  "new_meta = 0"

definition hotness :: "NodeMeta \<Rightarrow> usize" where
  "hotness m = ucast (drop_bit HOTNESS_SHIFT m)"

definition is_dirty :: "NodeMeta \<Rightarrow> bool" where
  "is_dirty m \<longleftrightarrow> m AND DIRTY_MASK > 0"

definition set_dirty :: "NodeMeta \<Rightarrow> NodeMeta" where
  "set_dirty m = snd (fetch_or m DIRTY_MASK)"

definition set_ref :: "NodeMeta \<Rightarrow> NodeMeta" where
  "set_ref m = snd (fetch_or m REF_MASK)"

definition clear_ref :: "NodeMeta \<Rightarrow> NodeMeta" where
  "clear_ref m = snd (fetch_and m (NOT REF_MASK))"

text \<open>
  \<^verbatim>\<open>clear_if_set\<close> loads and later stores; \<open>data\<close> is what it loaded, \<open>cur\<close> what the word holds by
  then.
\<close>

definition clear_if_set :: "NodeMeta \<Rightarrow> NodeMeta \<Rightarrow> bool \<times> NodeMeta" where
  "clear_if_set data cur =
     (if data AND REF_MASK > 0 then (True, data AND NOT REF_MASK) else (False, cur))"

definition is_refed :: "NodeMeta \<Rightarrow> bool" where
  "is_refed m \<longleftrightarrow> m AND REF_MASK > 0"

definition inc_hotness :: "u32 \<Rightarrow> NodeMeta \<Rightarrow> u32 \<times> NodeMeta" where
  "inc_hotness amount m =
     (let (old, m') = fetch_add m (push_bit HOTNESS_SHIFT amount)
      in (drop_bit HOTNESS_SHIFT old, m'))"

text \<open>The result of the compare-and-swap is dropped, as in the source.\<close>

definition try_dec_hotness :: "bool \<Rightarrow> u32 \<Rightarrow> NodeMeta \<Rightarrow> NodeMeta \<Rightarrow> bool \<times> NodeMeta" where
  "try_dec_hotness spurious amount old cur =
     (let amount_shifted = push_bit HOTNESS_SHIFT amount
      in if old \<ge> amount_shifted then
           let h = old - amount_shifted;
               new = (old AND NOT HOTNESS_MASK) OR h
           in (True, snd (compare_exchange_weak spurious cur old new))
         else (False, cur))"

section \<open>The fields of the word\<close>

text \<open>The flag bits are bits of the low 24; hotness is the rest.\<close>

definition flags :: "NodeMeta \<Rightarrow> nat" where
  "flags m = unat m mod 2 ^ 24"

named_theorems meta_simps \<open>hotness and flags of the metadata word after each operation\<close>

lemma DIRTY_MASK_exp: "DIRTY_MASK = 2 ^ 20"
  by (simp add: DIRTY_MASK_def)

lemma REF_MASK_exp: "REF_MASK = 2 ^ 16"
  by (simp add: REF_MASK_def)

lemma bit_flag_masks: "bit DIRTY_MASK n \<longleftrightarrow> n = 20" "bit REF_MASK n \<longleftrightarrow> n = 16"
  unfolding DIRTY_MASK_exp REF_MASK_exp by (auto simp only: bit_exp_iff possible_bit_word) simp_all

lemma bit_HOTNESS_MASK: "bit HOTNESS_MASK n \<longleftrightarrow> 24 \<le> n \<and> n < 32"
proof -
  have "HOTNESS_MASK = push_bit 24 (mask 8)"
    by (simp add: HOTNESS_MASK_def mask_eq_exp_minus_1 push_bit_eq_mult)
  then have "bit HOTNESS_MASK n = bit (push_bit 24 (mask 8) :: u32) n"
    by (rule arg_cong)
  then show ?thesis
    by (auto simp: bit_simps)
qed

lemma flag_bits:
  "is_dirty m \<longleftrightarrow> bit m 20" "is_refed m \<longleftrightarrow> bit m 16"
  by (simp_all only: is_dirty_def is_refed_def DIRTY_MASK_exp REF_MASK_exp word_gt_0
      word_and_exp_eq_0_iff not_not eq_commute [of 0])

lemma unat_hotness: "unat (hotness m) = unat m div 2 ^ 24"
proof -
  have "unat m div 2 ^ 24 < 2 ^ 8"
    using unsigned_less [of m, where ?'a = nat] by (simp add: less_mult_imp_div_less)
  then show ?thesis
    by (simp add: hotness_def HOTNESS_SHIFT_def unsigned_ucast_eq take_bit_eq_mod unat_drop_bit_div)
qed

lemma flags_eq_bits: "flags v = flags w \<longleftrightarrow> (\<forall>n<24. bit v n = bit w n)"
proof -
  have "flags v = flags w \<longleftrightarrow> take_bit 24 v = take_bit 24 w"
    by (simp only: flags_def word_unat_eq_iff unat_take_bit_mod)
  also have "\<dots> \<longleftrightarrow> (\<forall>n<24. bit v n = bit w n)"
    unfolding word_bits_eq_iff by (auto simp: bit_take_bit_iff)
  finally show ?thesis .
qed

lemma hotness_eq_bits: "hotness v = hotness w \<longleftrightarrow> (\<forall>n\<ge>24. bit v n = bit w n)"
proof -
  have "hotness v = hotness w \<longleftrightarrow> drop_bit 24 v = drop_bit 24 w"
    by (simp only: word_unat_eq_iff unat_hotness unat_drop_bit_div)
  also have "\<dots> \<longleftrightarrow> (\<forall>n\<ge>24. bit v n = bit w n)"
    unfolding word_bits_eq_iff by (auto simp: bit_drop_bit_eq le_iff_add)
  finally show ?thesis .
qed

lemma unat_push_hotness: "unat (push_bit HOTNESS_SHIFT (a :: u32)) = (unat a mod 256) * 2 ^ 24"
proof -
  have "unat (push_bit 24 a) = take_bit 32 (push_bit 24 (unat a))"
    by (simp only: unsigned_push_bit_eq) simp
  also have "\<dots> = (unat a * 2 ^ 24) mod (2 ^ 8 * 2 ^ 24)"
    by (simp add: push_bit_eq_mult take_bit_eq_mod)
  also have "\<dots> = (unat a mod 2 ^ 8) * 2 ^ 24"
    by (simp only: mod_mult_mult2)
  finally show ?thesis
    by (simp add: HOTNESS_SHIFT_def)
qed

lemma set_bits_keep [meta_simps]:
  "hotness (set_dirty m) = hotness m" "hotness (set_ref m) = hotness m"
  "hotness (clear_ref m) = hotness m"
  "is_dirty (set_dirty m)" "is_refed (set_dirty m) = is_refed m"
  "is_refed (set_ref m)" "is_dirty (set_ref m) = is_dirty m"
  "\<not> is_refed (clear_ref m)" "is_dirty (clear_ref m) = is_dirty m"
  by (auto simp: set_dirty_def set_ref_def clear_ref_def atomic_simps flag_bits hotness_eq_bits
      bit_flag_masks bit_or_iff bit_and_iff bit_not_iff dest: bit_u32_less)

lemma inc_hotness_unat:
  "unat (snd (inc_hotness a m)) = (unat m + unat a mod 256 * 2 ^ 24) mod 2 ^ 32"
  by (simp add: inc_hotness_def atomic_simps unat_word_ariths unat_push_hotness)

lemma inc_hotness_simps [meta_simps]:
  "unat (fst (inc_hotness a m)) = unat (hotness m)"
  "unat (hotness (snd (inc_hotness a m))) = (unat (hotness m) + unat a) mod 256"
  "flags (snd (inc_hotness a m)) = flags m"
proof -
  show "unat (fst (inc_hotness a m)) = unat (hotness m)"
    by (simp add: inc_hotness_def atomic_simps unat_hotness HOTNESS_SHIFT_def unat_drop_bit_div)
  show "unat (hotness (snd (inc_hotness a m))) = (unat (hotness m) + unat a) mod 256"
    using div_mod_shift [of "unat m" "unat a mod 256" 24 8]
    by (simp add: unat_hotness inc_hotness_unat mod_add_right_eq)
  show "flags (snd (inc_hotness a m)) = flags m"
    unfolding flags_def inc_hotness_unat by (simp add: mod_mod_cancel)
qed

text \<open>The guard of \<^verbatim>\<open>try_dec_hotness\<close> compares whole words; on the top byte it is the same test.\<close>

lemma dec_guard:
  "push_bit HOTNESS_SHIFT a \<le> m \<longleftrightarrow> unat a mod 256 \<le> unat (hotness m)"
  for a m :: u32
  by (simp add: word_le_nat_alt unat_push_hotness unat_hotness less_eq_div_iff_mult_less_eq)

lemma dec_value:
  fixes a m :: u32
  assumes "push_bit HOTNESS_SHIFT a \<le> m"
  defines "h \<equiv> m - push_bit HOTNESS_SHIFT a"
  shows "(m AND NOT HOTNESS_MASK) OR h = h"
    and "unat (hotness h) = unat (hotness m) - unat a mod 256" and "flags h = flags m"
proof -
  have u: "unat m = unat h + unat a mod 256 * 2 ^ 24"
    using assms by (simp add: h_def unat_sub unat_push_hotness word_le_nat_alt)
  show "unat (hotness h) = unat (hotness m) - unat a mod 256"
    unfolding unat_hotness u by simp
  show f: "flags h = flags m"
    unfolding flags_def u by simp
  show "(m AND NOT HOTNESS_MASK) OR h = h"
    using f by (intro bit_word_eqI) (auto simp: bit_simps bit_HOTNESS_MASK flags_eq_bits)
qed

lemma flags_determine: "flags v = flags w \<Longrightarrow> is_dirty v = is_dirty w \<and> is_refed v = is_refed w"
  by (simp add: flags_eq_bits flag_bits)

section \<open>Properties\<close>

text \<open>
  The metadata word keeps its fields apart. Undisturbed, \<^verbatim>\<open>inc_hotness\<close> returns the old hotness
  and adds modulo 256 (the documented overflow), \<^verbatim>\<open>try_dec_hotness\<close> subtracts exactly when the
  hotness suffices and otherwise refuses and changes nothing, and neither touches the dirty and
  reference bits; setting or clearing a flag changes neither the hotness nor the other flag, and
  \<^verbatim>\<open>clear_if_set\<close> reports the old reference bit and leaves it clear.
\<close>

theorem node_meta_fields:
  "unat (fst (inc_hotness a m)) = unat (hotness m)
   \<and> unat (hotness (snd (inc_hotness a m))) = (unat (hotness m) + unat a) mod 256
   \<and> flags (snd (inc_hotness a m)) = flags m
   \<and> fst (try_dec_hotness False a m m) = (unat a mod 256 \<le> unat (hotness m))
   \<and> unat (hotness (snd (try_dec_hotness False a m m))) =
       (if unat a mod 256 \<le> unat (hotness m) then unat (hotness m) - unat a mod 256
        else unat (hotness m))
   \<and> flags (snd (try_dec_hotness False a m m)) = flags m
   \<and> is_dirty (set_dirty m) \<and> hotness (set_dirty m) = hotness m
   \<and> is_refed (set_dirty m) = is_refed m
   \<and> is_refed (set_ref m) \<and> hotness (set_ref m) = hotness m \<and> is_dirty (set_ref m) = is_dirty m
   \<and> fst (clear_if_set m m) = is_refed m \<and> \<not> is_refed (snd (clear_if_set m m))
   \<and> hotness (snd (clear_if_set m m)) = hotness m
   \<and> is_dirty (snd (clear_if_set m m)) = is_dirty m"
proof -
  have dec: "try_dec_hotness False a m m =
      (if unat a mod 256 \<le> unat (hotness m) then (True, m - push_bit HOTNESS_SHIFT a) else (False, m))"
    by (simp add: try_dec_hotness_def Let_def atomic_simps dec_guard [symmetric] dec_value(1))
  have clear: "clear_if_set m m = (is_refed m, clear_ref m)"
    unfolding clear_if_set_def is_refed_def [symmetric]
    by (auto simp: clear_ref_def atomic_simps word_bits_eq_iff flag_bits bit_flag_masks
        bit_and_iff bit_not_iff dest: bit_u32_less)
  show ?thesis
    unfolding dec clear using dec_value(2,3) [of a m] dec_guard [of a m]
    by (simp add: meta_simps)
qed

end
