(* ===== verification/Query.thy ===== *)
theory Query
  imports Prelude
begin

text \<open>
  \<^verbatim>\<open>src/query.rs\<close>: fields as byte ranges of a tuple, the read query (a list of fields), the update
  query (fields and their concatenated new bytes) and its iterator. Tuples, cached items and
  query data are their memory images, lists of bytes.
\<close>

section \<open>Memory images\<close>

type_synonym bytes = "u8 list"

text \<open>
  Raw pointer accesses at a byte offset. An access past the end is undefined behaviour in the
  source: \<^const>\<open>None\<close>.
\<close>

definition load_bytes :: "nat \<Rightarrow> nat \<Rightarrow> bytes \<Rightarrow> bytes option" where
  "load_bytes off n xs = (if off + n \<le> length xs then Some (take n (drop off xs)) else None)"

definition store_bytes :: "nat \<Rightarrow> bytes \<Rightarrow> bytes \<Rightarrow> bytes option" where
  "store_bytes off v xs =
     (if off + length v \<le> length xs then Some (take off xs @ v @ drop (off + length v) xs) else None)"

section \<open>Fields and queries\<close>

datatype Field = Field (field_begin: u16) (field_end: u16)

definition default_field :: Field where
  "default_field = Field 0 0"

text \<open>\<^verbatim>\<open>from_span\<close> casts both ends to 16 bits.\<close>

definition from_span :: "nat \<Rightarrow> nat \<Rightarrow> Field" where
  "from_span first past = Field (of_nat first) (of_nat past)"

text \<open>The subtraction is at 16 bits; a debug build refuses a field that ends before it begins.\<close>

definition field_size :: "Field \<Rightarrow> nat" where
  "field_size f = unat (field_end f - field_begin f)"

definition field_off :: "Field \<Rightarrow> nat" where
  "field_off f = unat (field_begin f)"

type_synonym FieldsMeta = "Field list"

definition from_spans :: "(nat \<times> nat) list \<Rightarrow> FieldsMeta" where
  "from_spans spans = map (\<lambda>(a, b). from_span a b) spans"

definition meta_size :: "FieldsMeta \<Rightarrow> nat" where
  "meta_size fields = fold (\<lambda>b a. a + field_size b) fields 0"

record UpdateQuery =
  query_meta :: FieldsMeta
  query_data :: bytes

record UpdateIter =
  cur_idx :: nat
  ptr_off :: nat

definition query_iter :: UpdateIter where
  "query_iter = \<lparr> cur_idx = 0, ptr_off = 0 \<rparr>"

text \<open>One call of \<^verbatim>\<open>next\<close>: the field and the offset of its bytes in the query's data.\<close>

definition iter_next :: "UpdateQuery \<Rightarrow> UpdateIter \<Rightarrow> (Field \<times> nat) option \<times> UpdateIter" where
  "iter_next q it =
     (if cur_idx it = length (query_meta q) then (None, it)
      else let f = query_meta q ! cur_idx it
           in (Some (f, ptr_off it),
               \<lparr> cur_idx = cur_idx it + 1, ptr_off = ptr_off it + field_size f \<rparr>))"

text \<open>
  A \<^verbatim>\<open>for\<close> loop over the iterator, as the list of items it visits; the index only grows, so it ends
  when it starts within the array.
\<close>

function iter_items :: "UpdateQuery \<Rightarrow> UpdateIter \<Rightarrow> (Field \<times> nat) list" where
  "iter_items q it =
     (if length (query_meta q) < cur_idx it then []
      else case iter_next q it of
             (None, _) \<Rightarrow> []
           | (Some x, it') \<Rightarrow> x # iter_items q it')"
  by auto
termination
  by (relation "measure (\<lambda>(q, it). length (query_meta q) - cur_idx it)")
    (auto simp: iter_next_def Let_def split: if_splits)

definition query_items :: "UpdateQuery \<Rightarrow> (Field \<times> nat) list" where
  "query_items q = iter_items q query_iter"

section \<open>Memory images under loads and stores\<close>

named_theorems bytes_simps \<open>loads and stores on memory images\<close>

lemma store_bytes_length [bytes_simps]: "store_bytes off v xs = Some ys \<Longrightarrow> length ys = length xs"
  by (auto simp: store_bytes_def split: if_splits)

lemma store_bytes_total [bytes_simps]:
  "(\<exists>ys. store_bytes off v xs = Some ys) \<longleftrightarrow> off + length v \<le> length xs"
  by (simp add: store_bytes_def)

lemma load_bytes_total [bytes_simps]:
  "(\<exists>v. load_bytes off n xs = Some v) \<longleftrightarrow> off + n \<le> length xs"
  by (simp add: load_bytes_def)

lemma store_bytes_nth:
  assumes "store_bytes off v xs = Some ys" "i < length xs"
  shows "ys ! i = (if off \<le> i \<and> i < off + length v then v ! (i - off) else xs ! i)"
proof -
  have ys: "ys = take off xs @ v @ drop (off + length v) xs" and le: "off + length v \<le> length xs"
    using assms(1) by (auto simp: store_bytes_def split: if_splits)
  consider "i < off" | "off \<le> i" "i < off + length v" | "off + length v \<le> i"
    by linarith
  then show ?thesis
    by cases (use ys le assms(2) in \<open>auto simp: nth_append min_absorb2\<close>)
qed

lemma bytes_eqI:
  assumes "length xs = length ys" "\<And>i. i < length xs \<Longrightarrow> xs ! i = ys ! i"
  shows "xs = ys"
  using assms by (rule nth_equalityI)

lemma load_bytes_eq_iff:
  "load_bytes off n xs = Some v \<longleftrightarrow>
     off + n \<le> length xs \<and> length v = n \<and> (\<forall>i<n. v ! i = xs ! (off + i))"
proof -
  have "take n (drop off xs) = v \<longleftrightarrow> length v = n \<and> (\<forall>i<n. v ! i = xs ! (off + i))"
    if "off + n \<le> length xs"
    using that by (auto simp: list_eq_iff_nth_eq)
  then show ?thesis
    by (auto simp: load_bytes_def)
qed

lemma load_bytes_map:
  "off + n \<le> length xs \<Longrightarrow> load_bytes off n xs = Some (map (\<lambda>b. xs ! (off + b)) [0..<n])"
  by (subst load_bytes_eq_iff) simp

lemma load_store_same [bytes_simps]:
  assumes "store_bytes off v xs = Some ys"
  shows "load_bytes off (length v) ys = Some v"
proof -
  have "off + length v \<le> length xs"
    using assms by (auto simp: store_bytes_def split: if_splits)
  then show ?thesis
    using store_bytes_length [OF assms] store_bytes_nth [OF assms] by (simp add: load_bytes_eq_iff)
qed

lemma load_store_other [bytes_simps]:
  assumes "store_bytes off v xs = Some ys" "off' + n \<le> off \<or> off + length v \<le> off'"
  shows "load_bytes off' n ys = load_bytes off' n xs"
proof (cases "off' + n \<le> length xs")
  case True
  then have "take n (drop off' ys) = take n (drop off' xs)"
    using store_bytes_length [OF assms(1)] assms(2)
    by (intro bytes_eqI) (auto simp: store_bytes_nth [OF assms(1)])
  then show ?thesis
    using store_bytes_length [OF assms(1)] by (simp add: load_bytes_def)
qed (use store_bytes_length [OF assms(1)] in \<open>simp add: load_bytes_def\<close>)

text \<open>Storing what is there changes nothing.\<close>

lemma store_loaded [bytes_simps]:
  assumes "load_bytes off n xs = Some v"
  shows "store_bytes off v xs = Some xs"
proof -
  have v: "length v = n" "off + n \<le> length xs" "v = take n (drop off xs)"
    using assms by (auto simp: load_bytes_def split: if_splits)
  then show ?thesis
    by (simp add: store_bytes_def add.commute) (metis append_assoc append_take_drop_id take_add drop_drop)
qed

section \<open>The iterator\<close>

lemma meta_size_sum: "meta_size fs = sum_list (map field_size fs)"
proof -
  have "fold (\<lambda>b a. a + field_size b) fs k = k + sum_list (map field_size fs)" for k
    by (induction fs arbitrary: k) simp_all
  then show ?thesis by (simp add: meta_size_def)
qed

declare iter_items.simps [simp del]

lemma iter_items_from:
  assumes "cur_idx it \<le> length (query_meta q)"
  shows "iter_items q it =
     map (\<lambda>i. (query_meta q ! i,
               ptr_off it + meta_size (drop (cur_idx it) (take i (query_meta q)))))
       [cur_idx it..<length (query_meta q)]"
  using assms
proof (induction q it rule: iter_items.induct)
  case (1 q it)
  let ?n = "length (query_meta q)"
  show ?case
  proof (cases "cur_idx it = ?n")
    case True
    then show ?thesis by (subst iter_items.simps) (simp add: iter_next_def)
  next
    case False
    let ?f = "query_meta q ! cur_idx it"
    let ?it = "\<lparr> cur_idx = cur_idx it + 1, ptr_off = ptr_off it + field_size ?f \<rparr>"
    have lt: "cur_idx it < ?n"
      using False 1(2) by simp
    then have nx: "iter_next q it = (Some (?f, ptr_off it), ?it)"
      by (simp add: iter_next_def Let_def)
    have step: "drop (cur_idx it) (take i (query_meta q)) =
        ?f # drop (Suc (cur_idx it)) (take i (query_meta q))" if "Suc (cur_idx it) \<le> i" "i < ?n" for i
      using that lt Cons_nth_drop_Suc [of "cur_idx it" "take i (query_meta q)"] by simp
    have "iter_items q it = (?f, ptr_off it) # iter_items q ?it"
      using lt by (subst iter_items.simps) (simp add: nx)
    also have "iter_items q ?it = map (\<lambda>i. (query_meta q ! i, ptr_off it +
        meta_size (drop (cur_idx it) (take i (query_meta q))))) [Suc (cur_idx it)..<?n]"
      using 1(1) [OF _ nx [symmetric] refl] lt
      by (auto simp: step meta_size_sum)
    finally show ?thesis
      using lt by (simp add: upt_conv_Cons meta_size_sum)
  qed
qed

lemma query_items_map:
  "query_items q = map (\<lambda>i. (query_meta q ! i, meta_size (take i (query_meta q)))) [0..<length (query_meta q)]"
  unfolding query_items_def by (subst iter_items_from) (simp_all add: query_iter_def)

lemma query_items_data:
  assumes "length (query_data q) = meta_size (query_meta q)" "(f, off) \<in> set (query_items q)"
  shows "f \<in> set (query_meta q)" "off + field_size f \<le> length (query_data q)"
proof -
  let ?fs = "query_meta q"
  obtain i where i: "i < length ?fs" "f = ?fs ! i" "off = meta_size (take i ?fs)"
    using assms(2) by (auto simp: query_items_map)
  then show "f \<in> set ?fs" by simp
  have "?fs = take i ?fs @ ?fs ! i # drop (Suc i) ?fs"
    using i(1) by (rule id_take_nth_drop)
  then have "meta_size ?fs = meta_size (take i ?fs) + field_size (?fs ! i) + meta_size (drop (Suc i) ?fs)"
    by (metis (no_types) map_append list.simps(9) meta_size_sum sum_list.Cons sum_list_append add.assoc)
  then show "off + field_size f \<le> length (query_data q)"
    using i assms(1) by simp
qed

section \<open>Properties\<close>

text \<open>
  Iterating an update query visits each field once, in order, and pairs the \<open>i\<close>-th field with
  the offset of its bytes in the data: the total size of the fields before it. If the data is as
  long as \<^verbatim>\<open>FieldsMeta::size\<close> says, every visited field's bytes lie within it.
\<close>

theorem update_iter_offsets:
  "query_items q = map (\<lambda>i. (query_meta q ! i, meta_size (take i (query_meta q))))
     [0..<length (query_meta q)]
   \<and> (length (query_data q) = meta_size (query_meta q) \<longrightarrow>
        (\<forall>(f, off) \<in> set (query_items q).
           \<exists>v. load_bytes off (field_size f) (query_data q) = Some v))"
  using query_items_map query_items_data(2) [of q] by (auto simp: load_bytes_total)

theorem update_iter_offsets_witness:
  "query_items \<lparr> query_meta = [Field 8 16, Field 0 4], query_data = replicate 12 1 \<rparr>
     = [(Field 8 16, 0), (Field 0 4, 8)]
   \<and> load_bytes 8 4 (replicate 12 (1 :: u8)) = Some (replicate 4 1)"
  using update_iter_offsets [of "\<lparr> query_meta = [Field 8 16, Field 0 4], query_data = replicate 12 1 \<rparr>"]
  by (simp add: meta_size_def field_size_def upt_rec load_bytes_def)

end
