(* ===== verification/Schema.thy ===== *)
theory Schema
  imports Query
begin

text \<open>
  The \<^verbatim>\<open>Schema\<close> trait and \<^verbatim>\<open>QueryValue\<close> of \<^verbatim>\<open>src/attribute_cache/mod.rs\<close>. A schema projects a tuple
  to the part that is cached, writes a cached part back, and translates a field of the tuple to
  the field of the cached part that holds it. A query value is a reference to a cached item, to a
  full tuple, or to both, and is resolved per field.
\<close>

section \<open>Definitions\<close>

text \<open>The trait, with the two methods that have default bodies.\<close>

record Schema =
  to_cached :: "bytes \<Rightarrow> bytes"
  write_back :: "bytes \<Rightarrow> bytes \<Rightarrow> bytes"
  key :: "bytes \<Rightarrow> usize"
  to_cached_field :: "Field \<Rightarrow> Field option"
  matches :: "FieldsMeta \<Rightarrow> bool"
  update_cached :: "bytes \<Rightarrow> UpdateQuery \<Rightarrow> bytes option"

fun default_matches :: "(Field \<Rightarrow> Field option) \<Rightarrow> FieldsMeta \<Rightarrow> bool" where
  "default_matches tcf [] = True"
| "default_matches tcf (f # fs) = (if tcf f = None then False else default_matches tcf fs)"

text \<open>The loop of \<^verbatim>\<open>update_cached\<close>: each field that is cached is copied over the cached item.\<close>

fun update_loop ::
  "(Field \<Rightarrow> Field option) \<Rightarrow> bytes \<Rightarrow> (Field \<times> nat) list \<Rightarrow> bytes \<Rightarrow> bytes option" where
  "update_loop tcf data [] c = Some c"
| "update_loop tcf data ((i, v) # rest) c =
     (case tcf i of
        Some f \<Rightarrow> Option.bind (load_bytes v (field_size f) data) (\<lambda>bs.
                    Option.bind (store_bytes (field_off f) bs c) (update_loop tcf data rest))
      | None \<Rightarrow> update_loop tcf data rest c)"

definition default_update_cached ::
  "(Field \<Rightarrow> Field option) \<Rightarrow> bytes \<Rightarrow> UpdateQuery \<Rightarrow> bytes option" where
  "default_update_cached tcf c q = update_loop tcf (query_data q) (query_items q) c"

text \<open>
  \<^verbatim>\<open>QueryValue\<close>: \<open>'f\<close> and \<open>'t\<close> are the references to cached items and to tuples.
\<close>

record ('f, 't) QueryValue =
  qv_field :: "'f option"
  qv_tuple :: "'t option"

definition new_value :: "'f option \<Rightarrow> 't option \<Rightarrow> ('f, 't) QueryValue" where
  "new_value f t = \<lparr> qv_field = f, qv_tuple = t \<rparr>"

datatype access_error = Expect_Failed | Out_Of_Bounds

text \<open>A place in memory: a byte offset in a cached item or in a tuple.\<close>

datatype ('f, 't) place = In_Field 'f nat | In_Tuple 't nat

definition get_value_mut ::
  "Schema \<Rightarrow> ('f, 't) QueryValue \<Rightarrow> Field \<Rightarrow> access_error + ('f, 't) place" where
  "get_value_mut S q f =
     (let cached_field = to_cached_field S f
      in if cached_field \<noteq> None \<and> qv_field q \<noteq> None
         then Inr (In_Field (the (qv_field q)) (field_off (the cached_field)))
         else case qv_tuple q of
                None \<Rightarrow> Inl Expect_Failed
              | Some t \<Rightarrow> Inr (In_Tuple t (field_off f)))"

text \<open>
  \<^verbatim>\<open>get_value\<close> for a value of \<open>n\<close> bytes; \<open>df\<close> and \<open>dt\<close> dereference the two kinds of references.
\<close>

definition get_value ::
  "('f \<Rightarrow> bytes) \<Rightarrow> ('t \<Rightarrow> bytes) \<Rightarrow> Schema \<Rightarrow> ('f, 't) QueryValue \<Rightarrow> Field \<Rightarrow> nat \<Rightarrow> access_error + bytes"
  where
  "get_value df dt S q f n =
     (let cached_field = to_cached_field S f;
          deref = (\<lambda>m off. case load_bytes off n m of None \<Rightarrow> Inl Out_Of_Bounds | Some v \<Rightarrow> Inr v)
      in if cached_field \<noteq> None \<and> qv_field q \<noteq> None
         then deref (df (the (qv_field q))) (field_off (the cached_field))
         else case qv_tuple q of
                None \<Rightarrow> Inl Expect_Failed
              | Some t \<Rightarrow> deref (dt t) (field_off f))"

definition cached_hit :: "('f, 't) QueryValue \<Rightarrow> bool" where
  "cached_hit q \<longleftrightarrow> qv_field q \<noteq> None"

definition has_field :: "('f, 't) QueryValue \<Rightarrow> bool" where
  "has_field q \<longleftrightarrow> qv_field q \<noteq> None"

definition has_tuple :: "('f, 't) QueryValue \<Rightarrow> bool" where
  "has_tuple q \<longleftrightarrow> qv_tuple q \<noteq> None"

section \<open>The logical tuple\<close>

text \<open>
  What a row holds, given its cached part if there is one and its bytes in the table storage.
\<close>

definition logical :: "Schema \<Rightarrow> bytes option \<Rightarrow> bytes \<Rightarrow> bytes" where
  "logical S c t = (case c of None \<Rightarrow> t | Some b \<Rightarrow> write_back S b t)"

text \<open>
  A query value resolves for a row with cached part \<open>c\<close> and stored bytes \<open>t\<close>: each reference it
  has leads there, and it has the tuple unless every field of the query is cached.
\<close>

definition resolves ::
  "Schema \<Rightarrow> ('f \<Rightarrow> bytes) \<Rightarrow> ('t \<Rightarrow> bytes) \<Rightarrow> ('f, 't) QueryValue \<Rightarrow> FieldsMeta \<Rightarrow> bytes option \<Rightarrow> bytes \<Rightarrow> bool"
  where
  "resolves S df dt q query c t \<longleftrightarrow>
     map_option df (qv_field q) = c \<and> (\<forall>r. qv_tuple q = Some r \<longrightarrow> dt r = t)
     \<and> (qv_tuple q = None \<longrightarrow> qv_field q \<noteq> None \<and> matches S query)"

section \<open>The contract of a schema\<close>

text \<open>
  What the cache relies on: sizes, that writing an unmodified projection back changes nothing,
  and that a proper field is either held by the cached part alone or not at all. A field that
  only overlaps a cached field is not proper.
\<close>

locale schema_laws =
  fixes S :: Schema and tuple_size cached_size :: nat and proper :: "Field \<Rightarrow> bool"
  assumes proper_in: "proper f \<Longrightarrow> field_off f + field_size f \<le> tuple_size"
    and cached_in: "proper f \<Longrightarrow> to_cached_field S f = Some g \<Longrightarrow>
      field_size g = field_size f \<and> field_off g + field_size g \<le> cached_size"
    and matches_iff: "matches S q \<longleftrightarrow> (\<forall>f\<in>set q. to_cached_field S f \<noteq> None)"
    and to_cached_length: "length t = tuple_size \<Longrightarrow> length (to_cached S t) = cached_size"
    and write_back_length: "length t = tuple_size \<Longrightarrow> length c = cached_size \<Longrightarrow>
      length (write_back S c t) = tuple_size"
    and write_back_to_cached: "length t = tuple_size \<Longrightarrow> write_back S (to_cached S t) t = t"
    and load_cached: "proper f \<Longrightarrow> to_cached_field S f = Some g \<Longrightarrow> length t = tuple_size \<Longrightarrow>
      length c = cached_size \<Longrightarrow>
      load_bytes (field_off f) (field_size f) (write_back S c t) = load_bytes (field_off g) (field_size f) c"
    and load_uncached: "proper f \<Longrightarrow> to_cached_field S f = None \<Longrightarrow> length t = tuple_size \<Longrightarrow>
      length c = cached_size \<Longrightarrow>
      load_bytes (field_off f) (field_size f) (write_back S c t) = load_bytes (field_off f) (field_size f) t"
    and store_cached: "proper f \<Longrightarrow> to_cached_field S f = Some g \<Longrightarrow> length t = tuple_size \<Longrightarrow>
      length c = cached_size \<Longrightarrow> length v = field_size f \<Longrightarrow>
      store_bytes (field_off f) v (write_back S c t)
        = map_option (\<lambda>c'. write_back S c' t) (store_bytes (field_off g) v c)"
    and store_uncached: "proper f \<Longrightarrow> to_cached_field S f = None \<Longrightarrow> length t = tuple_size \<Longrightarrow>
      length c = cached_size \<Longrightarrow> length v = field_size f \<Longrightarrow>
      store_bytes (field_off f) v (write_back S c t)
        = map_option (write_back S c) (store_bytes (field_off f) v t)"
begin

lemma logical_length:
  "length t = tuple_size \<Longrightarrow> (\<And>b. c = Some b \<Longrightarrow> length b = cached_size) \<Longrightarrow>
     length (logical S c t) = tuple_size"
  by (auto simp: logical_def write_back_length split: option.splits)

lemma get_value_logical:
  assumes "resolves S df dt q query c t" "f \<in> set query" "proper f"
    and "length t = tuple_size" "\<And>b. c = Some b \<Longrightarrow> length b = cached_size"
  shows "\<exists>v. get_value df dt S q f (field_size f) = Inr v
    \<and> load_bytes (field_off f) (field_size f) (logical S c t) = Some v"
proof -
  have "\<exists>v. load_bytes (field_off f) (field_size f) (logical S c t) = Some v"
    using proper_in [OF assms(3)] logical_length [OF assms(4,5)] by (simp add: load_bytes_total)
  then obtain v where v: "load_bytes (field_off f) (field_size f) (logical S c t) = Some v" ..
  have "get_value df dt S q f (field_size f) = Inr v"
  proof (cases "to_cached_field S f \<noteq> None \<and> qv_field q \<noteq> None")
    case True
    then obtain g p where gp: "to_cached_field S f = Some g" "qv_field q = Some p" "c = Some (df p)"
      using assms(1) by (auto simp: resolves_def)
    then show ?thesis
      using v load_cached [OF assms(3) gp(1) assms(4) assms(5) [OF gp(3)]]
      by (simp add: get_value_def Let_def logical_def)
  next
    case False
    then obtain r where r: "qv_tuple q = Some r" "dt r = t"
      using assms(1,2) by (auto simp: resolves_def matches_iff)
    have "load_bytes (field_off f) (field_size f) t = Some v"
    proof (cases c)
      case None
      then show ?thesis using v by (simp add: logical_def)
    next
      case (Some b)
      then have "to_cached_field S f = None"
        using False assms(1) by (auto simp: resolves_def)
      then show ?thesis
        using v Some load_uncached [OF assms(3) _ assms(4) assms(5) [OF Some]]
        by (simp add: logical_def)
    qed
    then show ?thesis
      using False r by (auto simp: get_value_def Let_def)
  qed
  with v show ?thesis by blast
qed

text \<open>
  Writing through the place that \<^verbatim>\<open>get_value_mut\<close> names writes the field of the logical tuple.
\<close>

lemma get_value_mut_logical:
  assumes "resolves S df dt q query c t" "f \<in> set query" "proper f"
    and "length t = tuple_size" "\<And>b. c = Some b \<Longrightarrow> length b = cached_size"
    and "length v = field_size f"
  shows "(\<exists>p off b'. get_value_mut S q f = Inr (In_Field p off) \<and> qv_field q = Some p
            \<and> store_bytes off v (df p) = Some b' \<and> length b' = cached_size
            \<and> store_bytes (field_off f) v (logical S c t) = Some (logical S (Some b') t))
       \<or> (\<exists>r off t'. get_value_mut S q f = Inr (In_Tuple r off) \<and> qv_tuple q = Some r
            \<and> store_bytes off v t = Some t' \<and> length t' = tuple_size
            \<and> store_bytes (field_off f) v (logical S c t) = Some (logical S c t'))"
proof (cases "to_cached_field S f \<noteq> None \<and> qv_field q \<noteq> None")
  case True
  then obtain g p where gp: "to_cached_field S f = Some g" "qv_field q = Some p" "c = Some (df p)"
    using assms(1) by (auto simp: resolves_def)
  have "field_off g + length v \<le> length (df p)"
    using cached_in [OF assms(3) gp(1)] assms(5) [OF gp(3)] assms(6) by simp
  then obtain b' where b': "store_bytes (field_off g) v (df p) = Some b'"
    using store_bytes_total by blast
  then show ?thesis
    using True gp store_cached [OF assms(3) gp(1) assms(4) assms(5) [OF gp(3)] assms(6)]
      store_bytes_length [OF b'] assms(5) [OF gp(3)]
    by (intro disjI1 exI [of _ p] exI [of _ "field_off g"] exI [of _ b'])
      (simp add: get_value_mut_def Let_def logical_def)
next
  case False
  then obtain r where r: "qv_tuple q = Some r"
    using assms(1,2) by (auto simp: resolves_def matches_iff)
  have "field_off f + length v \<le> length t"
    using proper_in [OF assms(3)] assms(4,6) by simp
  then obtain t' where t': "store_bytes (field_off f) v t = Some t'"
    using store_bytes_total by blast
  have "store_bytes (field_off f) v (logical S c t) = Some (logical S c t')"
  proof (cases c)
    case (Some b)
    then have "to_cached_field S f = None"
      using False assms(1) by (auto simp: resolves_def)
    then show ?thesis
      using t' Some store_uncached [OF assms(3) _ assms(4) assms(5) [OF Some] assms(6)]
      by (simp add: logical_def)
  qed (simp add: logical_def t')
  then show ?thesis
    using False r t' store_bytes_length [OF t'] assms(4)
    by (intro disjI2 exI [of _ r] exI [of _ "field_off f"] exI [of _ t'])
      (auto simp: get_value_mut_def Let_def)
qed

end

lemma default_matches_iff: "default_matches tcf q \<longleftrightarrow> (\<forall>f\<in>set q. tcf f \<noteq> None)"
  by (induction q) auto

end
