(* ===== verification/Cache_Inner.thy ===== *)
theory Cache_Inner
  imports Oid_Array Node_Meta Schema
begin

text \<open>
  \<^verbatim>\<open>src/attribute_cache/clock_cache/cache_inner.rs\<close>: the slots of the attribute cache and the clock
  hand that looks for a slot to fill. A call runs without interference by other threads, whose
  guards may be held meanwhile (the lock bits of the object ids say which).

  Parameters stand for code outside the repository: the per-thread cell of the \<^verbatim>\<open>thread_local\<close>
  crate (\<open>tls\<close>, with the laws of a hash map keyed by the thread), the random draws of the \<^verbatim>\<open>rand\<close> crate
  (\<open>rng k p\<close> is the \<open>k\<close>-th draw at probability \<open>p\<close>) and the spurious failures of the weak
  compare-and-swap at each probe (\<open>spur\<close>: of \<^verbatim>\<open>try_write\<close> and of the slot's row id).
\<close>

section \<open>Definitions\<close>

definition U32_MAX :: u32 where "U32_MAX = 0xffffffff"

record ClockNode =
  node_rid :: u32
  node_meta :: NodeMeta
  node_val :: bytes

definition node_new :: "bytes \<Rightarrow> Rid \<Rightarrow> ClockNode" where
  "node_new v rid = \<lparr> node_rid = as_u32 rid, node_meta = new_meta, node_val = v \<rparr>"

definition clock_rid :: "ClockNode \<Rightarrow> Rid" where
  "clock_rid e = from_u32 (node_rid e)"

text \<open>\<^verbatim>\<open>set_ref\<close> draws with probability \<open>prob\<close>.\<close>

definition node_set_ref :: "(nat \<Rightarrow> rat \<Rightarrow> bool) \<Rightarrow> nat \<Rightarrow> rat \<Rightarrow> ClockNode \<Rightarrow> ClockNode" where
  "node_set_ref rng k prob e = (if rng k prob then e\<lparr> node_meta := set_ref (node_meta e) \<rparr> else e)"

definition try_clear_ref :: "ClockNode \<Rightarrow> bool \<times> ClockNode" where
  "try_clear_ref e =
     (let (was_set, m') = clear_if_set (node_meta e) (node_meta e) in (was_set, e\<lparr> node_meta := m' \<rparr>))"

text \<open>\<open>draws\<close> counts the draws made so far.\<close>

record 'l CacheInner =
  capacity :: u32
  probe_len :: u32
  probe_rng :: rat
  tls_index :: 'l
  entries :: "ClockNode list"
  draws :: nat

text \<open>\<^verbatim>\<open>new_cap\<close>: zeroed slots of \<open>fsz\<close> bytes, all marked empty; an empty cache is refused.\<close>

definition new_cap :: "(tid, u32, 'l) hash_map \<Rightarrow> nat \<Rightarrow> nat \<Rightarrow> nat \<Rightarrow> rat \<Rightarrow> 'l CacheInner option" where
  "new_cap tls fsz cache_cnt plen prng =
     (if cache_cnt > 0 then
        Some \<lparr> capacity = of_nat cache_cnt, probe_len = of_nat plen, probe_rng = prng,
               tls_index = hm_new tls,
               entries = replicate cache_cnt \<lparr> node_rid = U32_MAX, node_meta = 0, node_val = replicate fsz 0 \<rparr>,
               draws = 0 \<rparr>
      else None)"

definition inner_reset :: "'l CacheInner \<Rightarrow> 'l CacheInner" where
  "inner_reset I =
     (let n = unat (capacity I)
      in I\<lparr> entries := map (\<lambda>e. e\<lparr> node_rid := U32_MAX \<rparr>) (take n (entries I)) @ drop n (entries I) \<rparr>)"

definition inner_new ::
  "(tid, u32, 'l) hash_map \<Rightarrow> nat \<Rightarrow> nat \<Rightarrow> nat \<Rightarrow> rat \<Rightarrow> nat \<Rightarrow> 'l CacheInner option" where
  "inner_new tls fsz node_size cache_size prng plen = new_cap tls fsz (cache_size div node_size) plen prng"

text \<open>\<^verbatim>\<open>thread_init\<close> starts the hand of a thread at a random slot; \<open>pick n\<close> is the draw below \<open>n\<close>.\<close>

definition thread_init :: "(tid, u32, 'l) hash_map \<Rightarrow> (u32 \<Rightarrow> u32) \<Rightarrow> tid \<Rightarrow> 'l CacheInner \<Rightarrow> 'l CacheInner" where
  "thread_init tls pick t I =
     (case hm_get tls (tls_index I) t of
        Some _ \<Rightarrow> I
      | None \<Rightarrow> I\<lparr> tls_index := hm_insert tls (tls_index I) t (pick (capacity I)) \<rparr>)"

definition get_index :: "(tid, u32, 'l) hash_map \<Rightarrow> tid \<Rightarrow> 'l CacheInner \<Rightarrow> nat \<times> 'l CacheInner" where
  "get_index tls t I =
     (case hm_get tls (tls_index I) t of
        Some i \<Rightarrow> (unat i, I)
      | None \<Rightarrow> (0, I\<lparr> tls_index := hm_insert tls (tls_index I) t 0 \<rparr>))"

definition advance_index :: "(tid, u32, 'l) hash_map \<Rightarrow> tid \<Rightarrow> 'l CacheInner \<Rightarrow> nat \<times> 'l CacheInner" where
  "advance_index tls t I =
     (let (i, I1) = get_index tls t I; index = (i + 1) mod unat (capacity I1)
      in (index, I1\<lparr> tls_index := hm_insert tls (tls_index I1) t (of_nat index) \<rparr>))"

definition set_entry :: "nat \<Rightarrow> ClockNode \<Rightarrow> 'l CacheInner \<Rightarrow> 'l CacheInner" where
  "set_entry i e I = I\<lparr> entries := (entries I)[i := e] \<rparr>"

text \<open>
  One round of the probe loop. \<open>Found i old\<close> reports the slot filled and, after an eviction, the old
  node; the object id of the evicted row is then still write-locked.
\<close>

datatype probe_result = Probe_Next | Found nat "ClockNode option"

definition probe_round ::
  "(tid, u32, 'l) hash_map \<Rightarrow> tid \<Rightarrow> bool \<times> bool \<Rightarrow> ClockNode \<Rightarrow> Rid \<Rightarrow> 'l CacheInner \<Rightarrow> 'm OidArray
    \<Rightarrow> probe_result \<times> 'l CacheInner \<times> 'm OidArray" where
  "probe_round tls t spur new_node rid I O' =
     (let (cur_index, I1) = advance_index tls t I;
          cur_entry = entries I1 ! cur_index;
          cur_rid = node_rid cur_entry
      in if cur_rid = U32_MAX then
           (case compare_exchange_weak (snd spur) (node_rid cur_entry) cur_rid (as_u32 rid) of
              (Inr _, _) \<Rightarrow>
                (Found cur_index None, set_entry cur_index new_node I1,
                 set_sync O' rid (store_index (of_nat cur_index) (get_sync O' rid)))
            | (Inl _, _) \<Rightarrow> (Probe_Next, I1, O'))
         else
           let (cleared, e1) = try_clear_ref cur_entry; I2 = set_entry cur_index e1 I1
           in if cleared then (Probe_Next, I2, O')
              else
                let cr = from_u32 cur_rid; w = get_sync O' cr
                in case try_write (fst spur) w w of
                     (Inl _, _) \<Rightarrow> (Probe_Next, I2, O')
                   | (Inr _, w1) \<Rightarrow>
                       let O1 = set_sync O' cr w1
                       in case compare_exchange_weak (snd spur) (node_rid e1) (as_u32 cr) (as_u32 cr) of
                            (Inl _, _) \<Rightarrow>
                              (Probe_Next, I2, set_sync O1 cr (write_unlock (get_sync O1 cr)))
                          | (Inr _, _) \<Rightarrow>
                              let O2 = set_sync O1 cr (store_rid (clock_rid e1) (get_sync O1 cr));
                                  old = entries I2 ! cur_index;
                                  I3 = set_entry cur_index new_node I2;
                                  O3 = set_sync O2 rid (store_index (of_nat cur_index) (get_sync O2 rid))
                              in (Found cur_index (Some old), I3, O3))"

text \<open>The loop, from round \<open>p\<close> on with \<open>n\<close> rounds to go.\<close>

fun probe_loop ::
  "(tid, u32, 'l) hash_map \<Rightarrow> tid \<Rightarrow> (nat \<Rightarrow> bool \<times> bool) \<Rightarrow> ClockNode \<Rightarrow> Rid \<Rightarrow> nat \<Rightarrow> nat
    \<Rightarrow> 'l CacheInner \<Rightarrow> 'm OidArray \<Rightarrow> (nat \<times> ClockNode option) option \<times> 'l CacheInner \<times> 'm OidArray" where
  "probe_loop tls t spur new_node rid p 0 I O' = (None, I, O')"
| "probe_loop tls t spur new_node rid p (Suc n) I O' =
     (case probe_round tls t (spur p) new_node rid I O' of
        (Found i old, I1, O1) \<Rightarrow> (Some (i, old), I1, O1)
      | (Probe_Next, I1, O1) \<Rightarrow> probe_loop tls t spur new_node rid (p + 1) n I1 O1)"

definition probe_and_replace_rng ::
  "(tid, u32, 'l) hash_map \<Rightarrow> (nat \<Rightarrow> rat \<Rightarrow> bool) \<Rightarrow> tid \<Rightarrow> (nat \<Rightarrow> bool \<times> bool) \<Rightarrow> ClockNode \<Rightarrow> Rid \<Rightarrow> rat
    \<Rightarrow> 'l CacheInner \<Rightarrow> 'm OidArray \<Rightarrow> (nat \<times> ClockNode option) option \<times> 'l CacheInner \<times> 'm OidArray" where
  "probe_and_replace_rng tls rng t spur new_node rid probability I O' =
     (let I1 = I\<lparr> draws := draws I + 1 \<rparr>
      in if \<not> rng (draws I) probability then (None, I1, O')
         else probe_loop tls t spur new_node rid 0 (unat (probe_len I)) I1 O')"

text \<open>
  \<^verbatim>\<open>insert\<close> of a new item under the write guard of row \<open>r\<close>; \<^const>\<open>None\<close> outside is the panic of the
  assertion that the row is not cached. The inner result is the evicted node, if any.
\<close>

definition inner_insert ::
  "(tid, u32, 'l) hash_map \<Rightarrow> (nat \<Rightarrow> rat \<Rightarrow> bool) \<Rightarrow> tid \<Rightarrow> (nat \<Rightarrow> bool \<times> bool) \<Rightarrow> Rid \<Rightarrow> bytes
    \<Rightarrow> 'l CacheInner \<Rightarrow> 'm OidArray \<Rightarrow> (ClockNode option \<times> 'l CacheInner \<times> 'm OidArray) option" where
  "inner_insert tls rng t spur lock v I O' =
     (if is_rid (get_sync O' lock) then
        let rid = to_rid (get_sync O' lock); clock_node = node_new v rid
        in case probe_and_replace_rng tls rng t spur clock_node rid 1 I O' of
             (None, I1, O1) \<Rightarrow> Some (None, I1, O1)
           | (Some (_, old), I1, O1) \<Rightarrow> Some (old, I1, O1)
      else None)"

text \<open>\<^verbatim>\<open>read\<close>: the slot of a cached row, whose reference bit may be set, or the row id.\<close>

definition inner_read ::
  "(nat \<Rightarrow> rat \<Rightarrow> bool) \<Rightarrow> Rid \<Rightarrow> 'l CacheInner \<Rightarrow> 'm OidArray \<Rightarrow> (Rid + nat) \<times> 'l CacheInner" where
  "inner_read rng oid I O' =
     (let w = get_sync O' oid
      in if is_cached w then
           let i = unat (to_cache_index w); e = entries I ! i
           in (Inr i, (set_entry i (node_set_ref rng (draws I) (probe_rng I) e) I)\<lparr> draws := draws I + 1 \<rparr>)
         else (Inl (to_rid w), I))"

section \<open>The invariant of slots and object ids\<close>

text \<open>
  Every row refers to itself or to the slot that holds it, every slot is empty or holds a row that
  refers to it, and every thread's hand is inside the cache. \<open>csz\<close> is the size of a cached item.
\<close>

definition row_ok :: "'l CacheInner \<Rightarrow> Rid \<Rightarrow> LockedOid \<Rightarrow> bool" where
  "row_ok I r w \<longleftrightarrow> oid_wf w \<and>
     (case oid_ref_of w of
        Row r' \<Rightarrow> r' = r
      | Slot i \<Rightarrow> i < length (entries I) \<and> node_rid (entries I ! i) = as_u32 r)"

definition slot_ok :: "nat \<Rightarrow> 'm OidArray \<Rightarrow> Rid set \<Rightarrow> nat \<Rightarrow> ClockNode \<Rightarrow> bool" where
  "slot_ok csz O' R i e \<longleftrightarrow> node_rid e = U32_MAX
     \<or> (clock_rid e \<in> R \<and> oid_ref_of (get_sync O' (clock_rid e)) = Slot i \<and> length (node_val e) = csz)"

definition hands_ok :: "(tid, u32, 'l) hash_map \<Rightarrow> 'l CacheInner \<Rightarrow> bool" where
  "hands_ok tls I \<longleftrightarrow> 0 < unat (capacity I) \<and> length (entries I) = unat (capacity I)
     \<and> (\<forall>t i. hm_get tls (tls_index I) t = Some i \<longrightarrow> unat i < unat (capacity I))"

definition inner_inv ::
  "(tid, u32, 'l) hash_map \<Rightarrow> (tid, nat, 'm) hash_map \<Rightarrow> nat \<Rightarrow> 'l CacheInner \<Rightarrow> 'm OidArray \<Rightarrow> Rid set \<Rightarrow> bool"
  where
  "inner_inv tls ops csz I O' R \<longleftrightarrow> hands_ok tls I \<and> oid_inv ops O' R
     \<and> (\<forall>r\<in>R. row_ok I r (get_sync O' r))
     \<and> (\<forall>i<length (entries I). slot_ok csz O' R i (entries I ! i))"

text \<open>The cached part of a row, if it has one.\<close>

definition cached_part :: "'l CacheInner \<Rightarrow> 'm OidArray \<Rightarrow> Rid \<Rightarrow> bytes option" where
  "cached_part I O' r =
     (case oid_ref_of (get_sync O' r) of Row _ \<Rightarrow> None | Slot i \<Rightarrow> Some (node_val (entries I ! i)))"

definition same_row :: "'l CacheInner \<Rightarrow> 'm OidArray \<Rightarrow> 'l CacheInner \<Rightarrow> 'm OidArray \<Rightarrow> Rid \<Rightarrow> bool" where
  "same_row I O' I1 O1 r \<longleftrightarrow> get_sync O1 r = get_sync O' r \<and> cached_part I1 O1 r = cached_part I O' r"

lemma Rid_eq_iff: "r = r' \<longleftrightarrow> as_u32 r = as_u32 r'"
  by (cases r; cases r') simp

lemma clock_rid_eq: "clock_rid e = r \<longleftrightarrow> node_rid e = as_u32 r"
  by (cases r) (simp add: clock_rid_def from_u32_def)

lemma as_u32_clock_rid [simp]: "as_u32 (clock_rid e) = node_rid e"
  by (simp add: clock_rid_def from_u32_def)

lemma row_ok_slot:
  "row_ok I r w \<Longrightarrow> oid_ref_of w = Slot i \<Longrightarrow> i < length (entries I) \<and> node_rid (entries I ! i) = as_u32 r"
  by (simp add: row_ok_def)

lemma inner_inv_rows:
  assumes "inner_inv tls ops csz I O' R" "r \<in> R"
  shows "row_ok I r (get_sync O' r)" "oid_wf (get_sync O' r)"
  using assms by (auto simp: inner_inv_def row_ok_def)

text \<open>Two rows never refer to the same slot.\<close>

lemma slot_unique:
  assumes "inner_inv tls ops csz I O' R" "r \<in> R" "r' \<in> R"
    and "oid_ref_of (get_sync O' r) = Slot i" "oid_ref_of (get_sync O' r') = Slot i"
  shows "r = r'"
  using inner_inv_rows(1) [OF assms(1,2)] inner_inv_rows(1) [OF assms(1,3)] assms(4,5)
  by (simp add: row_ok_def Rid_eq_iff)

lemma entries_set_entry [simp]:
  "entries (set_entry i e I) = (entries I)[i := e]" "capacity (set_entry i e I) = capacity I"
  "tls_index (set_entry i e I) = tls_index I" "probe_len (set_entry i e I) = probe_len I"
  "probe_rng (set_entry i e I) = probe_rng I" "draws (set_entry i e I) = draws I"
  by (simp_all add: set_entry_def)

lemma hands_ok_set_entry [simp]: "hands_ok tls (set_entry i e I) = hands_ok tls I"
  by (simp add: hands_ok_def)

text \<open>Moving the hand.\<close>

lemma advance_index_spec:
  assumes laws: "hash_map_laws tls" and ok: "hands_ok tls I"
  obtains i I1 where "advance_index tls t I = (i, I1)" "i < length (entries I)" "hands_ok tls I1"
    "entries I1 = entries I" "probe_len I1 = probe_len I" "probe_rng I1 = probe_rng I"
    "capacity I1 = capacity I"
proof -
  obtain j I0 where j: "get_index tls t I = (j, I0)"
    by (cases "get_index tls t I")
  have I0: "entries I0 = entries I" "probe_len I0 = probe_len I" "probe_rng I0 = probe_rng I"
    "capacity I0 = capacity I" "hands_ok tls I0"
    using j ok by (auto simp: get_index_def hands_ok_def hash_map_laws.get_insert [OF laws]
        split: option.splits if_splits)
  let ?i = "(j + 1) mod unat (capacity I)"
  have c: "0 < unat (capacity I)" "length (entries I) = unat (capacity I)"
    using ok by (simp_all add: hands_ok_def)
  have i: "?i < unat (capacity I)"
    using c(1) by simp
  then have "?i < 2 ^ 32"
    using unsigned_less [of "capacity I", where ?'a = nat] by simp
  then have u: "unat (of_nat ?i :: u32) = ?i"
    by (simp add: unsigned_of_nat take_bit_nat_eq_self_iff)
  have "hands_ok tls (I0\<lparr> tls_index := hm_insert tls (tls_index I0) t (of_nat ?i) \<rparr>)"
    using I0 i u by (auto simp: hands_ok_def hash_map_laws.get_insert [OF laws] split: if_splits)
  then show ?thesis
    using that [of ?i "I0\<lparr> tls_index := hm_insert tls (tls_index I0) t (of_nat ?i) \<rparr>"] I0 i c j
    by (simp add: advance_index_def Let_def)
qed

text \<open>Changes that keep the row id and the item of every slot.\<close>

definition same_slots :: "'l CacheInner \<Rightarrow> 'l CacheInner \<Rightarrow> bool" where
  "same_slots I I1 \<longleftrightarrow> map (\<lambda>e. (node_rid e, node_val e)) (entries I1) = map (\<lambda>e. (node_rid e, node_val e)) (entries I)
     \<and> probe_len I1 = probe_len I \<and> probe_rng I1 = probe_rng I"

lemma same_slots_simps:
  assumes "same_slots I I1"
  shows "length (entries I1) = length (entries I)"
    and "i < length (entries I) \<Longrightarrow> node_rid (entries I1 ! i) = node_rid (entries I ! i)"
    and "i < length (entries I) \<Longrightarrow> node_val (entries I1 ! i) = node_val (entries I ! i)"
    and "i < length (entries I) \<Longrightarrow> clock_rid (entries I1 ! i) = clock_rid (entries I ! i)"
proof -
  show len: "length (entries I1) = length (entries I)"
    using assms unfolding same_slots_def by (elim conjE map_eq_imp_length_eq)
  have "(node_rid (entries I1 ! i), node_val (entries I1 ! i)) = (node_rid (entries I ! i), node_val (entries I ! i))"
    if "i < length (entries I)"
  proof -
    have "map (\<lambda>e. (node_rid e, node_val e)) (entries I1) ! i = map (\<lambda>e. (node_rid e, node_val e)) (entries I) ! i"
      using assms by (simp only: same_slots_def)
    then show ?thesis
      using that len by simp
  qed
  then show "i < length (entries I) \<Longrightarrow> node_rid (entries I1 ! i) = node_rid (entries I ! i)"
    and "i < length (entries I) \<Longrightarrow> node_val (entries I1 ! i) = node_val (entries I ! i)"
    and "i < length (entries I) \<Longrightarrow> clock_rid (entries I1 ! i) = clock_rid (entries I ! i)"
    by (simp_all add: clock_rid_def)
qed

lemma same_slots_refl [simp]: "same_slots I I"
  by (simp add: same_slots_def)

lemma same_slots_trans: "same_slots I I1 \<Longrightarrow> same_slots I1 I2 \<Longrightarrow> same_slots I I2"
  by (simp add: same_slots_def)

lemma same_slots_entry:
  assumes "node_rid e = node_rid (entries I ! i)" "node_val e = node_val (entries I ! i)"
  shows "same_slots I (set_entry i e I)"
proof -
  have "map (\<lambda>e. (node_rid e, node_val e)) ((entries I)[i := e]) = map (\<lambda>e. (node_rid e, node_val e)) (entries I)"
    using assms by (cases "i < length (entries I)") (auto intro!: nth_equalityI simp: nth_list_update)
  then show ?thesis
    by (simp add: same_slots_def)
qed

lemma inner_inv_same_slots:
  assumes "inner_inv tls ops csz I O' R" "same_slots I I1" "hands_ok tls I1"
  shows "inner_inv tls ops csz I1 O' R"
  using assms(1,3) same_slots_simps [OF assms(2)]
  unfolding inner_inv_def row_ok_def slot_ok_def by (auto split: oid_ref.splits)

lemma cached_part_same_slots:
  assumes "inner_inv tls ops csz I O' R" "same_slots I I1" "r \<in> R"
  shows "cached_part I1 O' r = cached_part I O' r"
  using inner_inv_rows(1) [OF assms(1,3)] same_slots_simps [OF assms(2)]
  by (auto simp: cached_part_def row_ok_def split: oid_ref.splits)

text \<open>A slot that no row refers to, about to be filled.\<close>

definition hole_inv ::
  "(tid, u32, 'l) hash_map \<Rightarrow> (tid, nat, 'm) hash_map \<Rightarrow> nat \<Rightarrow> nat \<Rightarrow> 'l CacheInner \<Rightarrow> 'm OidArray \<Rightarrow> Rid set \<Rightarrow> bool"
  where
  "hole_inv tls ops csz i I O' R \<longleftrightarrow> hands_ok tls I \<and> oid_inv ops O' R \<and> i < length (entries I)
     \<and> (\<forall>r\<in>R. row_ok I r (get_sync O' r) \<and> oid_ref_of (get_sync O' r) \<noteq> Slot i)
     \<and> (\<forall>j<length (entries I). j \<noteq> i \<longrightarrow> slot_ok csz O' R j (entries I ! j))"

lemma empty_slot_hole:
  assumes "inner_inv tls ops csz I O' R" "i < length (entries I)" "node_rid (entries I ! i) = U32_MAX"
  shows "hole_inv tls ops csz i I O' R"
proof -
  have "oid_ref_of (get_sync O' r) \<noteq> Slot i" if "r \<in> R" for r
    using inner_inv_rows(1) [OF assms(1) that] assms oid_inv_rid(1) [of ops O' R r] that
    by (auto simp: row_ok_def inner_inv_def U32_MAX_def)
  then show ?thesis
    using assms by (auto simp: hole_inv_def inner_inv_def)
qed

lemma evicted_slot_hole:
  assumes inv: "inner_inv tls ops csz I O' R" and i: "i < length (entries I)"
    and full: "node_rid (entries I ! i) \<noteq> U32_MAX" and cr: "cr = clock_rid (entries I ! i)"
    and w: "oid_wf w" "oid_ref_of w = Row cr"
  shows "cr \<in> R" "oid_ref_of (get_sync O' cr) = Slot i" "cached_part I O' cr = Some (node_val (entries I ! i))"
    "hole_inv tls ops csz i I (set_sync O' cr w) R"
proof -
  have so: "slot_ok csz O' R i (entries I ! i)"
    using inv i by (simp add: inner_inv_def)
  then show R: "cr \<in> R" and ref: "oid_ref_of (get_sync O' cr) = Slot i"
    using full cr by (simp_all add: slot_ok_def)
  then show "cached_part I O' cr = Some (node_val (entries I ! i))"
    by (simp add: cached_part_def)
  have others: "oid_ref_of (get_sync O' r) \<noteq> Slot i" if "r \<in> R" "r \<noteq> cr" for r
    using slot_unique [OF inv that(1) R _ ref] that(2) by blast
  have "slot_ok csz (set_sync O' cr w) R j (entries I ! j)" if "j < length (entries I)" "j \<noteq> i" for j
    using inv that ref by (auto simp: inner_inv_def slot_ok_def)
  then show "hole_inv tls ops csz i I (set_sync O' cr w) R"
    using inv i w R others unfolding hole_inv_def inner_inv_def by (auto simp: row_ok_def)
qed

lemma fill_slot:
  assumes hole: "hole_inv tls ops csz i I O' R" and r: "r \<in> R" "oid_ref_of (get_sync O' r) = Row r"
    and v: "length v = csz"
  defines "I1 \<equiv> set_entry i (node_new v r) I"
    and "O1 \<equiv> set_sync O' r (store_index (of_nat i) (get_sync O' r))"
  shows "inner_inv tls ops csz I1 O1 R" "oid_ref_of (get_sync O1 r) = Slot i"
    "lock_byte (get_sync O1 r) = lock_byte (get_sync O' r)" "cached_part I1 O1 r = Some v"
    "\<And>r'. r' \<in> R \<Longrightarrow> r' \<noteq> r \<Longrightarrow> same_row I O' I1 O1 r'"
proof -
  note h = hole [unfolded hole_inv_def]
  have i: "i < unat (capacity I)"
    using h by (simp add: hands_ok_def)
  then have "i < 2 ^ 32"
    using unsigned_less [of "capacity I", where ?'a = nat] by simp
  then have u: "unat (of_nat i :: usize) = i" and small: "(of_nat i :: usize) < 4294967296"
    by (simp_all add: unat_of_nat_usize word_less_nat_alt)
  have wf: "oid_wf (get_sync O' r)"
    using h r(1) by (simp add: row_ok_def)
  then show ref: "oid_ref_of (get_sync O1 r) = Slot i"
    and "lock_byte (get_sync O1 r) = lock_byte (get_sync O' r)"
    using small u by (simp_all add: O1_def oid_simps)
  have len: "i < length (entries I)"
    using h by simp
  show "cached_part I1 O1 r = Some v"
    using ref len by (simp add: cached_part_def I1_def node_new_def)
  have wf1: "oid_wf (get_sync O1 r)"
    using wf small by (simp add: O1_def oid_simps)
  have rows: "row_ok I1 r' (get_sync O1 r')" if "r' \<in> R" for r'
  proof (cases "r' = r")
    case True
    then show ?thesis using ref wf1 len by (simp add: row_ok_def I1_def node_new_def)
  next
    case False
    then show ?thesis
      using h that by (auto simp: row_ok_def I1_def O1_def split: oid_ref.splits)
  qed
  have slots: "slot_ok csz O1 R j (entries I1 ! j)" if "j < length (entries I1)" for j
  proof (cases "j = i")
    case True
    then show ?thesis
      using len ref r(1) v by (simp add: slot_ok_def I1_def node_new_def clock_rid_def from_u32_def)
  next
    case False
    then have "slot_ok csz O' R j (entries I ! j)"
      using h that by (simp add: I1_def)
    then show ?thesis
      using False r(2) by (auto simp: slot_ok_def I1_def O1_def)
  qed
  have "hands_ok tls I1" "oid_inv ops O1 R"
    using h r(1) by (simp_all add: I1_def O1_def)
  then show "inner_inv tls ops csz I1 O1 R"
    using rows slots by (simp add: inner_inv_def)
  show "same_row I O' I1 O1 r'" if "r' \<in> R" "r' \<noteq> r" for r'
    using h that by (auto simp: same_row_def cached_part_def I1_def O1_def split: oid_ref.splits)
qed

section \<open>What probing does\<close>

text \<open>
  The outcome of probing for row \<open>r\<close>, whose write guard the caller holds, with the item \<open>v\<close>. Either
  nothing happened to any row; or \<open>r\<close> moved into a slot with \<open>v\<close>, and either no other row changed, or
  one other, unlocked row \<open>cr\<close> lost the slot: its cached item is returned, its object id refers to
  the row again and is write-locked.
\<close>

definition evicted :: "'l CacheInner \<Rightarrow> 'm OidArray \<Rightarrow> 'm OidArray \<Rightarrow> ClockNode \<Rightarrow> Rid \<Rightarrow> bool" where
  "evicted I O' O1 e cr \<longleftrightarrow> clock_rid e = cr \<and> cached_part I O' cr = Some (node_val e)
     \<and> lock_byte (get_sync O' cr) = 0 \<and> lock_byte (get_sync O1 cr) = 128 \<and> oid_ref_of (get_sync O1 cr) = Row cr"

definition probed ::
  "Rid set \<Rightarrow> Rid \<Rightarrow> bytes \<Rightarrow> 'l CacheInner \<Rightarrow> 'm OidArray \<Rightarrow> (nat \<times> ClockNode option) option
    \<Rightarrow> 'l CacheInner \<Rightarrow> 'm OidArray \<Rightarrow> bool" where
  "probed R r v I O' res I1 O1 \<longleftrightarrow>
     (case res of
        None \<Rightarrow> (\<forall>r'\<in>R. same_row I O' I1 O1 r')
      | Some (i, old) \<Rightarrow> oid_ref_of (get_sync O1 r) = Slot i \<and> cached_part I1 O1 r = Some v
          \<and> lock_byte (get_sync O1 r) = lock_byte (get_sync O' r)
          \<and> (case old of
               None \<Rightarrow> (\<forall>r'\<in>R - {r}. same_row I O' I1 O1 r')
             | Some e \<Rightarrow> (\<exists>cr\<in>R - {r}. evicted I O' O1 e cr \<and> (\<forall>r'\<in>R - {r, cr}. same_row I O' I1 O1 r'))))"

lemma same_row_trans: "same_row I O' I1 O1 r \<Longrightarrow> same_row I1 O1 I2 O2 r \<Longrightarrow> same_row I O' I2 O2 r"
  by (simp add: same_row_def)

lemma probed_after:
  assumes "\<forall>r'\<in>R. same_row I O' I1 O1 r'" "r \<in> R" "probed R r v I1 O1 res I2 O2"
  shows "probed R r v I O' res I2 O2"
proof -
  have "get_sync O1 r' = get_sync O' r' \<and> cached_part I1 O1 r' = cached_part I O' r'" if "r' \<in> R" for r'
    using assms(1) that by (simp add: same_row_def)
  then show ?thesis
    using assms(2,3)
    by (fastforce simp: probed_def evicted_def same_row_def split: option.splits prod.splits)
qed

lemma relock_word: "lock_byte w = 0 \<Longrightarrow> (w OR LOCK_WRITER) - LOCK_WRITER = w"
  by (simp add: oid_word_eq_iff oid_simps)

fun probe_answer :: "probe_result \<Rightarrow> (nat \<times> ClockNode option) option" where
  "probe_answer Probe_Next = None"
| "probe_answer (Found i old) = Some (i, old)"

lemma try_clear_ref_simps:
  "node_rid (snd (try_clear_ref e)) = node_rid e" "node_val (snd (try_clear_ref e)) = node_val e"
  by (simp_all add: try_clear_ref_def split_def Let_def)

text \<open>Changing the lock of a row keeps what it refers to.\<close>

lemma inner_inv_set_word:
  assumes inv: "inner_inv tls ops csz I O' R" and r: "r \<in> R"
    and w: "oid_wf w" "oid_ref_of w = oid_ref_of (get_sync O' r)"
  shows "inner_inv tls ops csz I (set_sync O' r w) R" "cached_part I (set_sync O' r w) r' = cached_part I O' r'"
proof -
  have "slot_ok csz (set_sync O' r w) R i e = slot_ok csz O' R i e" for i e
    using w(2) by (simp add: slot_ok_def)
  then show "inner_inv tls ops csz I (set_sync O' r w) R"
    using inv r w by (simp add: inner_inv_def row_ok_def)
  show "cached_part I (set_sync O' r w) r' = cached_part I O' r'"
    using w(2) by (simp add: cached_part_def)
qed

lemma oid_capacity_set_sync [simp]: "oid_capacity (set_sync O' r w) = oid_capacity O'"
  by (simp add: oid_capacity_def set_sync_def)

definition round_ok ::
  "(tid, u32, 'l) hash_map \<Rightarrow> (tid, nat, 'm) hash_map \<Rightarrow> nat \<Rightarrow> Rid set \<Rightarrow> Rid \<Rightarrow> bytes \<Rightarrow> 'l CacheInner \<Rightarrow> 'm OidArray
    \<Rightarrow> (nat \<times> ClockNode option) option \<Rightarrow> 'l CacheInner \<Rightarrow> 'm OidArray \<Rightarrow> bool" where
  "round_ok tls ops csz R r v I O' res I1 O1 \<longleftrightarrow> inner_inv tls ops csz I1 O1 R \<and> probed R r v I O' res I1 O1
     \<and> probe_len I1 = probe_len I \<and> probe_rng I1 = probe_rng I \<and> oid_capacity O1 = oid_capacity O'"

lemma round_ok_after:
  assumes inv: "inner_inv tls ops csz I O' R" and "same_slots I I1" "hands_ok tls I1" and r: "r \<in> R"
    and ok: "round_ok tls ops csz R r v I1 O' res I2 O2"
  shows "round_ok tls ops csz R r v I O' res I2 O2"
proof -
  have "\<forall>r'\<in>R. same_row I O' I1 O' r'"
    using cached_part_same_slots [OF inv assms(2)] by (simp add: same_row_def)
  moreover have "probed R r v I1 O' res I2 O2"
    using ok by (simp add: round_ok_def)
  ultimately have "probed R r v I O' res I2 O2"
    by (rule probed_after [OF _ r])
  then show ?thesis
    using ok assms(2) by (simp add: round_ok_def same_slots_def)
qed

lemma round_ok_next:
  assumes "inner_inv tls ops csz I O' R" "r \<in> R"
  shows "round_ok tls ops csz R r v I O' None I O'"
  using assms by (simp add: round_ok_def probed_def same_row_def)

lemma round_ok_relocked:
  assumes inv: "inner_inv tls ops csz I O' R" and "r \<in> R" and cr: "cr \<in> R"
    and O1: "O1 = set_sync (set_sync O' cr w) cr (get_sync O' cr)"
  shows "round_ok tls ops csz R r v I O' None I O1"
proof -
  have w: "oid_wf (get_sync O' cr)"
    using inner_inv_rows [OF inv cr] by simp
  have "O1 = set_sync O' cr (get_sync O' cr)"
    by (simp add: O1 set_sync_def)
  then show ?thesis
    using inner_inv_set_word [OF inv cr w] by (simp add: round_ok_def probed_def same_row_def)
qed

lemma round_ok_fill:
  assumes inv: "inner_inv tls ops csz I O' R" and i: "i < length (entries I)"
    and empty: "node_rid (entries I ! i) = U32_MAX"
    and r: "r \<in> R" "oid_ref_of (get_sync O' r) = Row r" and v: "length v = csz"
  shows "round_ok tls ops csz R r v I O' (Some (i, None)) (set_entry i (node_new v r) I)
    (set_sync O' r (store_index (of_nat i) (get_sync O' r)))"
  using fill_slot [OF empty_slot_hole [OF inv i empty] r v] by (simp add: round_ok_def probed_def)

lemma round_ok_evict:
  assumes inv: "inner_inv tls ops csz I O' R" and i: "i < length (entries I)"
    and full: "node_rid (entries I ! i) \<noteq> U32_MAX" and cr: "cr = clock_rid (entries I ! i)"
    and free: "lock_byte (get_sync O' cr) = 0"
    and r: "r \<in> R" "oid_ref_of (get_sync O' r) = Row r" and v: "length v = csz"
    and O1: "O1 = set_sync (set_sync O' cr w1) cr (store_rid cr (get_sync O' cr OR LOCK_WRITER))"
  shows "round_ok tls ops csz R r v I O' (Some (i, Some (entries I ! i))) (set_entry i (node_new v r) I)
    (set_sync O1 r (store_index (of_nat i) (get_sync O1 r)))"
proof -
  let ?w = "store_rid cr (get_sync O' cr OR LOCK_WRITER)" and ?e = "entries I ! i"
  have O1': "O1 = set_sync O' cr ?w"
    by (simp add: O1 set_sync_def)
  have "cr \<in> R"
    using inv i full cr by (auto simp: inner_inv_def slot_ok_def)
  then have wf: "oid_wf ?w"
    using inner_inv_rows(2) [OF inv] by (simp add: oid_simps)
  note ev = evicted_slot_hole [OF inv i full cr wf store_rid_ref]
  have "r \<noteq> cr"
    using r(2) ev(2) by auto
  then have rO1: "oid_ref_of (get_sync O1 r) = Row r" "lock_byte (get_sync O1 r) = lock_byte (get_sync O' r)"
    using r by (simp_all add: O1')
  let ?I = "set_entry i (node_new v r) I" and ?O = "set_sync O1 r (store_index (of_nat i) (get_sync O1 r))"
  note fl = fill_slot [OF ev(4) r(1) rO1(1) [unfolded O1'] v, folded O1']
  have "lock_byte ?w = 128"
    using free by (simp add: oid_simps)
  then have evd: "evicted I O' ?O ?e cr"
    using \<open>r \<noteq> cr\<close> ev(3) free cr by (simp add: evicted_def O1' store_rid_ref)
  have same: "same_row I O' ?I ?O r'" if "r' \<in> R - {r, cr}" for r'
    using fl(5) [of r'] that by (simp add: same_row_def O1' cached_part_def)
  then have "probed R r v I O' (Some (i, Some ?e)) ?I ?O"
    using fl(2-4) rO1(2) evd \<open>cr \<in> R\<close> \<open>r \<noteq> cr\<close> by (auto simp: probed_def)
  then show ?thesis
    using fl(1) by (simp add: round_ok_def O1')
qed

lemma probe_round_eq:
  assumes adv: "advance_index tls t I = (i, I0)" and i: "i < length (entries I0)"
  shows "probe_round tls t spur nn r I O' =
     (let e = entries I0 ! i; c = fst (try_clear_ref e); e1 = snd (try_clear_ref e);
          I2 = set_entry i e1 I0; cr = clock_rid e; w = get_sync O' cr;
          O1 = set_sync O' cr (w OR LOCK_WRITER); O2 = set_sync O1 cr (store_rid cr (w OR LOCK_WRITER))
      in if node_rid e = U32_MAX then
           if snd spur then (Probe_Next, I0, O')
           else (Found i None, set_entry i nn I0, set_sync O' r (store_index (of_nat i) (get_sync O' r)))
         else if c \<or> lock_byte w \<noteq> 0 \<or> fst spur then (Probe_Next, I2, O')
         else if snd spur then (Probe_Next, I2, set_sync O1 cr w)
         else (Found i (Some e1), set_entry i nn I2, set_sync O2 r (store_index (of_nat i) (get_sync O2 r))))"
proof -
  obtain c e1 where e1: "try_clear_ref (entries I0 ! i) = (c, e1)" "node_rid e1 = node_rid (entries I0 ! i)"
    using try_clear_ref_simps [of "entries I0 ! i"] by (cases "try_clear_ref (entries I0 ! i)") simp
  then show ?thesis
    using adv i
    by (simp add: probe_round_def Let_def compare_exchange_weak_def try_write_eq clock_rid_def
        from_u32_def write_unlock_def fetch_sub_def relock_word)
qed

lemma probe_round_spec:
  assumes laws: "hash_map_laws tls" and inv: "inner_inv tls ops csz I O' R"
    and r: "r \<in> R" "oid_ref_of (get_sync O' r) = Row r" and v: "length v = csz"
    and run: "probe_round tls t spur (node_new v r) r I O' = (res, I1, O1)"
  shows "round_ok tls ops csz R r v I O' (probe_answer res) I1 O1"
proof -
  have h: "hands_ok tls I"
    using inv by (simp add: inner_inv_def)
  obtain i I0 where adv: "advance_index tls t I = (i, I0)" "i < length (entries I)" "hands_ok tls I0"
    "entries I0 = entries I" "probe_len I0 = probe_len I" "probe_rng I0 = probe_rng I"
    using advance_index_spec [OF laws h] by metis
  have s0: "same_slots I I0"
    using adv by (simp add: same_slots_def)
  note inv0 = inner_inv_same_slots [OF inv s0 adv(3)]
  note after0 = round_ok_after [OF inv s0 adv(3) r(1)]
  let ?e = "entries I ! i"
  show ?thesis
  proof (cases "node_rid ?e = U32_MAX")
    case True
    then have "i < length (entries I0)" "node_rid (entries I0 ! i) = U32_MAX"
      using adv by simp_all
    from after0 [OF round_ok_fill [OF inv0 this r v]] after0 [OF round_ok_next [OF inv0 r(1)], of v] show ?thesis
      using run adv True by (cases "snd spur") (auto simp: probe_round_def compare_exchange_weak_def)
  next
    case False
    obtain c e1 where e1: "try_clear_ref ?e = (c, e1)"
      by (cases "try_clear_ref ?e")
    then have e1': "node_rid e1 = node_rid ?e" "node_val e1 = node_val ?e"
      using try_clear_ref_simps [of ?e] by simp_all
    let ?I2 = "set_entry i e1 I0" and ?cr = "clock_rid ?e"
    have s2: "same_slots I ?I2" "hands_ok tls ?I2"
      using same_slots_trans [OF s0 same_slots_entry [of e1 I0 i]] e1' adv by simp_all
    note inv2 = inner_inv_same_slots [OF inv s2]
    note after2 = round_ok_after [OF inv s2 r(1)]
    have len: "i < length (entries ?I2)" and at_i: "entries ?I2 ! i = e1" and cr: "?cr = clock_rid e1"
      using adv e1' by (simp_all add: clock_rid_def)
    have full: "node_rid (entries ?I2 ! i) \<noteq> U32_MAX"
      using False at_i e1' by simp
    then have crR: "?cr \<in> R"
      using inv2 len at_i cr by (auto simp: inner_inv_def slot_ok_def)
    note round = probe_round_eq [OF adv(1), of spur "node_new v r" r O', unfolded adv(4) Let_def, OF adv(2), unfolded e1 fst_conv snd_conv,
        unfolded if_not_P [OF False]]
    note next2 = after2 [OF round_ok_next [OF inv2 r(1)], of v]
    note relocked = after2 [OF round_ok_relocked [OF inv2 r(1) crR refl], of v "get_sync O' ?cr OR LOCK_WRITER"]
    note evicts = after2 [OF round_ok_evict [OF inv2 len full _ _ r v refl, unfolded at_i, folded cr, OF refl]]
    consider (skip) "c \<or> lock_byte (get_sync O' ?cr) \<noteq> 0 \<or> fst spur"
      | (relock) "\<not> c" "lock_byte (get_sync O' ?cr) = 0" "\<not> fst spur" "snd spur"
      | (evict) "\<not> c" "lock_byte (get_sync O' ?cr) = 0" "\<not> fst spur" "\<not> snd spur"
      by blast
    then show ?thesis
    proof cases
      case skip
      then have "res = Probe_Next" "I1 = ?I2" "O1 = O'"
        using run by (simp_all only: round if_True prod.inject)
      with next2 show ?thesis by simp
    next
      case relock
      then show ?thesis using run relocked by (simp only: round) (simp add: Let_def)
    next
      case evict
      then show ?thesis using run evicts [OF evict(2), of "get_sync O' ?cr OR LOCK_WRITER"]
        by (simp only: round) (auto simp: Let_def)
    qed
  qed
qed

lemma probe_loop_spec:
  assumes laws: "hash_map_laws tls" and v: "length v = csz"
  shows "inner_inv tls ops csz I O' R \<Longrightarrow> r \<in> R \<Longrightarrow> oid_ref_of (get_sync O' r) = Row r \<Longrightarrow>
    probe_loop tls t spur (node_new v r) r p n I O' = (res, I1, O1) \<Longrightarrow>
    round_ok tls ops csz R r v I O' res I1 O1"
proof (induction n arbitrary: p I O')
  case 0
  then show ?case using round_ok_next by auto
next
  case (Suc n)
  obtain res0 I2 O2 where step: "probe_round tls t (spur p) (node_new v r) r I O' = (res0, I2, O2)"
    by (cases "probe_round tls t (spur p) (node_new v r) r I O'")
  note ok = probe_round_spec [OF laws Suc.prems(1-3) v step]
  show ?case
  proof (cases res0)
    case (Found i old)
    then show ?thesis using Suc.prems(4) step ok by simp
  next
    case Probe_Next
    have same: "\<forall>r'\<in>R. same_row I O' I2 O2 r'" "inner_inv tls ops csz I2 O2 R"
      "probe_len I2 = probe_len I" "probe_rng I2 = probe_rng I" "oid_capacity O2 = oid_capacity O'"
      using ok Probe_Next by (simp_all add: round_ok_def probed_def)
    have "oid_ref_of (get_sync O2 r) = Row r"
      using same Suc.prems by (simp add: same_row_def)
    moreover have "probe_loop tls t spur (node_new v r) r (p + 1) n I2 O2 = (res, I1, O1)"
      using Suc.prems(4) step Probe_Next by simp
    ultimately have ok2: "round_ok tls ops csz R r v I2 O2 res I1 O1"
      using Suc.IH same(2) Suc.prems(2) by blast
    then have "probed R r v I2 O2 res I1 O1"
      by (simp add: round_ok_def)
    then have "probed R r v I O' res I1 O1"
      by (rule probed_after [OF same(1) Suc.prems(2)])
    then show ?thesis
      using ok2 same by (simp add: round_ok_def)
  qed
qed

lemma probe_and_replace_rng_spec:
  assumes laws: "hash_map_laws tls" and inv: "inner_inv tls ops csz I O' R"
    and r: "r \<in> R" "oid_ref_of (get_sync O' r) = Row r" and v: "length v = csz"
    and run: "probe_and_replace_rng tls rng t spur (node_new v r) r prob I O' = (res, I1, O1)"
  shows "round_ok tls ops csz R r v I O' res I1 O1"
proof -
  let ?I = "I\<lparr> draws := draws I + 1 \<rparr>"
  have s: "same_slots I ?I" "hands_ok tls ?I"
    using inv by (simp_all add: same_slots_def inner_inv_def hands_ok_def)
  note inv' = inner_inv_same_slots [OF inv s]
  have "round_ok tls ops csz R r v ?I O' res I1 O1"
  proof (cases "rng (draws I) prob")
    case True
    then show ?thesis
      using run probe_loop_spec [OF laws v inv' r] by (simp add: probe_and_replace_rng_def)
  next
    case False
    then show ?thesis
      using run round_ok_next [OF inv' r(1)] by (auto simp: probe_and_replace_rng_def)
  qed
  then show ?thesis
    by (rule round_ok_after [OF inv s r(1)])
qed

text \<open>Reading finds exactly the cached part, and only sets a reference bit.\<close>

lemma node_set_ref_simps:
  "node_rid (node_set_ref rng k p e) = node_rid e" "node_val (node_set_ref rng k p e) = node_val e"
  by (simp_all add: node_set_ref_def)

lemma set_draws_same_slots:
  "same_slots I J \<Longrightarrow> same_slots I (J\<lparr> draws := d \<rparr>)" "hands_ok tls J \<Longrightarrow> hands_ok tls (J\<lparr> draws := d \<rparr>)"
  by (simp_all add: same_slots_def hands_ok_def)

lemma inner_read_spec:
  assumes inv: "inner_inv tls ops csz I O' R" and r: "r \<in> R"
    and run: "inner_read rng r I O' = (res, I1)"
  shows "same_slots I I1" "hands_ok tls I1"
    "case res of
       Inl rid \<Rightarrow> oid_ref_of (get_sync O' r) = Row r \<and> rid = r
     | Inr i \<Rightarrow> oid_ref_of (get_sync O' r) = Slot i \<and> i < length (entries I1) \<and> clock_rid (entries I1 ! i) = r
         \<and> cached_part I1 O' r = Some (node_val (entries I1 ! i))"
proof -
  let ?w = "get_sync O' r" and ?i = "unat (to_cache_index (get_sync O' r))"
  note ok = inner_inv_rows(1) [OF inv r]
  have h: "hands_ok tls I"
    using inv by (simp add: inner_inv_def)
  let ?e = "node_set_ref rng (draws I) (probe_rng I) (entries I ! ?i)"
  have I1: "I1 = (if is_cached ?w then (set_entry ?i ?e I)\<lparr> draws := draws I + 1 \<rparr> else I)"
    and res: "res = (if is_cached ?w then Inr ?i else Inl (to_rid ?w))"
    using run by (simp_all add: inner_read_def Let_def split: if_splits)
  have "same_slots I (set_entry ?i ?e I)"
    by (rule same_slots_entry) (simp_all add: node_set_ref_simps)
  then show s: "same_slots I I1" and "hands_ok tls I1"
    using h by (simp_all add: I1 set_draws_same_slots)
  have "cached_part I1 O' r = Some (node_val (entries I1 ! ?i))" if "is_cached ?w"
    using that by (simp add: cached_part_def oid_ref_of_def)
  moreover have "clock_rid (entries I ! ?i) = r \<and> ?i < length (entries I)" if "is_cached ?w"
    using that ok by (simp add: row_ok_def oid_ref_of_def clock_rid_eq)
  moreover have "to_rid ?w = r" if "\<not> is_cached ?w"
    using that ok by (simp add: row_ok_def oid_ref_of_def)
  ultimately show "case res of
       Inl rid \<Rightarrow> oid_ref_of ?w = Row r \<and> rid = r
     | Inr i \<Rightarrow> oid_ref_of ?w = Slot i \<and> i < length (entries I1) \<and> clock_rid (entries I1 ! i) = r
         \<and> cached_part I1 O' r = Some (node_val (entries I1 ! i))"
    using same_slots_simps [OF s] by (cases "is_cached ?w") (simp_all add: res oid_ref_of_def)
qed

text \<open>A fresh row joins the rows of the cache.\<close>

lemma inner_inv_fresh:
  assumes inv: "inner_inv tls ops csz I O' R" and new: "r \<notin> R" "oid_inv ops O1 (insert r R)"
    and w: "fresh_word r (get_sync O1 r)" and same: "\<forall>r'\<in>R. get_sync O1 r' = get_sync O' r'"
  shows "inner_inv tls ops csz I O1 (insert r R)"
proof -
  have "slot_ok csz O1 (insert r R) i e" if "slot_ok csz O' R i e" for i e
    using that same by (auto simp: slot_ok_def)
  then show ?thesis
    using inv new w same by (auto simp: inner_inv_def row_ok_def fresh_word_def)
qed

text \<open>A new or reset cache has only empty slots.\<close>

lemma inner_inv_empty:
  assumes "hands_ok tls I" "oid_inv ops O' {}" "\<forall>e\<in>set (entries I). node_rid e = U32_MAX"
  shows "inner_inv tls ops csz I O' {}"
  using assms by (simp add: inner_inv_def slot_ok_def)

lemma inner_new_inv:
  assumes laws: "hash_map_laws tls" and new: "inner_new tls fsz node_size cache_size prng plen = Some I"
    and n: "cache_size div node_size < 2 ^ 32"
  shows "hands_ok tls I" "\<forall>e\<in>set (entries I). node_rid e = U32_MAX"
proof -
  have "unat (of_nat (cache_size div node_size) :: u32) = cache_size div node_size"
    using n by (simp add: unsigned_of_nat take_bit_nat_eq_self_iff)
  then show "hands_ok tls I" "\<forall>e\<in>set (entries I). node_rid e = U32_MAX"
    using new by (auto simp: inner_new_def new_cap_def hands_ok_def hash_map_laws.get_new [OF laws] split: if_splits)
qed

lemma inner_reset_inv:
  assumes "hands_ok tls I"
  shows "hands_ok tls (inner_reset I)" "\<forall>e\<in>set (entries (inner_reset I)). node_rid e = U32_MAX"
  using assms by (auto simp: inner_reset_def hands_ok_def Let_def)

lemma thread_init_inv:
  assumes "hash_map_laws tls" "hands_ok tls I" "\<And>n. 0 < n \<Longrightarrow> pick n < n"
  shows "hands_ok tls (thread_init tls pick t I)" "same_slots I (thread_init tls pick t I)"
proof -
  have "unat (pick (capacity I)) < unat (capacity I)"
    using assms(2) assms(3) [of "capacity I"] by (simp add: hands_ok_def word_less_nat_alt)
  then show "hands_ok tls (thread_init tls pick t I)"
    using assms(2) by (auto simp: thread_init_def hands_ok_def hash_map_laws.get_insert [OF assms(1)]
        split: option.splits if_splits)
  show "same_slots I (thread_init tls pick t I)"
    by (simp add: thread_init_def same_slots_def split: option.split)
qed

section \<open>Probing finds a slot\<close>

definition marked :: "'l CacheInner \<Rightarrow> nat" where
  "marked I = length (filter (\<lambda>e. is_refed (node_meta e)) (entries I))"

lemma length_filter_update:
  "i < length xs \<Longrightarrow> P (xs ! i) \<Longrightarrow> \<not> P x \<Longrightarrow> Suc (length (filter P (xs[i := x]))) = length (filter P xs)"
proof (induction xs arbitrary: i)
  case (Cons y ys)
  then show ?case by (cases i) auto
qed simp

lemma try_clear_ref_refed:
  "fst (try_clear_ref e) = is_refed (node_meta e)" "\<not> is_refed (node_meta (snd (try_clear_ref e)))"
proof -
  show "fst (try_clear_ref e) = is_refed (node_meta e)"
    by (simp add: try_clear_ref_def split_def Let_def clear_if_set_def is_refed_def)
  show "\<not> is_refed (node_meta (snd (try_clear_ref e)))"
    by (simp add: try_clear_ref_def split_def Let_def clear_if_set_def flag_bits bit_flag_masks bit_simps)
      (simp add: flag_bits [unfolded is_refed_def])
qed

text \<open>
  When no other row is locked and no weak operation fails, a round that finds no slot has cleared a
  reference bit. A probe longer than the number of reference bits set therefore finds a slot.
\<close>

definition unlocked_but :: "Rid \<Rightarrow> Rid set \<Rightarrow> 'm OidArray \<Rightarrow> bool" where
  "unlocked_but r R O' \<longleftrightarrow> (\<forall>r'\<in>R - {r}. lock_byte (get_sync O' r') = 0)"

lemma probe_round_progress:
  assumes laws: "hash_map_laws tls" and inv: "inner_inv tls ops csz I O' R"
    and r: "oid_ref_of (get_sync O' r) = Row r" and free: "unlocked_but r R O'"
    and run: "probe_round tls t (False, False) nn r I O' = (Probe_Next, I1, O1)"
  shows "marked I1 < marked I" "O1 = O'"
proof -
  have h: "hands_ok tls I"
    using inv by (simp add: inner_inv_def)
  obtain i I0 where adv: "advance_index tls t I = (i, I0)" "i < length (entries I)" "entries I0 = entries I"
    using advance_index_spec [OF laws h] by metis
  let ?e = "entries I ! i"
  note eq = probe_round_eq [OF adv(1), of "(False, False)" nn r O', unfolded adv(3), OF adv(2)]
  have full: "node_rid ?e \<noteq> U32_MAX"
    using run eq by (auto simp: Let_def)
  have "slot_ok csz O' R i ?e"
    using inv adv(2) by (simp add: inner_inv_def)
  then have "clock_rid ?e \<in> R" "oid_ref_of (get_sync O' (clock_rid ?e)) = Slot i"
    using full by (simp_all add: slot_ok_def)
  then have "lock_byte (get_sync O' (clock_rid ?e)) = 0"
    using free r by (auto simp: unlocked_but_def)
  then have res: "is_refed (node_meta ?e)" "I1 = set_entry i (snd (try_clear_ref ?e)) I0" "O1 = O'"
    using run eq full by (auto simp: Let_def try_clear_ref_refed split: if_splits)
  show "O1 = O'" by (rule res(3))
  have "Suc (marked I1) = marked I"
    using length_filter_update [OF adv(2), of "\<lambda>e. is_refed (node_meta e)"] res(1) try_clear_ref_refed(2) [of ?e]
    by (simp add: marked_def res(2) adv(3))
  then show "marked I1 < marked I" by simp
qed

lemma probe_loop_progress:
  assumes laws: "hash_map_laws tls" and v: "length v = csz" and r: "r \<in> R"
  shows "inner_inv tls ops csz I O' R \<Longrightarrow> oid_ref_of (get_sync O' r) = Row r \<Longrightarrow> unlocked_but r R O' \<Longrightarrow>
    marked I < n \<Longrightarrow> \<exists>x I1 O1. probe_loop tls t (\<lambda>_. (False, False)) (node_new v r) r p n I O' = (Some x, I1, O1)"
proof (induction n arbitrary: p I)
  case (Suc n)
  obtain res I1 O1 where step: "probe_round tls t (False, False) (node_new v r) r I O' = (res, I1, O1)"
    by (cases "probe_round tls t (False, False) (node_new v r) r I O'")
  show ?case
  proof (cases res)
    case (Found i old)
    then show ?thesis using step by simp
  next
    case Probe_Next
    note pr = probe_round_progress [OF laws Suc.prems(1,2,3) step [unfolded Probe_Next]]
    have "inner_inv tls ops csz I1 O' R"
      using probe_round_spec [OF laws Suc.prems(1) r Suc.prems(2) v step] pr(2) by (simp add: round_ok_def)
    then show ?thesis
      using Suc.IH [of I1 "p + 1"] Suc.prems pr step Probe_Next by simp
  qed
qed simp

section \<open>Properties\<close>

text \<open>
  C9: the clock finds a slot. If the random draw allows it, no row but the caller's is locked and no
  weak compare-and-swap fails spuriously, a probe longer than the number of reference bits set (so
  in particular one longer than the cache) succeeds: the row is in a slot afterwards and holds the
  new item there.
\<close>

theorem probe_finds_slot:
  assumes "hash_map_laws tls" and "inner_inv tls ops csz I O' R"
    and "r \<in> R" and "oid_ref_of (get_sync O' r) = Row r" and "length v = csz"
    and "unlocked_but r R O'" and "marked I < unat (probe_len I)" and "rng (draws I) prob"
  shows "\<exists>i old I1 O1. probe_and_replace_rng tls rng t (\<lambda>_. (False, False)) (node_new v r) r prob I O' = (Some (i, old), I1, O1)
    \<and> i < length (entries I1) \<and> oid_ref_of (get_sync O1 r) = Slot i \<and> cached_part I1 O1 r = Some v"
proof -
  let ?I = "I\<lparr> draws := draws I + 1 \<rparr>"
  have s: "same_slots I ?I" "hands_ok tls ?I"
    using assms(2) by (simp_all add: same_slots_def inner_inv_def hands_ok_def)
  have "marked ?I < unat (probe_len I)"
    using assms(7) by (simp add: marked_def)
  then obtain i old I1 O1 where run: "probe_and_replace_rng tls rng t (\<lambda>_. (False, False)) (node_new v r) r prob I O'
      = (Some (i, old), I1, O1)"
    using probe_loop_progress [OF assms(1,5,3) inner_inv_same_slots [OF assms(2) s] assms(4,6), of "unat (probe_len I)" t 0] assms(8)
    by (auto simp: probe_and_replace_rng_def Let_def)
  then have ok: "round_ok tls ops csz R r v I O' (Some (i, old)) I1 O1"
    by (rule probe_and_replace_rng_spec [OF assms(1-5)])
  then have "oid_ref_of (get_sync O1 r) = Slot i" "cached_part I1 O1 r = Some v" "inner_inv tls ops csz I1 O1 R"
    by (simp_all add: round_ok_def probed_def)
  then show ?thesis
    using run row_ok_slot [OF inner_inv_rows(1), of tls ops csz I1 O1 R r i] assms(3) by blast
qed

lemma sample_inner:
  "\<exists>(I :: (tid \<rightharpoonup> u32) CacheInner) (O' :: (tid \<rightharpoonup> nat) OidArray) r. inner_inv map_ops map_ops 1 I O' {r}
     \<and> oid_ref_of (get_sync O' r) = Row r \<and> marked I = 0 \<and> probe_len I = 6 \<and> draws I = 0"
proof -
  note laws = maps.hash_map_laws_axioms
  let ?I = "\<lparr> capacity = 4, probe_len = 6, probe_rng = 1, tls_index = Map.empty,
      entries = replicate 4 \<lparr> node_rid = U32_MAX, node_meta = 0, node_val = [0] \<rparr>, draws = 0 \<rparr> :: (tid \<rightharpoonup> u32) CacheInner"
  have new: "inner_new map_ops 1 1 4 1 6 = Some ?I"
    by (simp add: inner_new_def new_cap_def map_ops_def)
  obtain O' :: "(tid \<rightharpoonup> nat) OidArray" where O': "oid_array_new map_ops 10 4096 (\<lambda>_. 0) = Some O'"
    using oid_array_new_total by blast
  note o = oid_array_new_inv [OF laws O']
  have e: "inner_inv map_ops map_ops 1 ?I O' {}"
    using inner_inv_empty [OF inner_new_inv(1) [OF laws new] o(1) inner_new_inv(2) [OF laws new]] by simp
  obtain r O1 where r: "oid_inv map_ops O1 {r}" "fresh_word r (get_sync O1 r)"
    using alloc_rid_cases [OF laws o(1), of 1] o(3) by auto
  then have "inner_inv map_ops map_ops 1 ?I O1 {r}"
    using inner_inv_fresh [OF e, of r O1] by simp
  moreover have "marked ?I = 0"
    by (simp add: marked_def is_refed_def)
  ultimately show ?thesis
    using r(2) unfolding fresh_word_def by (intro exI [of _ ?I]) auto
qed

theorem probe_finds_slot_witness:
  "\<exists>(I :: (tid \<rightharpoonup> u32) CacheInner) (O' :: (tid \<rightharpoonup> nat) OidArray) r i old I1 O1. inner_inv map_ops map_ops 1 I O' {r}
     \<and> probe_and_replace_rng map_ops (\<lambda>_ _. True) 1 (\<lambda>_. (False, False)) (node_new [7] r) r 1 I O' = (Some (i, old), I1, O1)
     \<and> cached_part I1 O1 r = Some [7]"
proof -
  obtain I :: "(tid \<rightharpoonup> u32) CacheInner" and O' :: "(tid \<rightharpoonup> nat) OidArray" and r
    where s: "inner_inv map_ops map_ops 1 I O' {r}" "oid_ref_of (get_sync O' r) = Row r" "marked I = 0"
      "probe_len I = 6" "draws I = 0"
    using sample_inner by blast
  have "\<exists>i old I1 O1. probe_and_replace_rng map_ops (\<lambda>_ _. True) 1 (\<lambda>_. (False, False)) (node_new [7] r) r 1 I O' = (Some (i, old), I1, O1)
    \<and> i < length (entries I1) \<and> oid_ref_of (get_sync O1 r) = Slot i \<and> cached_part I1 O1 r = Some [7]"
    using s by (intro probe_finds_slot [OF maps.hash_map_laws_axioms s(1)]) (simp_all add: unlocked_but_def)
  with s(1) show ?thesis by blast
qed

end
