(* ===== verification/Table_Storage.thy ===== *)
theory Table_Storage
  imports Oid_Array Query
begin

text \<open>
  \<^verbatim>\<open>src/storage/table_storage.rs\<close>: the tuples of a table, one after the other in a mapped frame. A
  reference to a tuple is its index; the debug assertions are checked, and a failing one panics.
\<close>

section \<open>Definitions\<close>

record Storage =
  rows :: "nat \<Rightarrow> bytes"
  st_cap :: nat

text \<open>\<open>frame\<close> is the content of the frame that was mapped.\<close>

definition storage_new :: "(nat \<Rightarrow> bytes) \<Rightarrow> nat \<Rightarrow> Storage" where
  "storage_new frame c = \<lparr> rows = frame, st_cap = c \<rparr>"

definition storage_get :: "Storage \<Rightarrow> Rid \<Rightarrow> nat outcome" where
  "storage_get st rid = (let idx = unat (as_u32 rid) in if idx < st_cap st then Done idx else Panic)"

definition storage_get_mut :: "Storage \<Rightarrow> Rid \<Rightarrow> nat outcome" where
  "storage_get_mut st rid = (let idx = unat (as_u32 rid) in if idx < st_cap st then Done idx else Panic)"

definition set_row :: "nat \<Rightarrow> bytes \<Rightarrow> Storage \<Rightarrow> Storage" where
  "set_row i t st = st\<lparr> rows := (rows st)(i := t) \<rparr>"

definition storage_insert :: "Rid \<Rightarrow> bytes \<Rightarrow> Storage \<Rightarrow> Storage outcome" where
  "storage_insert rid val st =
     (case storage_get_mut st rid of Done i \<Rightarrow> Done (set_row i val st) | Fail e \<Rightarrow> Fail e | Panic \<Rightarrow> Panic)"

section \<open>Lemmas\<close>

definition row_of :: "Storage \<Rightarrow> Rid \<Rightarrow> bytes" where
  "row_of st r = rows st (unat (as_u32 r))"

lemma set_row_simps [simp]:
  "st_cap (set_row i t st) = st_cap st" "rows (set_row i t st) = (rows st)(i := t)"
  by (simp_all add: set_row_def)

lemma row_of_set_row:
  "row_of (set_row (unat (as_u32 r)) t st) r' = (if r' = r then t else row_of st r')"
  by (cases r; cases r') (simp add: row_of_def word_unat_eq_iff)

end
