(* ===== verification/Item_Schema.thy ===== *)
theory Item_Schema
  imports Schema
begin

text \<open>
  \<^verbatim>\<open>src/utils/test_gen.rs\<close>: tuples of \<open>tz\<close> machine words and the schema that caches a chosen list of
  their words. It is the schema of the repository's own tests and benchmarks, and the instance on
  which the contract of \<open>Schema\<close> is discharged.
\<close>

section \<open>Definitions\<close>

definition overwrite :: "nat \<Rightarrow> bytes \<Rightarrow> bytes \<Rightarrow> bytes" where
  "overwrite off v t = take off t @ v @ drop (off + length v) t"

definition word_at :: "nat \<Rightarrow> bytes \<Rightarrow> bytes" where
  "word_at off t = take 8 (drop off t)"

fun position :: "Field list \<Rightarrow> Field \<Rightarrow> nat option" where
  "position [] f = None"
| "position (x # xs) f = (if x = f then Some 0 else map_option Suc (position xs f))"

text \<open>\<^verbatim>\<open>to_cached\<close> reads word \<open>begin / 8\<close>, \<^verbatim>\<open>write_back\<close> writes the word at byte \<open>begin\<close>.\<close>

definition item_to_cached :: "Field list \<Rightarrow> bytes \<Rightarrow> bytes" where
  "item_to_cached flds t = concat (map (\<lambda>v. word_at (8 * (field_off v div 8)) t) flds)"

fun write_fields :: "nat \<Rightarrow> Field list \<Rightarrow> bytes \<Rightarrow> bytes \<Rightarrow> bytes" where
  "write_fields c_idx [] c t = t"
| "write_fields c_idx (f # fs) c t =
     write_fields (c_idx + 1) fs c (overwrite (field_off f) (word_at (8 * c_idx) c) t)"

definition item_write_back :: "Field list \<Rightarrow> bytes \<Rightarrow> bytes \<Rightarrow> bytes" where
  "item_write_back flds c t = write_fields 0 flds c t"

definition item_key :: "bytes \<Rightarrow> usize" where
  "item_key t = of_nat (foldr (\<lambda>b acc. unat b + 256 * acc) (word_at 0 t) 0)"

definition item_to_cached_field :: "Field list \<Rightarrow> Field \<Rightarrow> Field option" where
  "item_to_cached_field flds f = map_option (\<lambda>i. from_span (i * 8) ((i + 1) * 8)) (position flds f)"

fun item_matches :: "Field list \<Rightarrow> FieldsMeta \<Rightarrow> bool" where
  "item_matches flds [] = True"
| "item_matches flds (f # fs) = (if position flds f = None then False else item_matches flds fs)"

text \<open>\<^verbatim>\<open>update_cached\<close>, with its debug assertion; \<^const>\<open>None\<close> is a panic or a read beyond the data.\<close>

fun item_update_loop :: "Field list \<Rightarrow> bytes \<Rightarrow> (Field \<times> nat) list \<Rightarrow> bytes \<Rightarrow> bytes option" where
  "item_update_loop flds data [] c = Some c"
| "item_update_loop flds data ((i, v) # rest) c =
     (case position flds i of
        Some idx \<Rightarrow>
          if field_size i = 8 then
            Option.bind (load_bytes v 8 data) (\<lambda>bs. item_update_loop flds data rest (overwrite (8 * idx) bs c))
          else None
      | None \<Rightarrow> item_update_loop flds data rest c)"

definition item_schema :: "Field list \<Rightarrow> Schema" where
  "item_schema flds =
     \<lparr> to_cached = item_to_cached flds, write_back = item_write_back flds, key = item_key,
       to_cached_field = item_to_cached_field flds, matches = item_matches flds,
       update_cached = (\<lambda>c q. item_update_loop flds (query_data q) (query_items q) c) \<rparr>"

text \<open>The fields the tests use: whole words of the tuple.\<close>

definition word_field :: "nat \<Rightarrow> Field" where
  "word_field k = from_span (k * 8) ((k + 1) * 8)"

definition item_fields_ok :: "Field list \<Rightarrow> nat \<Rightarrow> bool" where
  "item_fields_ok flds tz \<longleftrightarrow> distinct flds \<and> set flds \<subseteq> word_field ` {..<tz} \<and> tz < 8192"

definition TEST_FIELDS :: "Field list" where
  "TEST_FIELDS = [Field 0 8, Field 24 32, Field 72 80, Field 80 88]"

section \<open>The projection and its inverse, byte by byte\<close>

lemma from_span_simps:
  assumes "b < 65536" "a \<le> b"
  shows "field_off (from_span a b) = a" "field_size (from_span a b) = b - a"
proof -
  have "unat (of_nat a :: u16) = a" "unat (of_nat b :: u16) = b"
    using assms by (simp_all add: unsigned_of_nat take_bit_eq_mod)
  moreover from this have "(of_nat a :: u16) \<le> of_nat b"
    using assms by (simp add: word_le_nat_alt)
  ultimately show "field_off (from_span a b) = a" "field_size (from_span a b) = b - a"
    by (simp_all add: field_off_def field_size_def from_span_def unat_sub)
qed

lemma word_field_simps:
  assumes "k < 8191"
  shows "field_off (word_field k) = 8 * k" "field_size (word_field k) = 8"
  using assms by (simp_all add: word_field_def from_span_simps)

lemma word_field_inj:
  assumes "k < 8191" "k' < 8191" "word_field k = word_field k'"
  shows "k = k'"
proof -
  have "8 * k = 8 * k'"
    using word_field_simps(1) [OF assms(1)] word_field_simps(1) [OF assms(2)] assms(3) by metis
  then show ?thesis by simp
qed

lemma position_Some:
  "position fs f = Some i \<Longrightarrow> i < length fs \<and> fs ! i = f"
  by (induction fs arbitrary: i) (auto split: if_splits)

lemma position_None: "position fs f = None \<longleftrightarrow> f \<notin> set fs"
  by (induction fs) auto

lemma position_nth: "distinct fs \<Longrightarrow> i < length fs \<Longrightarrow> position fs (fs ! i) = Some i"
proof (induction fs arbitrary: i)
  case (Cons f fs)
  then show ?case by (cases i) auto
qed simp

lemma overwrite_nth:
  "off + length v \<le> length t \<Longrightarrow> j < length t \<Longrightarrow>
     overwrite off v t ! j = (if off \<le> j \<and> j < off + length v then v ! (j - off) else t ! j)"
  using store_bytes_nth [of off v t "overwrite off v t" j]
  by (simp add: overwrite_def store_bytes_def)

lemma overwrite_length: "off + length v \<le> length t \<Longrightarrow> length (overwrite off v t) = length t"
  by (simp add: overwrite_def)

lemma word_at_length: "off + 8 \<le> length t \<Longrightarrow> length (word_at off t) = 8"
  by (simp add: word_at_def)

lemma word_at_nth: "off + 8 \<le> length t \<Longrightarrow> j < 8 \<Longrightarrow> word_at off t ! j = t ! (off + j)"
  by (simp add: word_at_def)

lemma word_range: "8 * k \<le> j \<and> j < 8 * k + 8 \<longleftrightarrow> j div 8 = k"
  for j k :: nat
  by linarith

lemma word_rest: "j div 8 = k \<Longrightarrow> j - 8 * k = j mod 8"
  for j k :: nat
  using minus_mult_div_eq_mod [of j 8] by auto

lemma store_word:
  assumes "length xs = n" "8 * k + 8 \<le> n" "length v = 8"
  shows "\<exists>ys. store_bytes (8 * k) v xs = Some ys \<and> length ys = n
    \<and> (\<forall>j<n. ys ! j = (if j div 8 = k then v ! (j mod 8) else xs ! j))"
proof -
  obtain ys where ys: "store_bytes (8 * k) v xs = Some ys"
    using assms by (auto simp: store_bytes_def)
  then show ?thesis
    using store_bytes_length [OF ys] store_bytes_nth [OF ys] assms
    by (simp add: word_range word_rest)
qed

text \<open>Byte \<open>j\<close> lies in word \<open>j div 8\<close>; it comes from the cached part if that word is cached.\<close>

lemma write_fields_nth:
  assumes "distinct fs" "set fs \<subseteq> word_field ` {..<tz}" "tz < 8192"
    and "length t = 8 * tz" "8 * (n + length fs) \<le> length c"
  shows "length (write_fields n fs c t) = 8 * tz
    \<and> (\<forall>j<8 * tz. write_fields n fs c t ! j =
        (case position fs (word_field (j div 8)) of
           None \<Rightarrow> t ! j | Some i \<Rightarrow> c ! (8 * (n + i) + j mod 8)))"
  using assms
proof (induction fs arbitrary: n t)
  case (Cons f fs)
  obtain k where k: "k < tz" "f = word_field k" "k < 8191"
    using Cons.prems(2,3) by auto
  let ?w = "word_at (8 * n) c" and ?t = "overwrite (field_off f) (word_at (8 * n) c) t"
  have off: "field_off f = 8 * k" and w: "length ?w = 8"
    using k Cons.prems(5) by (simp_all add: word_field_simps word_at_length)
  have fits: "8 * k + 8 \<le> 8 * tz"
    using k(1) by simp
  have t: "length ?t = 8 * tz"
    using fits off w Cons.prems(4) by (simp add: overwrite_length)
  have IH: "length (write_fields (n + 1) fs c ?t) = 8 * tz
    \<and> (\<forall>j<8 * tz. write_fields (n + 1) fs c ?t ! j =
        (case position fs (word_field (j div 8)) of
           None \<Rightarrow> ?t ! j | Some i \<Rightarrow> c ! (8 * (n + 1 + i) + j mod 8)))"
    using Cons.prems t by (intro Cons.IH) auto
  have here: "?t ! j = (if j div 8 = k then c ! (8 * n + j mod 8) else t ! j)" if "j < 8 * tz" for j
  proof -
    show ?thesis
      using that fits off w Cons.prems(4,5)
      by (simp add: overwrite_nth word_at_nth word_range word_rest)
  qed
  have "write_fields n (f # fs) c t ! j =
        (case position (f # fs) (word_field (j div 8)) of
           None \<Rightarrow> t ! j | Some i \<Rightarrow> c ! (8 * (n + i) + j mod 8))" if j: "j < 8 * tz" for j
  proof (cases "j div 8 = k")
    case True
    then have "position fs (word_field (j div 8)) = None"
      using Cons.prems(1) k(2) by (simp add: position_None)
    then show ?thesis
      using IH j here [OF j] True k(2) by simp
  next
    case False
    have "j div 8 < 8191"
      using j Cons.prems(3) by (simp add: less_mult_imp_div_less)
    then have "f \<noteq> word_field (j div 8)"
      using False k word_field_inj by metis
    then show ?thesis
      using IH j here [OF j] False
      by (cases "position fs (word_field (j div 8))") (simp_all add: add.assoc add.left_commute)
  qed
  then show ?case
    using IH by simp
qed simp

lemma item_to_cached_length:
  assumes "set fs \<subseteq> word_field ` {..<tz}" "tz < 8192" "length t = 8 * tz"
  shows "length (item_to_cached fs t) = 8 * length fs"
  using assms(1)
proof (induction fs)
  case (Cons f fs)
  then obtain k where "k < tz" "f = word_field k"
    by auto
  then have "length (word_at (8 * (field_off f div 8)) t) = 8"
    using assms(2,3) by (intro word_at_length) (simp add: word_field_simps)
  then show ?case
    using Cons by (simp add: item_to_cached_def)
qed (simp add: item_to_cached_def)

lemma item_to_cached_nth:
  assumes "set fs \<subseteq> word_field ` {..<tz}" "tz < 8192" "length t = 8 * tz"
    and "i < length fs" "b < 8"
  shows "item_to_cached fs t ! (8 * i + b) = t ! (field_off (fs ! i) + b)"
  using assms(1,4)
proof (induction fs arbitrary: i)
  case (Cons f fs)
  then obtain k where k: "k < tz" "f = word_field k"
    by auto
  then have off: "8 * (field_off f div 8) = field_off f" "field_off f + 8 \<le> length t"
    using assms(2,3) by (simp_all add: word_field_simps)
  then have w: "length (word_at (field_off f) t) = 8"
    by (simp add: word_at_length)
  show ?case
  proof (cases i)
    case 0
    then show ?thesis
      using off w assms(5) by (simp add: item_to_cached_def nth_append word_at_nth)
  next
    case (Suc i')
    then have "item_to_cached fs t ! (8 * i' + b) = t ! (field_off (fs ! i') + b)"
      using Cons by simp
    then show ?thesis
      using Suc off w by (simp add: item_to_cached_def nth_append)
  qed
qed simp

section \<open>The contract of the item schema\<close>

lemma item_schema_simps [simp]:
  "to_cached (item_schema flds) = item_to_cached flds"
  "write_back (item_schema flds) = item_write_back flds"
  "to_cached_field (item_schema flds) = item_to_cached_field flds"
  "matches (item_schema flds) = item_matches flds"
  "key (item_schema flds) = item_key"
  by (simp_all add: item_schema_def)

lemma item_matches_iff: "item_matches flds q \<longleftrightarrow> (\<forall>f\<in>set q. item_to_cached_field flds f \<noteq> None)"
  by (induction q) (auto simp: item_to_cached_field_def)

locale item_words =
  fixes flds :: "Field list" and tz :: nat
  assumes ok: "item_fields_ok flds tz"
begin

lemma flds: "distinct flds" "set flds \<subseteq> word_field ` {..<tz}" "tz < 8192"
  using ok by (simp_all add: item_fields_ok_def)

lemma few_flds: "length flds \<le> tz"
  using flds card_mono [of "word_field ` {..<tz}" "set flds"] card_image_le [of "{..<tz}" word_field]
  by (simp add: distinct_card)

lemma item_field_simps:
  assumes "k < tz"
  shows "field_off (word_field k) = 8 * k" "field_size (word_field k) = 8"
  using assms flds(3) by (simp_all add: word_field_simps)

lemma cached_field_simps:
  assumes "item_to_cached_field flds f = Some g"
  obtains i where "position flds f = Some i" "i < length flds" "field_off g = 8 * i" "field_size g = 8"
proof -
  obtain i where i: "position flds f = Some i" "g = word_field i"
    using assms by (auto simp: item_to_cached_field_def word_field_def)
  moreover have "i < length flds"
    using i position_Some by blast
  ultimately show ?thesis
    using that item_field_simps [of i] few_flds by simp
qed

lemma item_write_back_nth:
  assumes "length t = 8 * tz" "length c = 8 * length flds" "j < 8 * tz"
  shows "item_write_back flds c t ! j =
    (case position flds (word_field (j div 8)) of None \<Rightarrow> t ! j | Some i \<Rightarrow> c ! (8 * i + j mod 8))"
  using write_fields_nth [OF flds assms(1), of 0 c] assms(2,3)
  by (simp add: item_write_back_def split: option.split)

lemma item_write_back_length:
  assumes "length t = 8 * tz" "length c = 8 * length flds"
  shows "length (item_write_back flds c t) = 8 * tz"
  using write_fields_nth [OF flds assms(1), of 0 c] assms(2) by (simp add: item_write_back_def)

lemma item_field_byte:
  assumes "k < tz" "b < 8" "length t = 8 * tz" "length c = 8 * length flds"
  shows "item_write_back flds c t ! (8 * k + b) =
    (case position flds (word_field k) of None \<Rightarrow> t ! (8 * k + b) | Some i \<Rightarrow> c ! (8 * i + b))"
  using assms by (subst item_write_back_nth) (auto split: option.split)

lemma item_inverse:
  assumes "length t = 8 * tz"
  shows "item_write_back flds (item_to_cached flds t) t = t"
proof (rule bytes_eqI)
  note len = item_to_cached_length [OF flds(2,3) assms]
  show "length (item_write_back flds (item_to_cached flds t) t) = length t"
    using item_write_back_length [OF assms len] assms by simp
  fix j
  assume "j < length (item_write_back flds (item_to_cached flds t) t)"
  then have j: "j < 8 * tz"
    using item_write_back_length [OF assms len] by simp
  then have k: "j div 8 < tz"
    by (simp add: less_mult_imp_div_less mult.commute)
  show "item_write_back flds (item_to_cached flds t) t ! j = t ! j"
  proof (cases "position flds (word_field (j div 8))")
    case (Some i)
    then have "i < length flds" "field_off (flds ! i) = 8 * (j div 8)"
      using position_Some [OF Some] item_field_simps [OF k] by simp_all
    then show ?thesis
      using Some item_to_cached_nth [OF flds(2,3) assms, of i "j mod 8"]
      by (simp add: item_write_back_nth [OF assms len j])
  qed (simp add: item_write_back_nth [OF assms len j])
qed

lemma item_load:
  assumes "k < tz" "length t = 8 * tz" "length c = 8 * length flds"
  shows "load_bytes (8 * k) 8 (item_write_back flds c t) =
    (case position flds (word_field k) of None \<Rightarrow> load_bytes (8 * k) 8 t
     | Some i \<Rightarrow> load_bytes (8 * i) 8 c)"
proof -
  have in_t: "8 * k + 8 \<le> 8 * tz"
    using assms(1) by simp
  have in_c: "8 * i + 8 \<le> length c" if "position flds (word_field k) = Some i" for i
    using position_Some [OF that] assms(3) by simp
  have in_w: "8 * k + 8 \<le> length (item_write_back flds c t)"
    using in_t assms by (simp add: item_write_back_length)
  show ?thesis
    using in_t in_c assms item_field_byte [OF assms(1) _ assms(2,3)]
    by (cases "position flds (word_field k)")
      (simp_all add: load_bytes_map [OF in_w] load_bytes_map)
qed

lemma item_store_uncached:
  assumes k: "k < tz" and t: "length t = 8 * tz" and c: "length c = 8 * length flds" and v: "length v = 8"
    and p: "position flds (word_field k) = None"
  shows "store_bytes (8 * k) v (item_write_back flds c t)
    = map_option (item_write_back flds c) (store_bytes (8 * k) v t)"
proof -
  note wl = item_write_back_length [OF t c]
  have in_t: "8 * k + 8 \<le> 8 * tz"
    using k by simp
  obtain ys where ys: "store_bytes (8 * k) v (item_write_back flds c t) = Some ys" "length ys = 8 * tz"
    "\<forall>j<8 * tz. ys ! j = (if j div 8 = k then v ! (j mod 8) else item_write_back flds c t ! j)"
    using store_word [OF wl in_t v] by blast
  obtain t' where t': "store_bytes (8 * k) v t = Some t'" "length t' = 8 * tz"
    "\<forall>j<8 * tz. t' ! j = (if j div 8 = k then v ! (j mod 8) else t ! j)"
    using store_word [OF t in_t v] by blast
  have "ys = item_write_back flds c t'"
    using ys(2,3) t'(2,3) p
    by (intro bytes_eqI)
      (auto simp: item_write_back_length [OF _ c] item_write_back_nth [OF _ c] t split: option.split)
  then show ?thesis by (simp add: ys t')
qed

lemma item_store_cached:
  assumes k: "k < tz" and t: "length t = 8 * tz" and c: "length c = 8 * length flds" and v: "length v = 8"
    and p: "position flds (word_field k) = Some i"
  shows "store_bytes (8 * k) v (item_write_back flds c t)
    = map_option (\<lambda>c'. item_write_back flds c' t) (store_bytes (8 * i) v c)"
proof -
  note wl = item_write_back_length [OF t c]
  have i: "i < length flds" "flds ! i = word_field k"
    using position_Some [OF p] by simp_all
  have in_t: "8 * k + 8 \<le> 8 * tz" and in_c: "8 * i + 8 \<le> 8 * length flds"
    using k i(1) by simp_all
  obtain ys where ys: "store_bytes (8 * k) v (item_write_back flds c t) = Some ys" "length ys = 8 * tz"
    "\<forall>j<8 * tz. ys ! j = (if j div 8 = k then v ! (j mod 8) else item_write_back flds c t ! j)"
    using store_word [OF wl in_t v] by blast
  obtain c' where c': "store_bytes (8 * i) v c = Some c'" "length c' = 8 * length flds"
    "\<forall>j<8 * length flds. c' ! j = (if j div 8 = i then v ! (j mod 8) else c ! j)"
    using store_word [OF c in_c v] by blast
  have same: "i' = i \<longleftrightarrow> j div 8 = k" if "position flds (word_field (j div 8)) = Some i'" "j < 8 * tz" for i' j
  proof -
    have "j div 8 < tz"
      using that(2) by (simp add: less_mult_imp_div_less mult.commute)
    then show ?thesis
      using that p position_Some [OF that(1)] i word_field_inj [of "j div 8" k] k flds(3) by auto
  qed
  have "8 * i' + j mod 8 < 8 * length flds" if "position flds (word_field (j div 8)) = Some i'" for i' j
    using position_Some [OF that] by auto
  then have "ys = item_write_back flds c' t"
    using ys(2,3) c'(2,3) p same
    by (intro bytes_eqI)
      (auto simp: item_write_back_length [OF t] item_write_back_nth [OF t] c split: option.split)
  then show ?thesis by (simp add: ys c')
qed

end

sublocale item_words \<subseteq> items: schema_laws "item_schema flds" "8 * tz" "8 * length flds" "\<lambda>f. f \<in> word_field ` {..<tz}"
proof (unfold_locales, unfold item_schema_simps)
  fix q t c
  show "item_matches flds q \<longleftrightarrow> (\<forall>f\<in>set q. item_to_cached_field flds f \<noteq> None)"
    by (rule item_matches_iff)
  show "length (item_to_cached flds t) = 8 * length flds" if "length t = 8 * tz"
    by (rule item_to_cached_length [OF flds(2,3) that])
  show "length (item_write_back flds c t) = 8 * tz" if "length t = 8 * tz" "length c = 8 * length flds"
    by (rule item_write_back_length [OF that])
  show "item_write_back flds (item_to_cached flds t) t = t" if "length t = 8 * tz"
    by (rule item_inverse [OF that])
next
  fix f
  assume "f \<in> word_field ` {..<tz}"
  then obtain k where k: "k < tz" "f = word_field k" by auto
  note fs = item_field_simps [OF k(1), folded k(2)]
  show "field_off f + field_size f \<le> 8 * tz"
    using k(1) by (simp add: fs)
  fix t c :: bytes
  assume t: "length t = 8 * tz" and c: "length c = 8 * length flds"
  show "load_bytes (field_off f) (field_size f) (item_write_back flds c t)
      = load_bytes (field_off f) (field_size f) t" if "item_to_cached_field flds f = None"
    using that item_load [OF k(1) t c]
    by (simp add: fs k(2) [symmetric] item_to_cached_field_def)
  show "store_bytes (field_off f) v (item_write_back flds c t)
      = map_option (item_write_back flds c) (store_bytes (field_off f) v t)"
    if "item_to_cached_field flds f = None" "length v = field_size f" for v
    using that item_store_uncached [OF k(1) t c, of v]
    by (simp add: fs k(2) [symmetric] item_to_cached_field_def)
next
  fix f g
  assume f: "f \<in> word_field ` {..<tz}" and g: "item_to_cached_field flds f = Some g"
  then obtain k where k: "k < tz" "f = word_field k" by auto
  note fs = item_field_simps [OF k(1), folded k(2)]
  obtain i where i: "position flds f = Some i" "i < length flds" "field_off g = 8 * i" "field_size g = 8"
    using g by (rule cached_field_simps)
  show "field_size g = field_size f \<and> field_off g + field_size g \<le> 8 * length flds"
    using i by (simp add: fs)
  fix t c :: bytes
  assume t: "length t = 8 * tz" and c: "length c = 8 * length flds"
  show "load_bytes (field_off f) (field_size f) (item_write_back flds c t)
      = load_bytes (field_off g) (field_size f) c"
    using i item_load [OF k(1) t c] by (simp add: fs k(2) [symmetric])
  show "store_bytes (field_off f) v (item_write_back flds c t)
      = map_option (\<lambda>c'. item_write_back flds c' t) (store_bytes (field_off g) v c)"
    if "length v = field_size f" for v
    using that i item_store_cached [OF k(1) t c, of v i] by (simp add: fs k(2) [symmetric])
qed

text \<open>The schema of the cache and table tests: words 0, 3, 9 and 10 of 16.\<close>

interpretation test_item: item_words TEST_FIELDS 16
proof
  have "map word_field [0, 3, 9, 10] = TEST_FIELDS"
    by (simp add: TEST_FIELDS_def word_field_def from_span_def)
  then have "set TEST_FIELDS = word_field ` set [0, 3, 9, 10]"
    by (metis set_map)
  also have "\<dots> \<subseteq> word_field ` {..<16}"
    by (intro image_mono) simp
  finally have "set TEST_FIELDS \<subseteq> word_field ` {..<16}" .
  moreover have "distinct TEST_FIELDS"
    by (simp add: TEST_FIELDS_def)
  ultimately show "item_fields_ok TEST_FIELDS 16"
    by (simp add: item_fields_ok_def)
qed

lemmas test_schema_laws = test_item.items.schema_laws_axioms

end
