(* ===== verification/Clock_Cache.thy ===== *)
theory Clock_Cache
  imports Cache_Inner Table_Storage Item_Schema
begin

text \<open>
  \<^verbatim>\<open>src/attribute_cache/clock_cache/mod.rs\<close>: the attribute cache over the table storage. A row is found
  through its object id: it is in the storage alone, or a cached part is in a slot and the rest
  in the storage. The functions take the guard of a row as the row id; the guard's lock is the lock
  byte of its word.
\<close>

section \<open>Definitions\<close>

text \<open>The third-party code the cache relies on: thread-local cells, hash maps and random draws.\<close>

record ('l, 'm) world =
  w_tls :: "(tid, u32, 'l) hash_map"
  w_ops :: "(tid, nat, 'm) hash_map"
  w_rng :: "nat \<Rightarrow> rat \<Rightarrow> bool"

record ('l, 'm) ClockCache =
  inner :: "'l CacheInner"
  storage :: Storage
  oid_array :: "'m OidArray"
  schema :: Schema

text \<open>
  \<^verbatim>\<open>new\<close>. The sizes of a cached item, of a slot and of a tuple are those of the schema's types; \<open>ptr\<close>
  and \<open>m\<close> are the block of the object ids, \<open>frame\<close> the frame of the tuples. \<^const>\<open>None\<close> is a panic; so is a division by 0.
\<close>

definition cache_new ::
  "('l, 'm) world \<Rightarrow> nat \<Rightarrow> nat \<Rightarrow> nat \<Rightarrow> addr \<Rightarrow> memory \<Rightarrow> (nat \<Rightarrow> bytes)
    \<Rightarrow> nat \<Rightarrow> nat \<Rightarrow> rat \<Rightarrow> nat \<Rightarrow> Schema \<Rightarrow> ('l, 'm) ClockCache option" where
  "cache_new W fsz node_size tsz ptr m frame cache_size plen prng storage_size S =
     (case inner_new (w_tls W) fsz node_size cache_size prng plen of
        None \<Rightarrow> None
      | Some I \<Rightarrow>
          if tsz = 0 then None else
          let tuple_cnt = storage_size div tsz
          in case oid_array_new (w_ops W) tuple_cnt ptr m of
               None \<Rightarrow> None
             | Some O' \<Rightarrow>
                 let st = storage_new frame (oid_capacity O')
                 in Some \<lparr> inner = I, storage = st, oid_array = O', schema = S \<rparr>)"

definition cache_reset :: "('l, 'm) world \<Rightarrow> ('l, 'm) ClockCache \<Rightarrow> ('l, 'm) ClockCache option" where
  "cache_reset W C =
     map_option (\<lambda>O'. C\<lparr> oid_array := O', inner := inner_reset (inner C) \<rparr>) (oid_array_reset (w_ops W) (oid_array C))"

definition cache_thread_init :: "('l, 'm) world \<Rightarrow> (u32 \<Rightarrow> u32) \<Rightarrow> tid \<Rightarrow> ('l, 'm) ClockCache \<Rightarrow> ('l, 'm) ClockCache" where
  "cache_thread_init W pick t C = C\<lparr> inner := thread_init (w_tls W) pick t (inner C) \<rparr>"

text \<open>Dropping a guard.\<close>

definition drop_write :: "Rid \<Rightarrow> 'm OidArray \<Rightarrow> 'm OidArray" where
  "drop_write r O' = set_sync O' r (write_unlock (get_sync O' r))"

definition drop_read :: "Rid \<Rightarrow> 'm OidArray \<Rightarrow> 'm OidArray" where
  "drop_read r O' = set_sync O' r (read_unlock (get_sync O' r))"

text \<open>The evicted node is written back to its tuple, then its guard is dropped.\<close>

definition evict_back :: "Schema \<Rightarrow> ClockNode option \<Rightarrow> Storage \<Rightarrow> 'm OidArray \<Rightarrow> (Storage \<times> 'm OidArray) outcome" where
  "evict_back S old st O' =
     (case old of
        None \<Rightarrow> Done (st, O')
      | Some e \<Rightarrow>
          (case storage_get_mut st (clock_rid e) of
             Done i \<Rightarrow> Done (set_row i (write_back S (node_val e) (rows st i)) st, drop_write (clock_rid e) O')
           | Fail x \<Rightarrow> Fail x
           | Panic \<Rightarrow> Panic))"

text \<open>\<^verbatim>\<open>insert\<close> returns the new row id, write-locked.\<close>

definition cache_insert ::
  "('l, 'm) world \<Rightarrow> tid \<Rightarrow> (nat \<Rightarrow> bool \<times> bool) \<Rightarrow> bytes \<Rightarrow> ('l, 'm) ClockCache
    \<Rightarrow> (Rid \<times> ('l, 'm) ClockCache) outcome option" where
  "cache_insert W t spur val C =
     (case alloc_rid (w_ops W) t (oid_array C) of
        None \<Rightarrow> None
      | Some (Done (rid, O1)) \<Rightarrow>
          let cached_item = to_cached (schema C) val
          in (case inner_insert (w_tls W) (w_rng W) t spur rid cached_item (inner C) O1 of
                None \<Rightarrow> Some Panic
              | Some (old, I2, O2) \<Rightarrow>
                  (case evict_back (schema C) old (storage C) O2 of
                     Done (st1, O3) \<Rightarrow>
                       (case storage_insert rid val st1 of
                          Done st2 \<Rightarrow> Some (Done (rid, C\<lparr> inner := I2, storage := st2, oid_array := O3 \<rparr>))
                        | _ \<Rightarrow> Some Panic)
                   | _ \<Rightarrow> Some Panic))
      | Some _ \<Rightarrow> Some Panic)"

text \<open>
  The query value of a slot: with the tuple, unless the cached part has every field of the query.
\<close>

type_synonym row_value = "(nat, nat) QueryValue"

definition entry_value :: "('l, 'm) ClockCache \<Rightarrow> nat \<Rightarrow> FieldsMeta \<Rightarrow> row_value outcome" where
  "entry_value C i query =
     (if matches (schema C) query then Done (new_value (Some i) None)
      else case storage_get (storage C) (clock_rid (entries (inner C) ! i)) of
             Done tuple \<Rightarrow> Done (new_value (Some i) (Some tuple))
           | Fail x \<Rightarrow> Fail x
           | Panic \<Rightarrow> Panic)"

definition cache_read ::
  "('l, 'm) world \<Rightarrow> Rid \<Rightarrow> FieldsMeta \<Rightarrow> ('l, 'm) ClockCache \<Rightarrow> row_value outcome \<times> ('l, 'm) ClockCache" where
  "cache_read W oid query C =
     (case inner_read (w_rng W) oid (inner C) (oid_array C) of
        (Inr i, I1) \<Rightarrow> let C1 = C\<lparr> inner := I1 \<rparr> in (entry_value C1 i query, C1)
      | (Inl rid, I1) \<Rightarrow>
          let C1 = C\<lparr> inner := I1 \<rparr>
          in (case storage_get (storage C) rid of
                Done tuple \<Rightarrow> Done (new_value None (Some tuple))
              | Fail x \<Rightarrow> Fail x
              | Panic \<Rightarrow> Panic, C1))"

text \<open>
  \<^verbatim>\<open>read_and_promote\<close>, its miss path first. The prefetch it awaits has no effect on the state; the caller's write guard is
  held meanwhile.
\<close>

definition touch_entry :: "('l, 'm) world \<Rightarrow> nat \<Rightarrow> 'l CacheInner \<Rightarrow> 'l CacheInner" where
  "touch_entry W i I =
     (set_entry i (node_set_ref (w_rng W) (draws I) (probe_rng I) (entries I ! i)) I)\<lparr> draws := draws I + 1 \<rparr>"

definition promote_miss ::
  "('l, 'm) world \<Rightarrow> tid \<Rightarrow> (nat \<Rightarrow> bool \<times> bool) \<Rightarrow> Rid \<Rightarrow> Rid \<Rightarrow> FieldsMeta \<Rightarrow> ('l, 'm) ClockCache
    \<Rightarrow> row_value outcome \<times> ('l, 'm) ClockCache" where
  "promote_miss W t spur oid rid query C =
     (let tuple_rid = to_rid (get_sync (oid_array C) oid)
      in if tuple_rid \<noteq> rid then (Panic, C)
         else case storage_get (storage C) tuple_rid of
           Done tuple \<Rightarrow>
             if probe_len (inner C) = 0 then (Done (new_value None (Some tuple)), C)
             else
               let cached_item = to_cached (schema C) (rows (storage C) tuple);
                   new_node = node_new cached_item tuple_rid
               in (case probe_and_replace_rng (w_tls W) (w_rng W) t spur new_node tuple_rid
                          (probe_rng (inner C)) (inner C) (oid_array C) of
                     (Some (new_loc, old), I2, O2) \<Rightarrow>
                       let I3 = touch_entry W new_loc I2
                       in (case evict_back (schema C) old (storage C) O2 of
                             Done (st, O3) \<Rightarrow>
                               let C2 = C\<lparr> inner := I3, storage := st, oid_array := O3 \<rparr>
                               in (entry_value C2 new_loc query, C2)
                           | _ \<Rightarrow> (Panic, C\<lparr> inner := I3, oid_array := O2 \<rparr>))
                   | (None, I2, O2) \<Rightarrow> (Done (new_value None (Some tuple)), C\<lparr> inner := I2, oid_array := O2 \<rparr>))
         | _ \<Rightarrow> (Panic, C))"

definition read_and_promote ::
  "('l, 'm) world \<Rightarrow> tid \<Rightarrow> (nat \<Rightarrow> bool \<times> bool) \<Rightarrow> Rid \<Rightarrow> FieldsMeta \<Rightarrow> ('l, 'm) ClockCache
    \<Rightarrow> row_value outcome \<times> ('l, 'm) ClockCache" where
  "read_and_promote W t spur oid query C =
     (case inner_read (w_rng W) oid (inner C) (oid_array C) of
        (Inr i, I1) \<Rightarrow> let C1 = C\<lparr> inner := I1 \<rparr> in (entry_value C1 i query, C1)
      | (Inl rid, I1) \<Rightarrow> promote_miss W t spur oid rid query (C\<lparr> inner := I1 \<rparr>))"

text \<open>The four lock functions; the asynchronous ones prefetch the word first.\<close>

definition read_lock_sync :: "bool \<Rightarrow> Rid \<Rightarrow> ('l, 'm) ClockCache \<Rightarrow> (TransactionError + unit) \<times> ('l, 'm) ClockCache" where
  "read_lock_sync spurious rid C =
     (let ptr = get_sync (oid_array C) rid; (res, w) = try_read spurious ptr ptr
      in (res, C\<lparr> oid_array := set_sync (oid_array C) rid w \<rparr>))"

definition read_lock :: "bool \<Rightarrow> Rid \<Rightarrow> ('l, 'm) ClockCache \<Rightarrow> (TransactionError + unit) \<times> ('l, 'm) ClockCache" where
  "read_lock spurious rid C =
     (let ptr = get_sync (oid_array C) rid; (res, w) = try_read spurious ptr ptr
      in (res, C\<lparr> oid_array := set_sync (oid_array C) rid w \<rparr>))"

definition write_lock_sync :: "bool \<Rightarrow> Rid \<Rightarrow> ('l, 'm) ClockCache \<Rightarrow> (TransactionError + unit) \<times> ('l, 'm) ClockCache" where
  "write_lock_sync spurious rid C =
     (let ptr = get_sync (oid_array C) rid; (res, w) = try_write spurious ptr ptr
      in (res, C\<lparr> oid_array := set_sync (oid_array C) rid w \<rparr>))"

definition write_lock :: "bool \<Rightarrow> Rid \<Rightarrow> ('l, 'm) ClockCache \<Rightarrow> (TransactionError + unit) \<times> ('l, 'm) ClockCache" where
  "write_lock spurious rid C =
     (let ptr = get_sync (oid_array C) rid; (res, w) = try_write spurious ptr ptr
      in (res, C\<lparr> oid_array := set_sync (oid_array C) rid w \<rparr>))"

text \<open>The caller's accesses through a query value: reading a field, and assigning to the place of a field.\<close>

definition slot_val :: "('l, 'm) ClockCache \<Rightarrow> nat \<Rightarrow> bytes" where
  "slot_val C i = node_val (entries (inner C) ! i)"

definition tuple_val :: "('l, 'm) ClockCache \<Rightarrow> nat \<Rightarrow> bytes" where
  "tuple_val C i = rows (storage C) i"

definition field_value :: "('l, 'm) ClockCache \<Rightarrow> row_value \<Rightarrow> Field \<Rightarrow> access_error + bytes" where
  "field_value C q f = get_value (slot_val C) (tuple_val C) (schema C) q f (field_size f)"

definition assign :: "row_value \<Rightarrow> Field \<Rightarrow> bytes \<Rightarrow> ('l, 'm) ClockCache \<Rightarrow> access_error + ('l, 'm) ClockCache" where
  "assign q f v C =
     (case get_value_mut (schema C) q f of
        Inl e \<Rightarrow> Inl e
      | Inr (In_Field i off) \<Rightarrow>
          (case store_bytes off v (slot_val C i) of
             None \<Rightarrow> Inl Out_Of_Bounds
           | Some b \<Rightarrow> Inr (C\<lparr> inner := set_entry i ((entries (inner C) ! i)\<lparr> node_val := b \<rparr>) (inner C) \<rparr>))
      | Inr (In_Tuple i off) \<Rightarrow>
          (case store_bytes off v (tuple_val C i) of
             None \<Rightarrow> Inl Out_Of_Bounds
           | Some b \<Rightarrow> Inr (C\<lparr> storage := set_row i b (storage C) \<rparr>)))"

section \<open>The invariant and the logical content\<close>

definition cache_inv ::
  "('l, 'm) world \<Rightarrow> nat \<Rightarrow> nat \<Rightarrow> ('l, 'm) ClockCache \<Rightarrow> Rid set \<Rightarrow> bool" where
  "cache_inv W tsz csz C R \<longleftrightarrow> inner_inv (w_tls W) (w_ops W) csz (inner C) (oid_array C) R
     \<and> st_cap (storage C) = oid_capacity (oid_array C)
     \<and> (\<forall>i < st_cap (storage C). length (rows (storage C) i) = tsz)"

text \<open>What row \<open>r\<close> holds.\<close>

definition cached_of :: "('l, 'm) ClockCache \<Rightarrow> Rid \<Rightarrow> bytes option" where
  "cached_of C r = cached_part (inner C) (oid_array C) r"

definition view :: "('l, 'm) ClockCache \<Rightarrow> Rid \<Rightarrow> bytes" where
  "view C r = logical (schema C) (cached_of C r) (row_of (storage C) r)"

definition lock_of :: "('l, 'm) ClockCache \<Rightarrow> Rid \<Rightarrow> nat" where
  "lock_of C r = lock_byte (get_sync (oid_array C) r)"

definition same_rows :: "Rid set \<Rightarrow> ('l, 'm) ClockCache \<Rightarrow> ('l, 'm) ClockCache \<Rightarrow> bool" where
  "same_rows R C C1 \<longleftrightarrow> (\<forall>r\<in>R. view C1 r = view C r \<and> lock_of C1 r = lock_of C r)"

section \<open>Eviction\<close>

lemma cached_part_length:
  assumes inv: "inner_inv tls ops csz I O' R" and r: "r \<in> R" and c: "cached_part I O' r = Some b"
  shows "length b = csz"
proof -
  obtain i where i: "oid_ref_of (get_sync O' r) = Slot i" "b = node_val (entries I ! i)"
    using c by (auto simp: cached_part_def split: oid_ref.splits)
  then have "i < length (entries I)" "node_rid (entries I ! i) = as_u32 r"
    using row_ok_slot [OF inner_inv_rows(1) [OF inv r]] by blast+
  moreover have "as_u32 r \<noteq> U32_MAX"
    using inv r oid_inv_rid(1) by (auto simp: inner_inv_def U32_MAX_def)
  ultimately show ?thesis
    using inv i by (auto simp: inner_inv_def slot_ok_def)
qed

lemma in_storage:
  assumes "inner_inv tls ops csz I O' R" "r \<in> R" "st_cap st = oid_capacity O'"
  shows "unat (as_u32 r) < st_cap st"
  using assms oid_inv_rid(2) [of ops O' R r] by (simp add: inner_inv_def)

text \<open>After the eviction is settled, every row but \<open>r\<close> holds what it held, with the same lock.\<close>

definition settled ::
  "Schema \<Rightarrow> Rid set \<Rightarrow> Rid \<Rightarrow> 'l CacheInner \<Rightarrow> 'm OidArray \<Rightarrow> Storage \<Rightarrow> 'l CacheInner \<Rightarrow> 'm OidArray \<Rightarrow> Storage \<Rightarrow> bool"
  where
  "settled S R r I O' st I1 O1 st1 \<longleftrightarrow> st_cap st1 = st_cap st \<and> row_of st1 r = row_of st r
     \<and> oid_capacity O1 = oid_capacity O'
     \<and> (\<forall>i. length (rows st1 i) = length (rows st i))
     \<and> (\<forall>r'\<in>R - {r}. logical S (cached_part I1 O1 r') (row_of st1 r') = logical S (cached_part I O' r') (row_of st r')
          \<and> lock_byte (get_sync O1 r') = lock_byte (get_sync O' r'))"

lemma evict_back_spec:
  assumes laws: "schema_laws S tsz csz proper" and inv: "inner_inv tls ops csz I O' R"
    and ok: "round_ok tls ops csz R r v I O' (Some (i, old)) I1 O1" and r: "r \<in> R"
    and st: "st_cap st = oid_capacity O'" "\<forall>i < st_cap st. length (rows st i) = tsz"
  shows "\<exists>st1 O2. evict_back S old st O1 = Done (st1, O2) \<and> inner_inv tls ops csz I1 O2 R
    \<and> settled S R r I O' st I1 O2 st1 \<and> get_sync O2 r = get_sync O1 r"
proof (cases old)
  case None
  then have "settled S R r I O' st I1 O1 st"
    using ok by (simp add: round_ok_def probed_def settled_def same_row_def)
  then show ?thesis
    using ok None by (simp add: evict_back_def round_ok_def)
next
  case (Some e)
  have ok': "inner_inv tls ops csz I1 O1 R" "oid_capacity O1 = oid_capacity O'"
    using ok by (simp_all add: round_ok_def)
  obtain cr where cr: "cr \<in> R - {r}" "evicted I O' O1 e cr" and same: "\<forall>r'\<in>R - {r, cr}. same_row I O' I1 O1 r'"
    using ok Some by (auto simp: round_ok_def probed_def)
  have ev: "clock_rid e = cr" "cached_part I O' cr = Some (node_val e)" "lock_byte (get_sync O' cr) = 0"
    "lock_byte (get_sync O1 cr) = 128" "oid_ref_of (get_sync O1 cr) = Row cr"
    using cr(2) by (simp_all add: evicted_def)
  have crR: "cr \<in> R" "cr \<noteq> r"
    using cr(1) by simp_all
  let ?w = "write_unlock (get_sync O1 cr)" and ?i = "unat (as_u32 cr)"
  let ?O = "set_sync O1 cr ?w" and ?t = "write_back S (node_val e) (row_of st cr)"
  let ?st = "set_row ?i ?t st"
  have w: "oid_wf ?w" "oid_ref_of ?w = oid_ref_of (get_sync O1 cr)" "lock_byte ?w = 0"
    using ev(4) inner_inv_rows(2) [OF ok'(1) crR(1)]
    by (simp_all add: write_unlock_def fetch_sub_def oid_simps)
  note set = inner_inv_set_word [OF ok'(1) crR(1) w(1,2)]
  have "?i < st_cap st"
    using in_storage [OF inv crR(1) st(1)] .
  then have "evict_back S old st O1 = Done (?st, ?O)"
    by (simp add: Some evict_back_def storage_get_mut_def Let_def ev(1) drop_write_def row_of_def)
  moreover have "settled S R r I O' st I1 ?O ?st"
  proof -
    have t: "length ?t = tsz"
      using schema_laws.write_back_length [OF laws] st(2) cached_part_length [OF inv crR(1) ev(2)] \<open>?i < st_cap st\<close>
      by (simp add: row_of_def)
    have "cached_part I1 ?O cr = None"
      using ev(5) w(2) by (simp add: cached_part_def)
    then have "logical S (cached_part I1 ?O r') (row_of ?st r') = logical S (cached_part I O' r') (row_of st r')
        \<and> lock_byte (get_sync ?O r') = lock_byte (get_sync O' r')" if "r' \<in> R - {r}" for r'
      using that same w(3) ev(2,3) set(2) by (cases "r' = cr") (simp_all add: row_of_set_row logical_def same_row_def)
    then show ?thesis
      using t crR st(2) ok'(2) \<open>?i < st_cap st\<close> by (simp add: settled_def row_of_set_row)
  qed
  ultimately show ?thesis
    using set(1) crR by auto
qed

lemma settled_none:
  assumes "round_ok tls ops csz R r v I O' None I1 O1" "r \<in> R"
  shows "inner_inv tls ops csz I1 O1 R \<and> settled S R r I O' st I1 O1 st \<and> same_row I O' I1 O1 r"
  using assms by (simp add: round_ok_def probed_def settled_def same_row_def)

text \<open>Inserting under the guard of a fresh row, up to the write-back.\<close>

lemma inner_insert_settled:
  assumes hm: "hash_map_laws tls" and laws: "schema_laws S tsz csz proper"
    and inv: "inner_inv tls ops csz I O' R" and r: "r \<in> R" "fresh_word r (get_sync O' r)" and v: "length v = csz"
    and st: "st_cap st = oid_capacity O'" "\<forall>i < st_cap st. length (rows st i) = tsz"
  shows "\<exists>old I1 O1 st1 O2. inner_insert tls rng t spur r v I O' = Some (old, I1, O1)
    \<and> evict_back S old st O1 = Done (st1, O2) \<and> inner_inv tls ops csz I1 O2 R
    \<and> settled S R r I O' st I1 O2 st1 \<and> lock_byte (get_sync O2 r) = 128
    \<and> (cached_part I1 O2 r = None \<or> cached_part I1 O2 r = Some v)"
proof -
  have w: "oid_ref_of (get_sync O' r) = Row r" "lock_byte (get_sync O' r) = 128"
    using r(2) by (simp_all add: fresh_word_def)
  then have rid: "is_rid (get_sync O' r)" "to_rid (get_sync O' r) = r"
    by (auto simp: oid_ref_of_def is_rid_def split: if_splits)
  obtain res I1 O1 where probe: "probe_and_replace_rng tls rng t spur (node_new v r) r 1 I O' = (res, I1, O1)"
    by (cases "probe_and_replace_rng tls rng t spur (node_new v r) r 1 I O'")
  note ok = probe_and_replace_rng_spec [OF hm inv r(1) w(1) v probe]
  show ?thesis
  proof (cases res)
    case None
    then have "inner_insert tls rng t spur r v I O' = Some (None, I1, O1)"
      using probe rid by (simp add: inner_insert_def Let_def)
    moreover have "cached_part I1 O1 r = None" "lock_byte (get_sync O1 r) = 128"
      "inner_inv tls ops csz I1 O1 R" "settled S R r I O' st I1 O1 st"
      using settled_none [OF ok [unfolded None] r(1), of S st] w by (simp_all add: same_row_def cached_part_def)
    ultimately show ?thesis
      by (simp add: evict_back_def)
  next
    case (Some p)
    then obtain i old where res: "res = Some (i, old)"
      by (cases p) simp
    have "inner_insert tls rng t spur r v I O' = Some (old, I1, O1)"
      using probe rid by (simp add: inner_insert_def Let_def res)
    moreover obtain st1 O2 where "evict_back S old st O1 = Done (st1, O2)" "inner_inv tls ops csz I1 O2 R"
      "settled S R r I O' st I1 O2 st1" "get_sync O2 r = get_sync O1 r"
      using evict_back_spec [OF laws inv ok [unfolded res] r(1) st] by blast
    moreover have "cached_part I1 O1 r = Some v" "lock_byte (get_sync O1 r) = 128"
      using ok res w(2) by (simp_all add: round_ok_def probed_def)
    ultimately show ?thesis
      by (simp add: cached_part_def)
  qed
qed

section \<open>The operations\<close>

lemma cache_inv_rows:
  assumes "cache_inv W tsz csz C R" "r \<in> R"
  shows "inner_inv (w_tls W) (w_ops W) csz (inner C) (oid_array C) R"
    "st_cap (storage C) = oid_capacity (oid_array C)" "length (row_of (storage C) r) = tsz"
    "unat (as_u32 r) < st_cap (storage C)" "cached_of C r = Some b \<Longrightarrow> length b = csz"
proof -
  show inv: "inner_inv (w_tls W) (w_ops W) csz (inner C) (oid_array C) R"
    and c: "st_cap (storage C) = oid_capacity (oid_array C)"
    using assms by (simp_all add: cache_inv_def)
  show i: "unat (as_u32 r) < st_cap (storage C)"
    by (rule in_storage [OF inv assms(2) c])
  then show "length (row_of (storage C) r) = tsz"
    using assms by (simp add: cache_inv_def row_of_def)
  show "length b = csz" if "cached_of C r = Some b"
    using cached_part_length [OF inv assms(2)] that by (simp add: cached_of_def)
qed

definition inserted ::
  "('l, 'm) world \<Rightarrow> nat \<Rightarrow> nat \<Rightarrow> bytes \<Rightarrow> Rid set \<Rightarrow> ('l, 'm) ClockCache \<Rightarrow> Rid \<Rightarrow> ('l, 'm) ClockCache \<Rightarrow> bool" where
  "inserted W tsz csz val R C r C1 \<longleftrightarrow> r \<notin> R \<and> cache_inv W tsz csz C1 (insert r R) \<and> schema C1 = schema C
     \<and> view C1 r = val \<and> lock_of C1 r = 128 \<and> same_rows R C C1"

lemma cache_insert_spec:
  assumes hm: "hash_map_laws (w_tls W)" "hash_map_laws (w_ops W)" and laws: "schema_laws (schema C) tsz csz proper"
    and inv: "cache_inv W tsz csz C R" and val: "length val = tsz"
  shows "cache_insert W t spur val C = Some Panic \<and> list_node (heap (oheap (oid_array C))) = 0
    \<or> (\<exists>r C1. cache_insert W t spur val C = Some (Done (r, C1)) \<and> inserted W tsz csz val R C r C1)"
proof -
  note inv' = inv [unfolded cache_inv_def]
  have inner: "inner_inv (w_tls W) (w_ops W) csz (inner C) (oid_array C) R"
    using inv' by simp
  then have "oid_inv (w_ops W) (oid_array C) R"
    by (simp add: inner_inv_def)
  from alloc_rid_cases [OF hm(2) this, of t] show ?thesis
  proof (elim disjE exE conjE)
    assume "alloc_rid (w_ops W) t (oid_array C) = Some Panic" "list_node (heap (oheap (oid_array C))) = 0"
    then show ?thesis by (simp add: cache_insert_def)
  next
    fix r O1
    assume r: "alloc_rid (w_ops W) t (oid_array C) = Some (Done (r, O1))" "r \<notin> R" "oid_inv (w_ops W) O1 (insert r R)"
      "oid_capacity O1 = oid_capacity (oid_array C)" "fresh_word r (get_sync O1 r)"
      "\<forall>r'\<in>R. get_sync O1 r' = get_sync (oid_array C) r'"
    let ?S = "schema C" and ?v = "to_cached (schema C) val"
    have inv1: "inner_inv (w_tls W) (w_ops W) csz (inner C) O1 (insert r R)"
      by (rule inner_inv_fresh [OF inner r(2,3,5,6)])
    have v: "length ?v = csz"
      by (rule schema_laws.to_cached_length [OF laws val])
    let ?R = "insert r R" and ?st = "storage C"
    obtain old I2 O2 st1 O3 where bk: "inner_insert (w_tls W) (w_rng W) t spur r ?v (inner C) O1 = Some (old, I2, O2)"
      "evict_back ?S old ?st O2 = Done (st1, O3)" "inner_inv (w_tls W) (w_ops W) csz I2 O3 ?R"
      "settled ?S ?R r (inner C) O1 ?st I2 O3 st1" "lock_byte (get_sync O3 r) = 128"
      "cached_part I2 O3 r = None \<or> cached_part I2 O3 r = Some ?v"
      using inner_insert_settled [OF hm(1) laws inv1 insertI1 r(5) v, of ?st "w_rng W" t spur] r(4) inv' by auto
    let ?st2 = "set_row (unat (as_u32 r)) val st1"
    let ?C1 = "C\<lparr> inner := I2, storage := ?st2, oid_array := O3 \<rparr>"
    have c: "st_cap st1 = st_cap ?st" "oid_capacity O3 = st_cap ?st"
      using bk(4) r(4) inv' by (simp_all add: settled_def)
    have "unat (as_u32 r) < st_cap st1"
      using in_storage [OF inv1 insertI1, of ?st] r(4) inv' c by simp
    then have "cache_insert W t spur val C = Some (Done (r, ?C1))"
      by (simp add: cache_insert_def r(1) bk storage_insert_def storage_get_mut_def Let_def)
    moreover have "cache_inv W tsz csz ?C1 ?R"
      using bk c inv' val by (simp add: cache_inv_def settled_def)
    moreover have "view ?C1 r = val"
      using bk(6) schema_laws.write_back_to_cached [OF laws val]
      by (auto simp: view_def cached_of_def row_of_set_row logical_def)
    moreover have "same_rows R C ?C1"
      using bk(4) r(2,6)
      by (auto simp: same_rows_def settled_def view_def lock_of_def cached_of_def row_of_set_row cached_part_def)
    ultimately show ?thesis
      using r(2) bk(5) by (simp add: inserted_def lock_of_def)
  qed
qed

text \<open>A query value for row \<open>r\<close>: it resolves, and its references are the row's slot and the row's tuple.\<close>

definition value_ok :: "('l, 'm) ClockCache \<Rightarrow> Rid \<Rightarrow> FieldsMeta \<Rightarrow> row_value \<Rightarrow> bool" where
  "value_ok C r query q \<longleftrightarrow>
     resolves (schema C) (slot_val C) (tuple_val C) q query (cached_of C r) (row_of (storage C) r)
     \<and> (\<forall>i. qv_field q = Some i \<longrightarrow> oid_ref_of (get_sync (oid_array C) r) = Slot i)
     \<and> (\<forall>j. qv_tuple q = Some j \<longrightarrow> j = unat (as_u32 r))"

lemma entry_value_ok:
  assumes inv: "cache_inv W tsz csz C R" and r: "r \<in> R" and i: "oid_ref_of (get_sync (oid_array C) r) = Slot i"
  shows "\<exists>q. entry_value C i query = Done q \<and> value_ok C r query q"
proof -
  note c = cache_inv_rows [OF inv r]
  have "clock_rid (entries (inner C) ! i) = r"
    using row_ok_slot [OF inner_inv_rows(1) [OF c(1) r] i] by (simp add: clock_rid_eq)
  then have "entry_value C i query =
      Done (new_value (Some i) (if matches (schema C) query then None else Some (unat (as_u32 r))))"
    using c(4) by (simp add: entry_value_def storage_get_def Let_def)
  then show ?thesis
    using i by (simp add: value_ok_def resolves_def new_value_def cached_of_def cached_part_def slot_val_def
        tuple_val_def row_of_def)
qed

lemma tuple_value_ok:
  assumes inv: "cache_inv W tsz csz C R" and r: "r \<in> R" and i: "oid_ref_of (get_sync (oid_array C) r) = Row r'"
  shows "storage_get (storage C) r = Done (unat (as_u32 r))"
    "value_ok C r query (new_value None (Some (unat (as_u32 r))))"
  using cache_inv_rows(4) [OF inv r] i
  by (simp_all add: storage_get_def Let_def value_ok_def resolves_def new_value_def cached_of_def cached_part_def
      tuple_val_def row_of_def)

lemma cache_same_slots:
  assumes inv: "cache_inv W tsz csz C R" and s: "same_slots (inner C) I1" "hands_ok (w_tls W) I1"
  shows "cache_inv W tsz csz (C\<lparr> inner := I1 \<rparr>) R" "same_rows R C (C\<lparr> inner := I1 \<rparr>)"
proof -
  have i: "inner_inv (w_tls W) (w_ops W) csz (inner C) (oid_array C) R"
    using inv by (simp add: cache_inv_def)
  show "cache_inv W tsz csz (C\<lparr> inner := I1 \<rparr>) R"
    using inv inner_inv_same_slots [OF i s] by (simp add: cache_inv_def)
  show "same_rows R C (C\<lparr> inner := I1 \<rparr>)"
    using cached_part_same_slots [OF i s(1)] by (simp add: same_rows_def view_def cached_of_def lock_of_def)
qed

text \<open>The effect shared by the reading operations on a row of the cache.\<close>

definition read_ok ::
  "('l, 'm) world \<Rightarrow> nat \<Rightarrow> nat \<Rightarrow> Rid set \<Rightarrow> ('l, 'm) ClockCache \<Rightarrow> Rid \<Rightarrow> FieldsMeta
    \<Rightarrow> row_value outcome \<times> ('l, 'm) ClockCache \<Rightarrow> bool" where
  "read_ok W tsz csz R C r query res \<longleftrightarrow>
     (\<exists>q C1. res = (Done q, C1) \<and> cache_inv W tsz csz C1 R \<and> schema C1 = schema C \<and> same_rows R C C1
        \<and> value_ok C1 r query q)"

lemma cache_read_spec:
  assumes inv: "cache_inv W tsz csz C R" and r: "r \<in> R"
  shows "read_ok W tsz csz R C r query (cache_read W r query C)"
proof -
  obtain res I1 where read: "inner_read (w_rng W) r (inner C) (oid_array C) = (res, I1)"
    by (cases "inner_read (w_rng W) r (inner C) (oid_array C)")
  note rd = inner_read_spec [OF cache_inv_rows(1) [OF inv r] r read]
  let ?C = "C\<lparr> inner := I1 \<rparr>"
  note c = cache_same_slots [OF inv rd(1,2)]
  show ?thesis
  proof (cases res)
    case (Inl rid)
    then have rid: "rid = r" "oid_ref_of (get_sync (oid_array ?C) r) = Row r"
      using rd(3) by simp_all
    note t = tuple_value_ok [OF c(1) r rid(2)]
    have "cache_read W r query C = (Done (new_value None (Some (unat (as_u32 r)))), ?C)"
      using read Inl rid(1) t(1) by (simp add: cache_read_def Let_def)
    then show ?thesis
      using c t(2) by (simp add: read_ok_def)
  next
    case (Inr i)
    then have "oid_ref_of (get_sync (oid_array ?C) r) = Slot i"
      using rd(3) by simp
    then obtain q where "entry_value ?C i query = Done q" "value_ok ?C r query q"
      using entry_value_ok [OF c(1) r] by blast
    then show ?thesis
      using c read Inr by (simp add: read_ok_def cache_read_def Let_def)
  qed
qed

lemma same_rows_trans: "same_rows R C C1 \<Longrightarrow> same_rows R C1 C2 \<Longrightarrow> same_rows R C C2"
  by (simp add: same_rows_def)

lemma touch_entry_same:
  "same_slots I (touch_entry W i I)" "hands_ok tls (touch_entry W i I) = hands_ok tls I"
proof -
  show "same_slots I (touch_entry W i I)"
    unfolding touch_entry_def by (intro set_draws_same_slots same_slots_entry) (simp_all add: node_set_ref_simps)
  show "hands_ok tls (touch_entry W i I) = hands_ok tls I"
    by (simp add: touch_entry_def hands_ok_def)
qed

lemma promoted:
  assumes laws: "schema_laws (schema C) tsz csz proper" and inv: "cache_inv W tsz csz C R" and r: "r \<in> R"
    and ok: "round_ok (w_tls W) (w_ops W) csz R r (to_cached (schema C) (row_of (storage C) r)) (inner C)
      (oid_array C) (Some (i, old)) I2 O2"
    and ref: "oid_ref_of (get_sync (oid_array C) r) = Row r"
  shows "\<exists>st O3. evict_back (schema C) old (storage C) O2 = Done (st, O3)
    \<and> cache_inv W tsz csz (C\<lparr> inner := touch_entry W i I2, storage := st, oid_array := O3 \<rparr>) R
    \<and> same_rows R C (C\<lparr> inner := touch_entry W i I2, storage := st, oid_array := O3 \<rparr>)
    \<and> oid_ref_of (get_sync O3 r) = Slot i"
proof -
  let ?S = "schema C" and ?st = "storage C" and ?v = "to_cached (schema C) (row_of (storage C) r)"
  note c = cache_inv_rows [OF inv r]
  have st: "st_cap ?st = oid_capacity (oid_array C)" "\<forall>i < st_cap ?st. length (rows ?st i) = tsz"
    using inv by (simp_all add: cache_inv_def)
  obtain st1 O3 where bk: "evict_back ?S old ?st O2 = Done (st1, O3)"
    "inner_inv (w_tls W) (w_ops W) csz I2 O3 R" "settled ?S R r (inner C) (oid_array C) ?st I2 O3 st1"
    "get_sync O3 r = get_sync O2 r"
    using evict_back_spec [OF laws c(1) ok r st] by blast
  let ?C = "C\<lparr> inner := I2, storage := st1, oid_array := O3 \<rparr>"
  have "oid_ref_of (get_sync O2 r) = Slot i" "cached_part I2 O2 r = Some ?v"
    "lock_byte (get_sync O2 r) = lock_byte (get_sync (oid_array C) r)"
    using ok by (simp_all add: round_ok_def probed_def)
  then have r2: "oid_ref_of (get_sync O3 r) = Slot i" "cached_part I2 O3 r = Some ?v"
    "lock_byte (get_sync O3 r) = lock_byte (get_sync (oid_array C) r)"
    using bk(4) by (simp_all add: cached_part_def)
  have inv2: "cache_inv W tsz csz ?C R"
    using bk(2,3) st by (simp add: cache_inv_def settled_def)
  have "view ?C r = row_of ?st r"
    using r2(2) bk(3) schema_laws.write_back_to_cached [OF laws c(3)]
    by (simp add: view_def cached_of_def settled_def logical_def)
  also have "\<dots> = view C r"
    using ref by (simp add: view_def cached_of_def cached_part_def logical_def)
  finally have same: "same_rows R C ?C"
    using bk(3) r2(3) by (auto simp: same_rows_def settled_def view_def cached_of_def lock_of_def)
  have h: "hands_ok (w_tls W) (touch_entry W i I2)"
    using bk(2) by (simp add: touch_entry_same inner_inv_def)
  have sl: "same_slots (inner ?C) (touch_entry W i I2)"
    by (simp add: touch_entry_same)
  have eq: "?C\<lparr> inner := touch_entry W i I2 \<rparr> = C\<lparr> inner := touch_entry W i I2, storage := st1, oid_array := O3 \<rparr>"
    by (cases C) simp
  note touched = cache_same_slots [OF inv2 sl h, unfolded eq]
  show ?thesis
    using bk(1) r2(1) touched(1) same_rows_trans [OF same touched(2)] by blast
qed

lemma promote_miss_spec:
  assumes hm: "hash_map_laws (w_tls W)" and laws: "schema_laws (schema C) tsz csz proper"
    and inv: "cache_inv W tsz csz C R" and r: "r \<in> R" and ref: "oid_ref_of (get_sync (oid_array C) r) = Row r"
  shows "read_ok W tsz csz R C r query (promote_miss W t spur r r query C)"
proof -
  let ?v = "to_cached (schema C) (row_of (storage C) r)" and ?i = "unat (as_u32 r)"
  have to_rid: "to_rid (get_sync (oid_array C) r) = r"
    using ref by (simp add: oid_ref_of_def split: if_splits)
  note t = tuple_value_ok [OF inv r ref] and c = cache_inv_rows [OF inv r]
  obtain res I2 O2 where probe: "probe_and_replace_rng (w_tls W) (w_rng W) t spur (node_new ?v r) r
      (probe_rng (inner C)) (inner C) (oid_array C) = (res, I2, O2)"
    by (cases "probe_and_replace_rng (w_tls W) (w_rng W) t spur (node_new ?v r) r (probe_rng (inner C)) (inner C) (oid_array C)")
  have v: "length ?v = csz"
    by (rule schema_laws.to_cached_length [OF laws c(3)])
  note ok = probe_and_replace_rng_spec [OF hm c(1) r ref v probe]
  note run = promote_miss_def [of W t spur r r query C, unfolded to_rid t(1) Let_def, simplified,
      folded row_of_def, unfolded probe, simplified]
  consider (off) "probe_len (inner C) = 0" | (none) "probe_len (inner C) \<noteq> 0" "res = None"
    | (some) i old where "probe_len (inner C) \<noteq> 0" "res = Some (i, old)"
    by (cases res) auto
  then show ?thesis
  proof cases
    case off
    then show ?thesis using run inv t(2) by (simp add: read_ok_def same_rows_def)
  next
    case none
    let ?C = "C\<lparr> inner := I2, oid_array := O2 \<rparr>"
    have n: "inner_inv (w_tls W) (w_ops W) csz I2 O2 R" "\<forall>r'\<in>R. same_row (inner C) (oid_array C) I2 O2 r'"
      "oid_capacity O2 = oid_capacity (oid_array C)"
      using ok none by (simp_all add: round_ok_def probed_def)
    then have inv2: "cache_inv W tsz csz ?C R" "same_rows R C ?C" "oid_ref_of (get_sync (oid_array ?C) r) = Row r"
      using inv r ref by (simp_all add: cache_inv_def same_rows_def same_row_def view_def cached_of_def lock_of_def)
    then show ?thesis
      using run none tuple_value_ok(2) [OF inv2(1) r inv2(3)] by (simp add: read_ok_def)
  next
    case some
    obtain st O3 where bk: "evict_back (schema C) old (storage C) O2 = Done (st, O3)"
      "cache_inv W tsz csz (C\<lparr> inner := touch_entry W i I2, storage := st, oid_array := O3 \<rparr>) R"
      "same_rows R C (C\<lparr> inner := touch_entry W i I2, storage := st, oid_array := O3 \<rparr>)"
      "oid_ref_of (get_sync O3 r) = Slot i"
      using promoted [OF laws inv r ok [unfolded some(2)] ref] by blast
    then show ?thesis
      using run some entry_value_ok [of W tsz csz "C\<lparr> inner := touch_entry W i I2, storage := st, oid_array := O3 \<rparr>" R r i query] r
      by (auto simp: read_ok_def Let_def)
  qed
qed

lemma read_and_promote_spec:
  assumes hm: "hash_map_laws (w_tls W)" and laws: "schema_laws (schema C) tsz csz proper"
    and inv: "cache_inv W tsz csz C R" and r: "r \<in> R"
  shows "read_ok W tsz csz R C r query (read_and_promote W t spur r query C)"
proof -
  obtain res I1 where read: "inner_read (w_rng W) r (inner C) (oid_array C) = (res, I1)"
    by (cases "inner_read (w_rng W) r (inner C) (oid_array C)")
  note rd = inner_read_spec [OF cache_inv_rows(1) [OF inv r] r read]
  let ?C = "C\<lparr> inner := I1 \<rparr>"
  note c = cache_same_slots [OF inv rd(1,2)]
  show ?thesis
  proof (cases res)
    case (Inr i)
    then have "oid_ref_of (get_sync (oid_array ?C) r) = Slot i"
      using rd(3) by simp
    then obtain q where "entry_value ?C i query = Done q" "value_ok ?C r query q"
      using entry_value_ok [OF c(1) r] by blast
    then show ?thesis
      using c read Inr by (simp add: read_ok_def read_and_promote_def Let_def)
  next
    case (Inl rid)
    then have rid: "rid = r" "oid_ref_of (get_sync (oid_array ?C) r) = Row r"
      using rd(3) by simp_all
    have "read_ok W tsz csz R ?C r query (promote_miss W t spur r r query ?C)"
      using promote_miss_spec [OF hm _ c(1) r rid(2)] laws by simp
    then show ?thesis
      using read Inl rid(1) c(2) by (auto simp: read_ok_def read_and_promote_def intro: same_rows_trans)
  qed
qed

text \<open>Locking and unlocking.\<close>

lemma cache_set_word:
  assumes inv: "cache_inv W tsz csz C R" and r: "r \<in> R"
    and w: "oid_wf w" "oid_ref_of w = oid_ref_of (get_sync (oid_array C) r)"
  shows "cache_inv W tsz csz (C\<lparr> oid_array := set_sync (oid_array C) r w \<rparr>) R"
    "view (C\<lparr> oid_array := set_sync (oid_array C) r w \<rparr>) r' = view C r'"
    "lock_of (C\<lparr> oid_array := set_sync (oid_array C) r w \<rparr>) r' = (if r' = r then lock_byte w else lock_of C r')"
  using inv inner_inv_set_word [OF cache_inv_rows(1) [OF inv r] r w]
  by (simp_all add: cache_inv_def view_def cached_of_def lock_of_def)

text \<open>Assigning through a query value.\<close>

lemma assign_field:
  assumes inv: "cache_inv W tsz csz C R" and r: "r \<in> R" and i: "oid_ref_of (get_sync (oid_array C) r) = Slot i"
    and b: "length b = csz"
  defines "C1 \<equiv> C\<lparr> inner := set_entry i ((entries (inner C) ! i)\<lparr> node_val := b \<rparr>) (inner C) \<rparr>"
  shows "cache_inv W tsz csz C1 R" "view C1 r = logical (schema C) (Some b) (row_of (storage C) r)"
    "\<And>r'. r' \<in> R \<Longrightarrow> r' \<noteq> r \<Longrightarrow> view C1 r' = view C r'"
proof -
  note c = cache_inv_rows [OF inv r]
  have len: "i < length (entries (inner C))"
    using row_ok_slot [OF inner_inv_rows(1) [OF c(1) r] i] by simp
  have other: "oid_ref_of (get_sync (oid_array C) r') \<noteq> Slot i" if "r' \<in> R" "r' \<noteq> r" for r'
    using slot_unique [OF c(1) that(1) r _ i] that(2) by blast
  have rows: "row_ok (inner C1) r' w" if "row_ok (inner C) r' w" for r' w
    using that len by (auto simp: row_ok_def C1_def nth_list_update split: oid_ref.splits)
  have slots: "slot_ok csz (oid_array C) R j (entries (inner C1) ! j)"
    if "slot_ok csz (oid_array C) R j (entries (inner C) ! j)" for j
    using that len b by (auto simp: slot_ok_def C1_def nth_list_update clock_rid_def)
  have "inner_inv (w_tls W) (w_ops W) csz (inner C1) (oid_array C) R"
    using c(1) rows slots by (simp add: inner_inv_def) (simp add: C1_def)
  then show "cache_inv W tsz csz C1 R"
    using inv by (simp add: cache_inv_def C1_def)
  show "view C1 r = logical (schema C) (Some b) (row_of (storage C) r)"
    using i len by (simp add: view_def cached_of_def cached_part_def C1_def)
  show "view C1 r' = view C r'" if "r' \<in> R" "r' \<noteq> r" for r'
    using other [OF that] by (auto simp: view_def cached_of_def cached_part_def C1_def split: oid_ref.split)
qed

lemma assign_tuple:
  assumes inv: "cache_inv W tsz csz C R" and r: "r \<in> R" and b: "length b = tsz"
  defines "C1 \<equiv> C\<lparr> storage := set_row (unat (as_u32 r)) b (storage C) \<rparr>"
  shows "cache_inv W tsz csz C1 R" "view C1 r = logical (schema C) (cached_of C r) b"
    "\<And>r'. r' \<in> R \<Longrightarrow> r' \<noteq> r \<Longrightarrow> view C1 r' = view C r'"
  using inv b by (simp_all add: cache_inv_def view_def cached_of_def C1_def row_of_set_row)

lemma assign_spec:
  assumes laws: "schema_laws (schema C) tsz csz proper" and inv: "cache_inv W tsz csz C R" and r: "r \<in> R"
    and q: "value_ok C r query q" and f: "f \<in> set query" "proper f" and v: "length v = field_size f"
  shows "\<exists>C1. assign q f v C = Inr C1 \<and> cache_inv W tsz csz C1 R \<and> schema C1 = schema C
    \<and> store_bytes (field_off f) v (view C r) = Some (view C1 r)
    \<and> (\<forall>r'\<in>R. r' \<noteq> r \<longrightarrow> view C1 r' = view C r') \<and> (\<forall>r'. lock_of C1 r' = lock_of C r')"
proof -
  note c = cache_inv_rows [OF inv r]
  have res: "resolves (schema C) (slot_val C) (tuple_val C) q query (cached_of C r) (row_of (storage C) r)"
    using q by (simp add: value_ok_def)
  consider (field) i off b where "get_value_mut (schema C) q f = Inr (In_Field i off)" "qv_field q = Some i"
      "store_bytes off v (slot_val C i) = Some b" "length b = csz"
      "store_bytes (field_off f) v (view C r) = Some (logical (schema C) (Some b) (row_of (storage C) r))"
    | (tuple) j off b where "get_value_mut (schema C) q f = Inr (In_Tuple j off)" "qv_tuple q = Some j"
      "store_bytes off v (row_of (storage C) r) = Some b" "length b = tsz"
      "store_bytes (field_off f) v (view C r) = Some (logical (schema C) (cached_of C r) b)"
    using schema_laws.get_value_mut_logical [OF laws res f c(3) _ v] c(5) unfolding view_def by blast
  then show ?thesis
  proof cases
    case field
    have i: "oid_ref_of (get_sync (oid_array C) r) = Slot i"
      using q field(2) by (simp add: value_ok_def)
    show ?thesis
      using field assign_field [OF inv r i field(4)] by (simp add: assign_def) (simp add: lock_of_def)
  next
    case tuple
    then have "tuple_val C j = row_of (storage C) r" "j = unat (as_u32 r)"
      using q by (simp_all add: value_ok_def tuple_val_def row_of_def)
    then show ?thesis
      using tuple assign_tuple [OF inv r tuple(4)] by (simp add: assign_def) (simp add: lock_of_def)
  qed
qed

lemma field_value_spec:
  assumes laws: "schema_laws (schema C) tsz csz proper" and inv: "cache_inv W tsz csz C R" and r: "r \<in> R"
    and q: "value_ok C r query q" and f: "f \<in> set query" "proper f"
  shows "\<exists>v. field_value C q f = Inr v \<and> load_bytes (field_off f) (field_size f) (view C r) = Some v"
proof -
  note c = cache_inv_rows [OF inv r]
  have res: "resolves (schema C) (slot_val C) (tuple_val C) q query (cached_of C r) (row_of (storage C) r)"
    using q by (simp add: value_ok_def)
  show ?thesis
    using schema_laws.get_value_logical [OF laws res f c(3)] c(5) by (simp add: field_value_def view_def)
qed

section \<open>Refinement of a map from rows to tuples\<close>

text \<open>The commands of a client, each one call of the cache, and their replies.\<close>

datatype cmd =
    Insert tid "nat \<Rightarrow> bool \<times> bool" bytes
  | Lock_Read bool Rid
  | Lock_Write bool Rid
  | Drop_Read Rid
  | Drop_Write Rid
  | Get Rid FieldsMeta Field
  | Get_Promote tid "nat \<Rightarrow> bool \<times> bool" Rid FieldsMeta Field
  | Put Rid FieldsMeta Field bytes

datatype reply = Row_Id Rid | Locked | Refused TransactionError | Value bytes | Nothing

definition lock_reply :: "(TransactionError + unit) \<times> ('l, 'm) ClockCache \<Rightarrow> (reply \<times> ('l, 'm) ClockCache) outcome option" where
  "lock_reply x = Some (Done (case fst x of Inr _ \<Rightarrow> Locked | Inl e \<Rightarrow> Refused e, snd x))"

definition value_reply :: "Field \<Rightarrow> row_value outcome \<times> ('l, 'm) ClockCache \<Rightarrow> (reply \<times> ('l, 'm) ClockCache) outcome option" where
  "value_reply f x =
     (case x of
        (Done q, C) \<Rightarrow> (case field_value C q f of Inr v \<Rightarrow> Some (Done (Value v, C)) | Inl _ \<Rightarrow> Some Panic)
      | _ \<Rightarrow> Some Panic)"

fun exec :: "('l, 'm) world \<Rightarrow> cmd \<Rightarrow> ('l, 'm) ClockCache \<Rightarrow> (reply \<times> ('l, 'm) ClockCache) outcome option" where
  "exec W (Insert t spur v) C =
     (case cache_insert W t spur v C of
        Some (Done (r, C1)) \<Rightarrow> Some (Done (Row_Id r, C1)) | Some _ \<Rightarrow> Some Panic | None \<Rightarrow> None)"
| "exec W (Lock_Read sp r) C = lock_reply (read_lock sp r C)"
| "exec W (Lock_Write sp r) C = lock_reply (write_lock sp r C)"
| "exec W (Drop_Read r) C = Some (Done (Nothing, C\<lparr> oid_array := drop_read r (oid_array C) \<rparr>))"
| "exec W (Drop_Write r) C = Some (Done (Nothing, C\<lparr> oid_array := drop_write r (oid_array C) \<rparr>))"
| "exec W (Get r query f) C = value_reply f (cache_read W r query C)"
| "exec W (Get_Promote t spur r query f) C = value_reply f (read_and_promote W t spur r query C)"
| "exec W (Put r query f v) C =
     (case cache_read W r query C of
        (Done q, C1) \<Rightarrow> (case assign q f v C1 of Inr C2 \<Rightarrow> Some (Done (Nothing, C2)) | Inl _ \<Rightarrow> Some Panic)
      | _ \<Rightarrow> Some Panic)"

text \<open>The specification: a map from row ids to tuples with a lock, and nothing else.\<close>

datatype lock_state = Readers nat | Writer

type_synonym spec = "Rid \<Rightarrow> (bytes \<times> lock_state) option"

inductive spec_step :: "spec \<Rightarrow> cmd \<Rightarrow> reply \<Rightarrow> spec \<Rightarrow> bool" where
  spec_insert: "a r = None \<Longrightarrow> spec_step a (Insert t spur v) (Row_Id r) (a(r \<mapsto> (v, Writer)))"
| spec_lock_read: "a r = Some (v, Readers n) \<Longrightarrow> spec_step a (Lock_Read sp r) Locked (a(r \<mapsto> (v, Readers (Suc n))))"
| spec_lock_write: "a r = Some (v, Readers 0) \<Longrightarrow> spec_step a (Lock_Write sp r) Locked (a(r \<mapsto> (v, Writer)))"
| spec_read_busy: "a r = Some (v, l) \<Longrightarrow> l = Writer \<and> e = ReadLockBusy \<or> sp \<and> e = LockBusy \<Longrightarrow>
    spec_step a (Lock_Read sp r) (Refused e) a"
| spec_write_busy: "a r = Some (v, l) \<Longrightarrow> l \<noteq> Readers 0 \<and> e = WriteLockBusy \<or> sp \<and> e = LockBusy \<Longrightarrow>
    spec_step a (Lock_Write sp r) (Refused e) a"
| spec_drop_read: "a r = Some (v, Readers (Suc n)) \<Longrightarrow> spec_step a (Drop_Read r) Nothing (a(r \<mapsto> (v, Readers n)))"
| spec_drop_write: "a r = Some (v, Writer) \<Longrightarrow> spec_step a (Drop_Write r) Nothing (a(r \<mapsto> (v, Readers 0)))"
| spec_get: "a r = Some (v, l) \<Longrightarrow> load_bytes (field_off f) (field_size f) v = Some x \<Longrightarrow>
    spec_step a (Get r query f) (Value x) a"
| spec_promote: "a r = Some (v, l) \<Longrightarrow> load_bytes (field_off f) (field_size f) v = Some x \<Longrightarrow>
    spec_step a (Get_Promote t spur r query f) (Value x) a"
| spec_put: "a r = Some (v, l) \<Longrightarrow> store_bytes (field_off f) x v = Some v' \<Longrightarrow>
    spec_step a (Put r query f x) Nothing (a(r \<mapsto> (v', l)))"

text \<open>
  When a client may issue a command: tuples have their size, guards are held as their types require,
  and fields are proper fields of the query. At most 127 readers may hold a row.
\<close>

fun cmd_ok :: "nat \<Rightarrow> (Field \<Rightarrow> bool) \<Rightarrow> spec \<Rightarrow> cmd \<Rightarrow> bool" where
  "cmd_ok tsz proper a (Insert t spur v) \<longleftrightarrow> length v = tsz"
| "cmd_ok tsz proper a (Lock_Read sp r) \<longleftrightarrow> (\<exists>v l. a r = Some (v, l) \<and> l \<noteq> Readers 127)"
| "cmd_ok tsz proper a (Lock_Write sp r) \<longleftrightarrow> a r \<noteq> None"
| "cmd_ok tsz proper a (Drop_Read r) \<longleftrightarrow> (\<exists>v n. a r = Some (v, Readers (Suc n)))"
| "cmd_ok tsz proper a (Drop_Write r) \<longleftrightarrow> (\<exists>v. a r = Some (v, Writer))"
| "cmd_ok tsz proper a (Get r query f) \<longleftrightarrow> (\<exists>v l. a r = Some (v, l) \<and> l \<noteq> Readers 0) \<and> f \<in> set query \<and> proper f"
| "cmd_ok tsz proper a (Get_Promote t spur r query f) \<longleftrightarrow> (\<exists>v. a r = Some (v, Writer)) \<and> f \<in> set query \<and> proper f"
| "cmd_ok tsz proper a (Put r query f v) \<longleftrightarrow> (\<exists>v. a r = Some (v, Writer)) \<and> f \<in> set query \<and> proper f
     \<and> length v = field_size f"

definition abs_lock :: "nat \<Rightarrow> lock_state" where
  "abs_lock n = (if n < 128 then Readers n else Writer)"

definition abs_cache :: "('l, 'm) ClockCache \<Rightarrow> Rid set \<Rightarrow> spec" where
  "abs_cache C R r = (if r \<in> R then Some (view C r, abs_lock (lock_of C r)) else None)"

definition ready :: "('l, 'm) world \<Rightarrow> nat \<Rightarrow> nat \<Rightarrow> ('l, 'm) ClockCache \<Rightarrow> Rid set \<Rightarrow> bool" where
  "ready W tsz csz C R \<longleftrightarrow> cache_inv W tsz csz C R \<and> (\<forall>r\<in>R. lock_of C r \<le> 128)"

fun rows_after :: "reply \<Rightarrow> Rid set \<Rightarrow> Rid set" where
  "rows_after (Row_Id r) R = insert r R"
| "rows_after _ R = R"

text \<open>One command, simulated.\<close>

definition simulates :: "('l, 'm) world \<Rightarrow> nat \<Rightarrow> nat \<Rightarrow> cmd \<Rightarrow> ('l, 'm) ClockCache \<Rightarrow> Rid set \<Rightarrow> bool" where
  "simulates W tsz csz c C R \<longleftrightarrow>
     (\<exists>reply C1. exec W c C = Some (Done (reply, C1)) \<and> ready W tsz csz C1 (rows_after reply R)
        \<and> schema C1 = schema C \<and> spec_step (abs_cache C R) c reply (abs_cache C1 (rows_after reply R)))"

lemma simulatesI:
  assumes "exec W c C = Some (Done (reply, C1))" "R1 = rows_after reply R" "ready W tsz csz C1 R1"
    "schema C1 = schema C" "spec_step (abs_cache C R) c reply a" "a = abs_cache C1 R1"
  shows "simulates W tsz csz c C R"
  using assms unfolding simulates_def by blast

lemma same_rows_abs:
  "same_rows R C C1 \<Longrightarrow> abs_cache C1 R = abs_cache C R" "same_rows R C C1 \<Longrightarrow> \<forall>r\<in>R. lock_of C r \<le> 128 \<Longrightarrow> \<forall>r\<in>R. lock_of C1 r \<le> 128"
  by (auto simp: same_rows_def abs_cache_def)

lemma insert_simulated:
  assumes hm: "hash_map_laws (w_tls W)" "hash_map_laws (w_ops W)" and laws: "schema_laws (schema C) tsz csz proper"
    and rdy: "ready W tsz csz C R" and v: "length v = tsz"
  shows "simulates W tsz csz (Insert t spur v) C R
    \<or> exec W (Insert t spur v) C = Some Panic \<and> list_node (heap (oheap (oid_array C))) = 0"
proof -
  have inv: "cache_inv W tsz csz C R" and lk: "\<forall>r\<in>R. lock_of C r \<le> 128"
    using rdy by (simp_all add: ready_def)
  from cache_insert_spec [OF hm laws inv v, of t spur] show ?thesis
  proof (elim disjE exE conjE)
    fix r C1
    assume run: "cache_insert W t spur v C = Some (Done (r, C1))" and ins: "inserted W tsz csz v R C r C1"
    note i = ins [unfolded inserted_def]
    have "(abs_cache C R)(r \<mapsto> (v, Writer)) = abs_cache C1 (insert r R)"
      using i by (auto simp: fun_eq_iff abs_cache_def abs_lock_def same_rows_def)
    moreover have "ready W tsz csz C1 (insert r R)"
      using i lk by (simp add: ready_def same_rows_def)
    moreover have "spec_step (abs_cache C R) (Insert t spur v) (Row_Id r) ((abs_cache C R)(r \<mapsto> (v, Writer)))"
      using i by (intro spec_insert) (simp add: abs_cache_def)
    ultimately show ?thesis
      using run i by (intro disjI1 simulatesI [where reply = "Row_Id r" and ?C1.0 = C1]) simp_all
  qed simp
qed

text \<open>A changed lock byte changes the lock of that row only.\<close>

lemma word_simulated:
  assumes rdy: "ready W tsz csz C R" and r: "r \<in> R"
    and w: "oid_wf w" "oid_ref_of w = oid_ref_of (get_sync (oid_array C) r)" "lock_byte w \<le> 128"
  shows "ready W tsz csz (C\<lparr> oid_array := set_sync (oid_array C) r w \<rparr>) R"
    "abs_cache (C\<lparr> oid_array := set_sync (oid_array C) r w \<rparr>) R = (abs_cache C R)(r \<mapsto> (view C r, abs_lock (lock_byte w)))"
  using rdy r w(3) cache_set_word [OF _ r w(1,2)] by (auto simp: ready_def abs_cache_def fun_eq_iff)

lemma abs_cache_row: "r \<in> R \<Longrightarrow> abs_cache C R r = Some (view C r, abs_lock (lock_of C r))"
  by (simp add: abs_cache_def)

lemma abs_cache_dom: "abs_cache C R r = Some x \<Longrightarrow> r \<in> R"
  by (simp add: abs_cache_def split: if_splits)

lemma abs_lock_iffs:
  "abs_lock n = Readers k \<longleftrightarrow> n = k \<and> n < 128" "abs_lock n = Writer \<longleftrightarrow> 128 \<le> n"
  by (auto simp: abs_lock_def)

lemma lock_simulated:
  assumes rdy: "ready W tsz csz C R" and r: "r \<in> R"
    and w: "oid_wf w" "oid_ref_of w = oid_ref_of (get_sync (oid_array C) r)" "lock_byte w \<le> 128"
    and run: "exec W c C = Some (Done (reply, C\<lparr> oid_array := set_sync (oid_array C) r w \<rparr>))" "rows_after reply R = R"
    and spec: "spec_step (abs_cache C R) c reply ((abs_cache C R)(r \<mapsto> (view C r, abs_lock (lock_byte w))))"
  shows "simulates W tsz csz c C R"
  by (rule simulatesI [OF run(1) run(2) [symmetric] word_simulated(1) [OF rdy r w] _ spec])
    (simp_all only: word_simulated(2) [OF rdy r w], simp)

lemma same_word_spec:
  assumes "r \<in> R" "spec_step (abs_cache C R) c reply (abs_cache C R)"
  shows "spec_step (abs_cache C R) c reply
    ((abs_cache C R)(r \<mapsto> (view C r, abs_lock (lock_byte (get_sync (oid_array C) r)))))"
  using assms by (simp add: abs_cache_def lock_of_def fun_upd_idem)

lemma acquire_simulated:
  assumes rdy: "ready W tsz csz C R" and r: "r \<in> R"
  shows "lock_of C r \<noteq> 127 \<Longrightarrow> simulates W tsz csz (Lock_Read sp r) C R"
    and "simulates W tsz csz (Lock_Write sp r) C R"
proof -
  let ?w = "get_sync (oid_array C) r"
  have wf: "oid_wf ?w" and lk: "lock_byte ?w \<le> 128"
    using rdy r inner_inv_rows(2) [OF cache_inv_rows(1)] by (auto simp: ready_def lock_of_def)
  note row = abs_cache_row [OF r, of C, unfolded lock_of_def]
  note step = lock_simulated [OF rdy r]
  show "simulates W tsz csz (Lock_Read sp r) C R" if "lock_of C r \<noteq> 127"
  proof (cases "lock_byte ?w < 128 \<and> \<not> sp")
    case True
    then have n: "lock_byte ?w < 127"
      using that by (simp add: lock_of_def)
    then show ?thesis
      using True row wf
      by (intro step [of "?w + LOCK_READER" _ Locked])
        (auto simp: lock_reply_def read_lock_def try_read_eq oid_simps abs_lock_def intro: spec_lock_read)
  next
    case False
    then show ?thesis
      using row wf lk
      by (intro step [of ?w _ "Refused (if 128 \<le> lock_byte ?w then ReadLockBusy else LockBusy)"] same_word_spec r)
        (auto simp: lock_reply_def read_lock_def try_read_eq abs_lock_def intro!: spec_read_busy)
  qed
  show "simulates W tsz csz (Lock_Write sp r) C R"
  proof (cases "lock_byte ?w = 0 \<and> \<not> sp")
    case True
    then show ?thesis
      using row wf
      by (intro step [of "?w OR LOCK_WRITER" _ Locked])
        (auto simp: lock_reply_def write_lock_def try_write_eq oid_simps abs_lock_def intro: spec_lock_write)
  next
    case False
    then show ?thesis
      using row wf lk
      by (intro step [of ?w _ "Refused (if lock_byte ?w \<noteq> 0 then WriteLockBusy else LockBusy)"] same_word_spec r)
        (auto simp: lock_reply_def write_lock_def try_write_eq abs_lock_def intro!: spec_write_busy split: if_splits)
  qed
qed

lemma release_simulated:
  assumes rdy: "ready W tsz csz C R" and r: "r \<in> R"
  shows "0 < lock_of C r \<Longrightarrow> lock_of C r < 128 \<Longrightarrow> simulates W tsz csz (Drop_Read r) C R"
    and "128 \<le> lock_of C r \<Longrightarrow> simulates W tsz csz (Drop_Write r) C R"
proof -
  let ?w = "get_sync (oid_array C) r"
  have wf: "oid_wf ?w" and lk: "lock_byte ?w \<le> 128"
    using rdy r inner_inv_rows(2) [OF cache_inv_rows(1)] by (auto simp: ready_def lock_of_def)
  note row = abs_cache_row [OF r, of C, unfolded lock_of_def]
  note step = lock_simulated [OF rdy r]
  show "simulates W tsz csz (Drop_Read r) C R" if pos: "0 < lock_of C r" and "lock_of C r < 128"
  proof -
    obtain n where n: "lock_byte ?w = Suc n"
      using pos by (cases "lock_byte ?w") (simp_all add: lock_of_def)
    then have "spec_step (abs_cache C R) (Drop_Read r) Nothing ((abs_cache C R)(r \<mapsto> (view C r, Readers n)))"
      using row that by (intro spec_drop_read) (simp add: abs_lock_def lock_of_def)
    then show ?thesis
      using n that wf
      by (intro step [of "?w - LOCK_READER" _ Nothing])
        (auto simp: drop_read_def read_unlock_def fetch_sub_def oid_simps abs_lock_def lock_of_def)
  qed
  show "simulates W tsz csz (Drop_Write r) C R" if "128 \<le> lock_of C r"
    using that row wf lk
    by (intro step [of "?w - LOCK_WRITER" _ Nothing])
      (auto simp: drop_write_def write_unlock_def fetch_sub_def oid_simps abs_lock_def lock_of_def intro: spec_drop_write)
qed

lemma value_simulated:
  assumes rd: "read_ok W tsz csz R C r query x" and laws: "schema_laws (schema C) tsz csz proper"
    and rdy: "ready W tsz csz C R" and r: "r \<in> R" and f: "f \<in> set query" "proper f"
  shows "\<exists>v C1. value_reply f x = Some (Done (Value v, C1)) \<and> ready W tsz csz C1 R \<and> schema C1 = schema C
    \<and> abs_cache C1 R = abs_cache C R \<and> load_bytes (field_off f) (field_size f) (view C r) = Some v"
proof -
  obtain q C1 where q: "x = (Done q, C1)" "cache_inv W tsz csz C1 R" "schema C1 = schema C" "same_rows R C C1"
    "value_ok C1 r query q"
    using rd by (auto simp: read_ok_def)
  obtain v where v: "field_value C1 q f = Inr v" "load_bytes (field_off f) (field_size f) (view C1 r) = Some v"
    using field_value_spec [OF laws [folded q(3)] q(2) r q(5) f] by blast
  then show ?thesis
    using q r same_rows_abs [OF q(4)] rdy by (auto simp: value_reply_def ready_def same_rows_def)
qed

lemma put_simulated:
  assumes laws: "schema_laws (schema C) tsz csz proper" and rdy: "ready W tsz csz C R" and r: "r \<in> R"
    and f: "f \<in> set query" "proper f" and v: "length v = field_size f"
  shows "simulates W tsz csz (Put r query f v) C R"
proof -
  have inv: "cache_inv W tsz csz C R" and lk: "\<forall>r\<in>R. lock_of C r \<le> 128"
    using rdy by (simp_all add: ready_def)
  obtain q C1 where q: "cache_read W r query C = (Done q, C1)" "cache_inv W tsz csz C1 R" "schema C1 = schema C"
    "same_rows R C C1" "value_ok C1 r query q"
    using cache_read_spec [OF inv r, of query] by (auto simp: read_ok_def)
  obtain C2 where a: "assign q f v C1 = Inr C2" "cache_inv W tsz csz C2 R" "schema C2 = schema C1"
    "store_bytes (field_off f) v (view C1 r) = Some (view C2 r)"
    "\<forall>r'\<in>R. r' \<noteq> r \<longrightarrow> view C2 r' = view C1 r'" "\<forall>r'. lock_of C2 r' = lock_of C1 r'"
    using assign_spec [OF laws [folded q(3)] q(2) r q(5) f v] by blast
  have rdy2: "ready W tsz csz C2 R"
    using a(2,6) same_rows_abs(2) [OF q(4) lk] by (simp add: ready_def)
  have "spec_step (abs_cache C R) (Put r query f v) Nothing ((abs_cache C R)(r \<mapsto> (view C2 r, abs_lock (lock_of C r))))"
    using a(4) q(4) r by (intro spec_put [of _ _ "view C r"]) (simp_all add: abs_cache_def same_rows_def)
  moreover have "(abs_cache C R)(r \<mapsto> (view C2 r, abs_lock (lock_of C r))) = abs_cache C2 R"
    using a(5,6) q(4) r by (auto simp: fun_eq_iff abs_cache_def same_rows_def)
  ultimately show ?thesis
    using q a rdy2 by (intro simulatesI [where reply = Nothing and ?C1.0 = C2]) simp_all
qed

lemma get_simulated:
  assumes laws: "schema_laws (schema C) tsz csz proper" and rdy: "ready W tsz csz C R" and r: "r \<in> R"
    and f: "f \<in> set query" "proper f"
  shows "simulates W tsz csz (Get r query f) C R"
    and "hash_map_laws (w_tls W) \<Longrightarrow> simulates W tsz csz (Get_Promote t spur r query f) C R"
proof -
  have inv: "cache_inv W tsz csz C R"
    using rdy by (simp add: ready_def)
  show "simulates W tsz csz (Get r query f) C R"
    using value_simulated [OF cache_read_spec [OF inv r] laws rdy r f] abs_cache_row [OF r, of C]
    by (auto simp: simulates_def intro: spec_get)
  show "simulates W tsz csz (Get_Promote t spur r query f) C R" if "hash_map_laws (w_tls W)"
    using value_simulated [OF read_and_promote_spec [OF that laws inv r, where t = t and spur = spur] laws rdy r f] abs_cache_row [OF r, of C]
    by (auto simp: simulates_def intro: spec_promote)
qed

lemma exec_simulated:
  assumes hm: "hash_map_laws (w_tls W)" "hash_map_laws (w_ops W)" and laws: "schema_laws (schema C) tsz csz proper"
    and rdy: "ready W tsz csz C R" and ok: "cmd_ok tsz proper (abs_cache C R) c"
  shows "simulates W tsz csz c C R
    \<or> (\<exists>t spur v. c = Insert t spur v) \<and> exec W c C = Some Panic \<and> list_node (heap (oheap (oid_array C))) = 0"
proof (cases c)
  case (Insert t spur v)
  then show ?thesis using insert_simulated [OF hm laws rdy, of v] ok by simp
next
  case (Lock_Read sp r)
  then have "r \<in> R" "lock_of C r \<noteq> 127"
    using ok by (auto simp: abs_cache_def abs_lock_def split: if_splits)
  then show ?thesis using acquire_simulated(1) [OF rdy] Lock_Read by blast
next
  case (Lock_Write sp r)
  then show ?thesis using acquire_simulated(2) [OF rdy] ok by (auto simp: abs_cache_def split: if_splits)
next
  case (Drop_Read r)
  then have "r \<in> R" "0 < lock_of C r" "lock_of C r < 128"
    using ok by (auto simp: abs_cache_def abs_lock_iffs split: if_splits)
  then show ?thesis using release_simulated(1) [OF rdy] Drop_Read by blast
next
  case (Drop_Write r)
  then have "r \<in> R" "128 \<le> lock_of C r"
    using ok by (auto simp: abs_cache_def abs_lock_iffs split: if_splits)
  then show ?thesis using release_simulated(2) [OF rdy] Drop_Write by blast
next
  case (Get r query f)
  then show ?thesis using get_simulated(1) [OF laws rdy] ok abs_cache_dom by fastforce
next
  case (Get_Promote t spur r query f)
  then show ?thesis using get_simulated(2) [OF laws rdy _ _ _ hm(1)] ok abs_cache_dom by fastforce
next
  case (Put r query f v)
  then show ?thesis using put_simulated [OF laws rdy] ok abs_cache_dom by fastforce
qed

text \<open>Runs: the commands and replies of a client, and the same for the specification.\<close>

inductive runs ::
  "('l, 'm) world \<Rightarrow> nat \<Rightarrow> (Field \<Rightarrow> bool) \<Rightarrow> ('l, 'm) ClockCache \<Rightarrow> (cmd \<times> reply) list \<Rightarrow> ('l, 'm) ClockCache \<Rightarrow> Rid set \<Rightarrow> bool"
  for W tsz proper C0 where
  runs_nil: "runs W tsz proper C0 [] C0 {}"
| runs_snoc: "runs W tsz proper C0 evs C R \<Longrightarrow> cmd_ok tsz proper (abs_cache C R) c \<Longrightarrow>
    exec W c C = Some (Done (reply, C1)) \<Longrightarrow> runs W tsz proper C0 (evs @ [(c, reply)]) C1 (rows_after reply R)"

inductive spec_runs :: "(cmd \<times> reply) list \<Rightarrow> spec \<Rightarrow> bool" where
  spec_runs_nil: "spec_runs [] Map.empty"
| spec_runs_snoc: "spec_runs evs a \<Longrightarrow> spec_step a c reply a1 \<Longrightarrow> spec_runs (evs @ [(c, reply)]) a1"

lemma runs_simulated:
  assumes hm: "hash_map_laws (w_tls W)" "hash_map_laws (w_ops W)" and laws: "schema_laws (schema C0) tsz csz proper"
    and rdy: "ready W tsz csz C0 {}" and run: "runs W tsz proper C0 evs C R"
  shows "ready W tsz csz C R \<and> schema C = schema C0 \<and> spec_runs evs (abs_cache C R)"
  using run
proof induction
  case runs_nil
  have "abs_cache C0 {} = Map.empty"
    by (simp add: fun_eq_iff abs_cache_def)
  then show ?case using rdy spec_runs_nil by simp
next
  case (runs_snoc evs C R c reply C1)
  then have s: "ready W tsz csz C R" "schema C = schema C0" "spec_runs evs (abs_cache C R)"
    by simp_all
  then have "simulates W tsz csz c C R"
    using exec_simulated [OF hm laws [folded s(2)] s(1) runs_snoc(2)] runs_snoc(3) by simp
  then show ?case
    using runs_snoc(3) s(2,3) by (auto simp: simulates_def intro: spec_runs_snoc)
qed

lemma cache_new_ready:
  assumes hm: "hash_map_laws (w_tls W)" "hash_map_laws (w_ops W)"
    and new: "cache_new W fsz node_size tsz ptr m frame cache_size plen prng storage_size S = Some C"
    and sizes: "cache_size div node_size < 2 ^ 32" "storage_size div tsz + 8256 < 2 ^ 32" "0 < ptr"
    and frame: "\<forall>i. length (frame i) = tsz"
  shows "ready W tsz csz C {}" "schema C = S" "list_node (heap (oheap (oid_array C))) \<noteq> 0"
proof -
  obtain I O' where I: "inner_new (w_tls W) fsz node_size cache_size prng plen = Some I"
    "oid_array_new (w_ops W) (storage_size div tsz) ptr m = Some O'"
    "C = \<lparr> inner = I, storage = storage_new frame (oid_capacity O'), oid_array = O', schema = S \<rparr>"
    using new by (auto simp: cache_new_def Let_def split: option.splits if_splits)
  note i = inner_new_inv [OF hm(1) I(1) sizes(1)]
  note o = oid_array_new_inv [OF hm(2) I(2) sizes(3,2)]
  show "ready W tsz csz C {}" "schema C = S" "list_node (heap (oheap (oid_array C))) \<noteq> 0"
    using inner_inv_empty [OF i(1) o(1) i(2)] frame o(3) by (simp_all add: I(3) ready_def cache_inv_def storage_new_def)
qed

lemma cache_new_total:
  assumes "node_size \<le> cache_size" "0 < node_size" "0 < tsz"
  shows "\<exists>C. cache_new W fsz node_size tsz ptr m frame cache_size plen prng storage_size S = Some C"
  using assms oid_array_new_total [of "w_ops W" "storage_size div tsz" ptr m]
  by (auto simp: cache_new_def inner_new_def new_cap_def Let_def div_greater_zero_iff)

text \<open>Start from a reset cache.\<close>

lemma cache_reset_ready:
  assumes hm: "hash_map_laws (w_ops W)" and inv: "cache_inv W tsz csz C R" and reset: "cache_reset W C = Some C1"
  shows "ready W tsz csz C1 {}" "schema C1 = schema C"
proof -
  obtain O1 where O1: "oid_array_reset (w_ops W) (oid_array C) = Some O1"
    "C1 = C\<lparr> oid_array := O1, inner := inner_reset (inner C) \<rparr>"
    using reset by (auto simp: cache_reset_def)
  have i: "hands_ok (w_tls W) (inner C)" "oid_inv (w_ops W) (oid_array C) R"
    using inv by (simp_all add: cache_inv_def inner_inv_def)
  note o = oid_array_reset_inv [OF hm i(2) O1(1)]
  show "ready W tsz csz C1 {}" "schema C1 = schema C"
    using inner_inv_empty [OF inner_reset_inv(1) [OF i(1)] o(1) inner_reset_inv(2) [OF i(1)]] inv o(2)
    by (simp_all add: O1(2) ready_def cache_inv_def)
qed

section \<open>Properties\<close>

text \<open>
  C1: the attribute cache is transparent. Take any new cache (or any cache just reset) and any
  sequence of client commands, each issued with the guards the interface asks for: insertions,
  locking and unlocking, reads with and without promotion into the cache, field assignments, in any
  order and by any threads. Whatever slots were filled, evicted and written back, the replies are
  those of a plain map from row ids to tuples with a lock each.
\<close>

theorem cache_refines_map:
  assumes "hash_map_laws (w_tls W)" and "hash_map_laws (w_ops W)" and "schema_laws S tsz csz proper"
    and "cache_new W fsz node_size tsz ptr m frame cache_size plen prng storage_size S = Some C0"
    and "cache_size div node_size < 2 ^ 32" and "storage_size div tsz + 8256 < 2 ^ 32" and "0 < ptr"
    and "\<forall>i. length (frame i) = tsz"
    and "runs W tsz proper C0 evs C R"
  shows "spec_runs evs (abs_cache C R)
    \<and> (\<forall>C1 evs' C' R'. cache_reset W C = Some C1 \<longrightarrow> runs W tsz proper C1 evs' C' R' \<longrightarrow> spec_runs evs' (abs_cache C' R'))"
proof -
  note new = cache_new_ready [OF assms(1,2,4-8)]
  have laws: "schema_laws (schema C0) tsz csz proper"
    using assms(3) new(2) by simp
  have sim: "ready W tsz csz C R" "schema C = schema C0" "spec_runs evs (abs_cache C R)"
    using runs_simulated [OF assms(1,2) laws new(1) assms(9)] by simp_all
  have "spec_runs evs' (abs_cache C' R')"
    if "cache_reset W C = Some C1" "runs W tsz proper C1 evs' C' R'" for C1 evs' C' R'
  proof -
    have inv: "cache_inv W tsz csz C R"
      using sim(1) by (simp add: ready_def)
    note rst = cache_reset_ready [OF assms(2) inv that(1)]
    have "schema_laws (schema C1) tsz csz proper"
      using laws rst(2) sim(2) by simp
    then show ?thesis
      using runs_simulated [OF assms(1,2) _ rst(1) that(2)] by blast
  qed
  with sim(3) show ?thesis by blast
qed

text \<open>The world of the witnesses: maps, draws that always succeed.\<close>

definition test_world :: "(tid \<rightharpoonup> u32, tid \<rightharpoonup> nat) world" where
  "test_world = \<lparr> w_tls = map_ops, w_ops = map_ops, w_rng = (\<lambda>_ _. True) \<rparr>"

abbreviation test_new :: "(tid \<rightharpoonup> u32, tid \<rightharpoonup> nat) ClockCache option" where
  "test_new \<equiv> cache_new test_world 32 40 128 4096 (\<lambda>_. 0) (\<lambda>_. replicate 128 0) 400 6 (1 / 100) 12800 (item_schema TEST_FIELDS)"

lemma test_laws: "hash_map_laws (w_tls test_world)" "hash_map_laws (w_ops test_world)"
  by (simp_all add: test_world_def maps.hash_map_laws_axioms)

lemma test_ready:
  obtains C0 where "test_new = Some C0" "ready test_world 128 32 C0 {}" "schema C0 = item_schema TEST_FIELDS"
    "list_node (heap (oheap (oid_array C0))) \<noteq> 0"
proof -
  obtain C0 where new: "test_new = Some C0"
    using cache_new_total [of 40 400 128 test_world] by fastforce
  show ?thesis
    using that [OF new] cache_new_ready [OF test_laws new] by simp
qed

lemma test_schema: "schema_laws (item_schema TEST_FIELDS) 128 32 (\<lambda>f. f \<in> word_field ` {..<16})"
  using test_schema_laws by (simp add: TEST_FIELDS_def)

lemma test_insert:
  assumes "length v = 128"
  obtains C0 r C where "test_new = Some C0" "ready test_world 128 32 C0 {}" "schema C0 = item_schema TEST_FIELDS"
    "runs test_world 128 (\<lambda>f. f \<in> word_field ` {..<16}) C0 [(Insert 1 (\<lambda>_. (False, False)) v, Row_Id r)] C {r}"
proof -
  obtain C0 where C0: "test_new = Some C0" "ready test_world 128 32 C0 {}" "schema C0 = item_schema TEST_FIELDS"
    "list_node (heap (oheap (oid_array C0))) \<noteq> 0"
    using test_ready by blast
  let ?c = "Insert 1 (\<lambda>_. (False, False)) v" and ?p = "\<lambda>f. f \<in> word_field ` {..<16}"
  have laws: "schema_laws (schema C0) 128 32 ?p"
    using test_schema C0(3) by simp
  have ok: "cmd_ok 128 ?p (abs_cache C0 {}) ?c"
    using assms by simp
  from exec_simulated [OF test_laws laws C0(2) ok] C0(4)
  obtain r C where "exec test_world ?c C0 = Some (Done (Row_Id r, C))"
    by (auto simp: simulates_def elim: spec_step.cases)
  with runs_snoc [OF runs_nil ok this] show ?thesis
    using that [OF C0(1-3)] by simp
qed

theorem cache_refines_map_witness:
  "\<exists>C0 r C. test_new = Some C0
     \<and> runs test_world 128 (\<lambda>f. f \<in> word_field ` {..<16}) C0 [(Insert 1 (\<lambda>_. (False, False)) (replicate 128 5), Row_Id r)] C {r}
     \<and> spec_runs [(Insert 1 (\<lambda>_. (False, False)) (replicate 128 5), Row_Id r)] (abs_cache C {r})"
proof -
  obtain C0 r C where C: "test_new = Some C0"
    "runs test_world 128 (\<lambda>f. f \<in> word_field ` {..<16}) C0 [(Insert 1 (\<lambda>_. (False, False)) (replicate 128 5), Row_Id r)] C {r}"
    by (rule test_insert [OF length_replicate])
  have "spec_runs [(Insert 1 (\<lambda>_. (False, False)) (replicate 128 5), Row_Id r)] (abs_cache C {r})"
    using cache_refines_map [OF test_laws test_schema C(1) _ _ _ _ C(2)] by simp
  with C show ?thesis by blast
qed

lemma runs_ready:
  assumes "hash_map_laws (w_tls W)" "hash_map_laws (w_ops W)" "schema_laws S tsz csz proper"
    "cache_new W fsz node_size tsz ptr m frame cache_size plen prng storage_size S = Some C0"
    "cache_size div node_size < 2 ^ 32" "storage_size div tsz + 8256 < 2 ^ 32" "0 < ptr"
    "\<forall>i. length (frame i) = tsz" "runs W tsz proper C0 evs C R"
  shows "ready W tsz csz C R" "schema C = S"
proof -
  note new = cache_new_ready [OF assms(1,2,4-8)]
  have "schema_laws (schema C0) tsz csz proper"
    using assms(3) new(2) by simp
  then show "ready W tsz csz C R" "schema C = S"
    using runs_simulated [OF assms(1,2) _ new(1) assms(9)] new(2) by auto
qed



text \<open>
  C3: slots and object ids agree in every reachable state. Each row refers to itself or to a slot
  that holds exactly this row; two rows never share a slot; a slot that is not empty holds a row
  of the table that refers to it, with an item of the size of the cached part; every row lies
  within the table storage.
\<close>

theorem slots_agree:
  assumes "hash_map_laws (w_tls W)" and "hash_map_laws (w_ops W)" and "schema_laws S tsz csz proper"
    and "cache_new W fsz node_size tsz ptr m frame cache_size plen prng storage_size S = Some C0"
    and "cache_size div node_size < 2 ^ 32" and "storage_size div tsz + 8256 < 2 ^ 32" and "0 < ptr"
    and "\<forall>i. length (frame i) = tsz"
    and "runs W tsz proper C0 evs C R"
  shows "(\<forall>r\<in>R. unat (as_u32 r) < st_cap (storage C)
      \<and> (oid_ref_of (get_sync (oid_array C) r) = Row r
         \<or> (\<exists>i<length (entries (inner C)). oid_ref_of (get_sync (oid_array C) r) = Slot i
              \<and> clock_rid (entries (inner C) ! i) = r)))
    \<and> (\<forall>r\<in>R. \<forall>r'\<in>R. \<forall>i. oid_ref_of (get_sync (oid_array C) r) = Slot i
          \<and> oid_ref_of (get_sync (oid_array C) r') = Slot i \<longrightarrow> r = r')
    \<and> (\<forall>i<length (entries (inner C)). slot_ok csz (oid_array C) R i (entries (inner C) ! i))"
proof -
  have inv: "cache_inv W tsz csz C R"
    using runs_ready(1) [OF assms] by (simp add: ready_def)
  then have i: "inner_inv (w_tls W) (w_ops W) csz (inner C) (oid_array C) R"
    by (simp add: cache_inv_def)
  have "oid_ref_of (get_sync (oid_array C) r) = Row r
      \<or> (\<exists>i<length (entries (inner C)). oid_ref_of (get_sync (oid_array C) r) = Slot i
           \<and> clock_rid (entries (inner C) ! i) = r)" if "r \<in> R" for r
    using inner_inv_rows(1) [OF i that]
    by (cases "oid_ref_of (get_sync (oid_array C) r)") (auto simp: row_ok_def clock_rid_eq)
  moreover have "slot_ok csz (oid_array C) R j (entries (inner C) ! j)" if "j < length (entries (inner C))" for j
    using i that by (simp add: inner_inv_def)
  ultimately show ?thesis
    using cache_inv_rows(4) [OF inv] slot_unique [OF i] by blast
qed

theorem slots_agree_witness:
  "\<exists>C0 r C. test_new = Some C0
     \<and> runs test_world 128 (\<lambda>f. f \<in> word_field ` {..<16}) C0 [(Insert 1 (\<lambda>_. (False, False)) (replicate 128 5), Row_Id r)] C {r}
     \<and> unat (as_u32 r) < st_cap (storage C)"
proof -
  obtain C0 r C where C: "test_new = Some C0"
    "runs test_world 128 (\<lambda>f. f \<in> word_field ` {..<16}) C0 [(Insert 1 (\<lambda>_. (False, False)) (replicate 128 5), Row_Id r)] C {r}"
    by (rule test_insert [OF length_replicate])
  with slots_agree [OF test_laws test_schema C(1) _ _ _ _ C(2)] show ?thesis
    by auto
qed

end
