(* ===== verification/Db_Index.thy ===== *)
theory Db_Index
  imports Heap_Array Oid_Word
begin

text \<open>
  \<^verbatim>\<open>src/index/mod.rs\<close>: the index trait from keys to row ids and its two implementations, over the
  concurrent maps of the \<^verbatim>\<open>congee\<close> and \<^verbatim>\<open>flurry\<close> crates. The maps are parameters with the laws of a
  hash map; epoch guards only delay memory reclamation and have no counterpart.
\<close>

section \<open>Definitions\<close>

record 'i DbIndex =
  ix_get :: "'i \<Rightarrow> usize \<Rightarrow> Rid option"
  ix_insert :: "'i \<Rightarrow> usize \<Rightarrow> Rid \<Rightarrow> 'i"
  ix_new :: 'i
  ix_with_capacity :: "nat \<Rightarrow> 'i"

text \<open>\<^verbatim>\<open>congee::ArtRaw\<close> stores machine words; a row id is converted on the way in and out.\<close>

record 'i congee =
  art_map :: "(usize, usize, 'i) hash_map"
  art_scan :: "'i \<Rightarrow> usize \<Rightarrow> usize \<Rightarrow> nat \<Rightarrow> (usize \<times> usize) list"

definition art_get :: "'i congee \<Rightarrow> 'i \<Rightarrow> usize \<Rightarrow> Rid option" where
  "art_get G m k = (case hm_get (art_map G) m k of None \<Rightarrow> None | Some v \<Rightarrow> Some (rid_from_usize v))"

definition art_insert :: "'i congee \<Rightarrow> 'i \<Rightarrow> usize \<Rightarrow> Rid \<Rightarrow> 'i" where
  "art_insert G m k rid = hm_insert (art_map G) m k (usize_from_rid rid)"

definition art_new :: "'i congee \<Rightarrow> 'i" where
  "art_new G = hm_new (art_map G)"

definition art_with_capacity :: "'i congee \<Rightarrow> nat \<Rightarrow> 'i" where
  "art_with_capacity G c = art_new G"

definition Art :: "'i congee \<Rightarrow> 'i DbIndex" where
  "Art G = \<lparr> ix_get = art_get G, ix_insert = art_insert G, ix_new = art_new G, ix_with_capacity = art_with_capacity G \<rparr>"

text \<open>
  \<^verbatim>\<open>range\<close> fills the front of the buffer with pairs of keys and values and returns how many there are;
  \<open>art_scan\<close> gives the pairs for a buffer of the given length.
\<close>

definition art_range :: "'i congee \<Rightarrow> 'i \<Rightarrow> usize \<Rightarrow> usize \<Rightarrow> (usize \<times> usize) list \<Rightarrow> nat \<times> (usize \<times> usize) list" where
  "art_range G m low high buf =
     (let found = art_scan G m low high (length buf) in (length found, found @ drop (length found) buf))"

definition flurry_get :: "(usize, Rid, 'i) hash_map \<Rightarrow> 'i \<Rightarrow> usize \<Rightarrow> Rid option" where
  "flurry_get ops m k = (case hm_get ops m k of None \<Rightarrow> None | Some rid \<Rightarrow> Some rid)"

definition flurry_insert :: "(usize, Rid, 'i) hash_map \<Rightarrow> 'i \<Rightarrow> usize \<Rightarrow> Rid \<Rightarrow> 'i" where
  "flurry_insert ops m k rid = hm_insert ops m k rid"

definition flurry_new :: "(usize, Rid, 'i) hash_map \<Rightarrow> 'i" where
  "flurry_new ops = hm_new ops"

text \<open>A capacity is a hint: the map starts empty.\<close>

definition flurry_with_capacity :: "(usize, Rid, 'i) hash_map \<Rightarrow> nat \<Rightarrow> 'i" where
  "flurry_with_capacity ops c = hm_new ops"

definition FlurryMap :: "(usize, Rid, 'i) hash_map \<Rightarrow> 'i DbIndex" where
  "FlurryMap ops = \<lparr> ix_get = flurry_get ops, ix_insert = flurry_insert ops, ix_new = flurry_new ops,
     ix_with_capacity = flurry_with_capacity ops \<rparr>"

section \<open>The contract of an index\<close>

locale db_index =
  fixes X :: "'i DbIndex"
  assumes get_new: "ix_get X (ix_new X) k = None"
    and get_with_capacity: "ix_get X (ix_with_capacity X c) k = None"
    and get_insert: "ix_get X (ix_insert X m k r) k' = (if k' = k then Some r else ix_get X m k')"
begin

lemma index_insert: "ix_get X (ix_insert X m k r) = (ix_get X m)(k \<mapsto> r)"
  by (simp add: fun_eq_iff get_insert)

lemma index_new: "ix_get X (ix_new X) = Map.empty" "ix_get X (ix_with_capacity X c) = Map.empty"
  by (simp_all add: fun_eq_iff get_new get_with_capacity)

end

lemma rid_usize_round_trip [simp]: "rid_from_usize (usize_from_rid r) = r"
  by (cases r) (simp add: rid_from_usize_def usize_from_rid_def from_u32_def ucast_down_ucast_id is_down)

text \<open>Both implementations meet it, whatever maps the crates provide.\<close>

locale congee_laws =
  fixes G :: "'i congee"
  assumes art_map_laws: "hash_map_laws (art_map G)"
    and scan_short: "length (art_scan G m low high n) \<le> n"
    and scan_stored: "(k, v) \<in> set (art_scan G m low high n) \<Longrightarrow> hm_get (art_map G) m k = Some v"
begin

lemma art_range_count: "fst (art_range G m low high buf) \<le> length buf"
  by (simp add: art_range_def Let_def scan_short)

lemma art_range_length: "length (snd (art_range G m low high buf)) = length buf"
  using scan_short [of m low high "length buf"] by (simp add: art_range_def Let_def)

end

sublocale congee_laws \<subseteq> art: db_index "Art G"
  by unfold_locales
    (simp_all add: Art_def art_get_def art_insert_def art_new_def art_with_capacity_def
      hash_map_laws.get_new [OF art_map_laws] hash_map_laws.get_insert [OF art_map_laws])

lemma flurry_index:
  assumes "hash_map_laws ops"
  shows "db_index (FlurryMap ops)"
  by unfold_locales
    (simp_all add: FlurryMap_def flurry_get_def flurry_insert_def flurry_new_def flurry_with_capacity_def
      hash_map_laws.get_new [OF assms] hash_map_laws.get_insert [OF assms] split: option.split)

text \<open>The instance on plain maps scans the keys in order.\<close>

definition ordered_scan :: "(usize \<Rightarrow> usize option) \<Rightarrow> usize \<Rightarrow> usize \<Rightarrow> nat \<Rightarrow> (usize \<times> usize) list" where
  "ordered_scan m low high n =
     take n (map (\<lambda>k. (k, the (m k))) (sorted_list_of_set {k. low \<le> k \<and> k < high \<and> m k \<noteq> None}))"

definition map_congee :: "(usize \<Rightarrow> usize option) congee" where
  "map_congee = \<lparr> art_map = map_ops, art_scan = ordered_scan \<rparr>"

interpretation congee_maps: congee_laws map_congee
proof (rule congee_laws.intro)
  show "hash_map_laws (art_map map_congee)"
    by (simp add: map_congee_def maps.hash_map_laws_axioms)
  show "length (art_scan map_congee m low high n) \<le> n" for m low high n
    by (simp add: map_congee_def ordered_scan_def)
  show "hm_get (art_map map_congee) m k = Some v" if "(k, v) \<in> set (art_scan map_congee m low high n)" for m low high n k v
    using set_mp [OF set_take_subset that [unfolded map_congee_def congee.select_convs ordered_scan_def]]
    by (auto simp: map_congee_def map_ops_def)
qed

interpretation flurry_maps: db_index "FlurryMap map_ops"
  by (rule flurry_index [OF maps.hash_map_laws_axioms])

end
