(* ===== verification/Db_Table.thy ===== *)
theory Db_Table
  imports Clock_Cache Db_Index
begin

text \<open>
  \<open>DbTable\<close> and its builder of \<^verbatim>\<open>src/table.rs\<close>: the attribute cache with an index from keys to row ids.
  The index implementation is a parameter with the contract \<open>db_index\<close>.
\<close>

section \<open>Definitions\<close>

record ('l, 'm, 'i) DbTable =
  cache :: "('l, 'm) ClockCache"
  index :: 'i

text \<open>The builder; the metric context only selects counters.\<close>

record ('i, 'c) DbTableBuilder =
  b_cache_size :: "nat option"
  b_storage_size :: "nat option"
  b_probe_len :: "nat option"
  b_probe_rng :: "rat option"
  b_index :: "'i option"
  b_schema :: "Schema option"
  b_metric_context :: "'c option"

definition builder_new :: "('i, 'c) DbTableBuilder" where
  "builder_new = \<lparr> b_cache_size = None, b_storage_size = None, b_probe_len = None, b_probe_rng = None,
     b_index = None, b_schema = None, b_metric_context = None \<rparr>"

definition builder_cache :: "nat \<Rightarrow> ('i, 'c) DbTableBuilder \<Rightarrow> ('i, 'c) DbTableBuilder" where
  "builder_cache sz b = b\<lparr> b_cache_size := Some sz \<rparr>"

definition builder_storage :: "nat \<Rightarrow> ('i, 'c) DbTableBuilder \<Rightarrow> ('i, 'c) DbTableBuilder" where
  "builder_storage sz b = b\<lparr> b_storage_size := Some sz \<rparr>"

definition builder_probe_len :: "nat option \<Rightarrow> ('i, 'c) DbTableBuilder \<Rightarrow> ('i, 'c) DbTableBuilder" where
  "builder_probe_len n b = b\<lparr> b_probe_len := n \<rparr>"

definition builder_probe_rng :: "rat \<Rightarrow> ('i, 'c) DbTableBuilder \<Rightarrow> ('i, 'c) DbTableBuilder" where
  "builder_probe_rng p b = b\<lparr> b_probe_rng := Some p \<rparr>"

definition builder_index :: "'i \<Rightarrow> ('i, 'c) DbTableBuilder \<Rightarrow> ('i, 'c) DbTableBuilder" where
  "builder_index ix b = b\<lparr> b_index := Some ix \<rparr>"

definition builder_schema :: "Schema \<Rightarrow> ('i, 'c) DbTableBuilder \<Rightarrow> ('i, 'c) DbTableBuilder" where
  "builder_schema S b = b\<lparr> b_schema := Some S \<rparr>"

definition builder_metric_context :: "'c \<Rightarrow> ('i, 'c) DbTableBuilder \<Rightarrow> ('i, 'c) DbTableBuilder" where
  "builder_metric_context c b = b\<lparr> b_metric_context := Some c \<rparr>"

text \<open>
  \<^verbatim>\<open>build\<close>. A missing setting and a division by a tuple size of 0 panic: \<^const>\<open>None\<close>. \<open>fsz\<close>, \<open>node_size\<close> and \<open>tsz\<close> are the sizes of a cached item,
  a slot and a tuple; \<open>ptr\<close>, \<open>m\<close> and \<open>frame\<close> are the memory the allocations return.
\<close>

definition build ::
  "('l, 'm) world \<Rightarrow> 'i DbIndex \<Rightarrow> nat \<Rightarrow> nat \<Rightarrow> nat \<Rightarrow> addr \<Rightarrow> memory \<Rightarrow> (nat \<Rightarrow> bytes)
    \<Rightarrow> ('i, 'c) DbTableBuilder \<Rightarrow> ('l, 'm, 'i) DbTable option" where
  "build W X fsz node_size tsz ptr m frame b =
     (case b_cache_size b of
        None \<Rightarrow> None
      | Some cache_size \<Rightarrow>
          let probe = (case b_probe_len b of None \<Rightarrow> 6 | Some n \<Rightarrow> n);
              prng = (case b_probe_rng b of None \<Rightarrow> 1 / 100 | Some p \<Rightarrow> p)
          in (case b_storage_size b of
                None \<Rightarrow> None
              | Some stg \<Rightarrow>
                  if tsz = 0 then None else
                  let c = stg div tsz;
                      ix = (case b_index b of None \<Rightarrow> ix_with_capacity X c | Some i \<Rightarrow> i)
                  in (case b_schema b of
                        None \<Rightarrow> None
                      | Some S \<Rightarrow>
                          map_option (\<lambda>C. \<lparr> cache = C, index = ix \<rparr>)
                            (cache_new W fsz node_size tsz ptr m frame cache_size probe prng stg S))))"

text \<open>
  \<^verbatim>\<open>range\<close> on an \<open>Art\<close> index fills a buffer of row ids; \<^const>\<open>Panic\<close> is an index out of range.
\<close>

fun copy_rids :: "nat \<Rightarrow> (usize \<times> usize) list \<Rightarrow> Rid list \<Rightarrow> Rid list outcome" where
  "copy_rids i [] buf = Done buf"
| "copy_rids i (v # vs) buf =
     (if i < length buf then copy_rids (i + 1) vs (buf[i := from_u32 (ucast (snd v))]) else Panic)"

definition table_range ::
  "'i congee \<Rightarrow> usize \<Rightarrow> usize \<Rightarrow> Rid list \<Rightarrow> ('l, 'm, 'i) DbTable \<Rightarrow> (nat option \<times> Rid list) outcome" where
  "table_range G low high rid_buffer T =
     (let range_buffer = replicate (length rid_buffer) (0, 0);
          (scanned, range_buffer) = art_range G (index T) low high range_buffer
      in case copy_rids 0 (take scanned range_buffer) rid_buffer of
           Done buf \<Rightarrow> Done (Some scanned, buf)
         | Fail e \<Rightarrow> Fail e
         | Panic \<Rightarrow> Panic)"

definition table_reset :: "('l, 'm) world \<Rightarrow> 'i DbIndex \<Rightarrow> ('l, 'm, 'i) DbTable \<Rightarrow> ('l, 'm, 'i) DbTable option" where
  "table_reset W X T = map_option (\<lambda>C. T\<lparr> index := ix_new X, cache := C \<rparr>) (cache_reset W (cache T))"

definition table_insert ::
  "('l, 'm) world \<Rightarrow> 'i DbIndex \<Rightarrow> tid \<Rightarrow> (nat \<Rightarrow> bool \<times> bool) \<Rightarrow> bytes \<Rightarrow> ('l, 'm, 'i) DbTable
    \<Rightarrow> (Rid \<times> ('l, 'm, 'i) DbTable) outcome option" where
  "table_insert W X t spur rec T =
     (let k = key (schema (cache T)) rec
      in case cache_insert W t spur rec (cache T) of
           Some (Done (rid, C)) \<Rightarrow> Some (Done (rid, T\<lparr> cache := C, index := ix_insert X (index T) k rid \<rparr>))
         | Some (Fail e) \<Rightarrow> Some (Fail e)
         | Some Panic \<Rightarrow> Some Panic
         | None \<Rightarrow> None)"

definition table_thread_init :: "('l, 'm) world \<Rightarrow> (u32 \<Rightarrow> u32) \<Rightarrow> tid \<Rightarrow> ('l, 'm, 'i) DbTable \<Rightarrow> ('l, 'm, 'i) DbTable" where
  "table_thread_init W pick t T = T\<lparr> cache := cache_thread_init W pick t (cache T) \<rparr>"

definition table_read ::
  "('l, 'm) world \<Rightarrow> Rid \<Rightarrow> FieldsMeta \<Rightarrow> ('l, 'm, 'i) DbTable \<Rightarrow> row_value outcome \<times> ('l, 'm, 'i) DbTable" where
  "table_read W oid_guard query T = (let (q, C) = cache_read W oid_guard query (cache T) in (q, T\<lparr> cache := C \<rparr>))"

definition table_read_and_promote ::
  "('l, 'm) world \<Rightarrow> tid \<Rightarrow> (nat \<Rightarrow> bool \<times> bool) \<Rightarrow> Rid \<Rightarrow> FieldsMeta \<Rightarrow> ('l, 'm, 'i) DbTable
    \<Rightarrow> row_value outcome \<times> ('l, 'm, 'i) DbTable" where
  "table_read_and_promote W t spur oid_guard query T =
     (let (q, C) = read_and_promote W t spur oid_guard query (cache T) in (q, T\<lparr> cache := C \<rparr>))"

text \<open>The lookups return the guard, named by its row, or the error.\<close>

definition table_read_oid ::
  "'i DbIndex \<Rightarrow> bool \<Rightarrow> usize \<Rightarrow> ('l, 'm, 'i) DbTable \<Rightarrow> (TransactionError + Rid) \<times> ('l, 'm, 'i) DbTable" where
  "table_read_oid X spurious k T =
     (case ix_get X (index T) k of
        None \<Rightarrow> (Inl IndexNotFound, T)
      | Some idx \<Rightarrow>
          let (res, C) = read_lock spurious idx (cache T)
          in (case res of Inl e \<Rightarrow> Inl e | Inr _ \<Rightarrow> Inr idx, T\<lparr> cache := C \<rparr>))"

definition table_read_oid_sync ::
  "'i DbIndex \<Rightarrow> bool \<Rightarrow> usize \<Rightarrow> ('l, 'm, 'i) DbTable \<Rightarrow> (TransactionError + Rid) \<times> ('l, 'm, 'i) DbTable" where
  "table_read_oid_sync X spurious k T =
     (case ix_get X (index T) k of
        None \<Rightarrow> (Inl IndexNotFound, T)
      | Some idx \<Rightarrow>
          let (res, C) = read_lock_sync spurious idx (cache T)
          in (case res of Inl e \<Rightarrow> Inl e | Inr _ \<Rightarrow> Inr idx, T\<lparr> cache := C \<rparr>))"

definition table_lock_rid_r ::
  "bool \<Rightarrow> Rid \<Rightarrow> ('l, 'm, 'i) DbTable \<Rightarrow> (TransactionError + unit) \<times> ('l, 'm, 'i) DbTable" where
  "table_lock_rid_r spurious rid T = (let (res, C) = read_lock spurious rid (cache T) in (res, T\<lparr> cache := C \<rparr>))"

definition table_lock_rid_w ::
  "bool \<Rightarrow> Rid \<Rightarrow> ('l, 'm, 'i) DbTable \<Rightarrow> (TransactionError + unit) \<times> ('l, 'm, 'i) DbTable" where
  "table_lock_rid_w spurious rid T = (let (res, C) = write_lock spurious rid (cache T) in (res, T\<lparr> cache := C \<rparr>))"

definition table_write_oid ::
  "'i DbIndex \<Rightarrow> bool \<Rightarrow> usize \<Rightarrow> ('l, 'm, 'i) DbTable \<Rightarrow> (TransactionError + Rid) \<times> ('l, 'm, 'i) DbTable" where
  "table_write_oid X spurious k T =
     (case ix_get X (index T) k of
        None \<Rightarrow> (Inl IndexNotFound, T)
      | Some idx \<Rightarrow>
          let (res, C) = write_lock spurious idx (cache T)
          in (case res of Inl e \<Rightarrow> Inl e | Inr _ \<Rightarrow> Inr idx, T\<lparr> cache := C \<rparr>))"

definition table_write_oid_sync ::
  "'i DbIndex \<Rightarrow> bool \<Rightarrow> usize \<Rightarrow> ('l, 'm, 'i) DbTable \<Rightarrow> (TransactionError + Rid) \<times> ('l, 'm, 'i) DbTable" where
  "table_write_oid_sync X spurious k T =
     (case ix_get X (index T) k of
        None \<Rightarrow> (Inl IndexNotFound, T)
      | Some idx \<Rightarrow>
          let (res, C) = write_lock_sync spurious idx (cache T)
          in (case res of Inl e \<Rightarrow> Inl e | Inr _ \<Rightarrow> Inr idx, T\<lparr> cache := C \<rparr>))"

section \<open>Refinement of a keyed map\<close>

text \<open>The commands of a client of the table. Row commands need a guard; insertion goes through \<open>Add\<close>.\<close>

datatype tcmd =
    Add tid "nat \<Rightarrow> bool \<times> bool" bytes
  | Find_Read bool usize
  | Find_Write bool usize
  | On_Row cmd

definition find_reply ::
  "(TransactionError + Rid) \<times> ('l, 'm, 'i) DbTable \<Rightarrow> (reply \<times> ('l, 'm, 'i) DbTable) outcome option" where
  "find_reply x = Some (Done (case fst x of Inr r \<Rightarrow> Row_Id r | Inl e \<Rightarrow> Refused e, snd x))"

text \<open>A reply computed from the cache of a table.\<close>

definition on_table ::
  "('l, 'm, 'i) DbTable \<Rightarrow> (reply \<times> ('l, 'm) ClockCache) outcome option \<Rightarrow> (reply \<times> ('l, 'm, 'i) DbTable) outcome option"
  where
  "on_table T x =
     (case x of
        Some (Done (reply, C)) \<Rightarrow> Some (Done (reply, T\<lparr> cache := C \<rparr>))
      | Some (Fail e) \<Rightarrow> Some (Fail e)
      | Some Panic \<Rightarrow> Some Panic
      | None \<Rightarrow> None)"

fun row_exec :: "('l, 'm) world \<Rightarrow> cmd \<Rightarrow> ('l, 'm, 'i) DbTable \<Rightarrow> (reply \<times> ('l, 'm, 'i) DbTable) outcome option" where
  "row_exec W (Lock_Read sp r) T = (let (x, T1) = table_lock_rid_r sp r T in on_table T1 (lock_reply (x, cache T1)))"
| "row_exec W (Lock_Write sp r) T = (let (x, T1) = table_lock_rid_w sp r T in on_table T1 (lock_reply (x, cache T1)))"
| "row_exec W (Get r query f) T = (let (x, T1) = table_read W r query T in on_table T1 (value_reply f (x, cache T1)))"
| "row_exec W (Get_Promote t spur r query f) T =
     (let (x, T1) = table_read_and_promote W t spur r query T in on_table T1 (value_reply f (x, cache T1)))"
| "row_exec W (Put r query f v) T =
     (case table_read W r query T of
        (Done q, T1) \<Rightarrow> (case assign q f v (cache T1) of
            Inr C \<Rightarrow> Some (Done (Nothing, T1\<lparr> cache := C \<rparr>)) | Inl _ \<Rightarrow> Some Panic)
      | _ \<Rightarrow> Some Panic)"
| "row_exec W c T = on_table T (exec W c (cache T))"

fun texec ::
  "('l, 'm) world \<Rightarrow> 'i DbIndex \<Rightarrow> tcmd \<Rightarrow> ('l, 'm, 'i) DbTable \<Rightarrow> (reply \<times> ('l, 'm, 'i) DbTable) outcome option" where
  "texec W X (Add t spur v) T =
     (case table_insert W X t spur v T of
        Some (Done (r, T1)) \<Rightarrow> Some (Done (Row_Id r, T1)) | Some _ \<Rightarrow> Some Panic | None \<Rightarrow> None)"
| "texec W X (Find_Read sp k) T = find_reply (table_read_oid X sp k T)"
| "texec W X (Find_Write sp k) T = find_reply (table_write_oid X sp k T)"
| "texec W X (On_Row c) T = row_exec W c T"

type_synonym tspec = "spec \<times> (usize \<Rightarrow> Rid option)"

definition is_insert :: "cmd \<Rightarrow> bool" where
  "is_insert c \<longleftrightarrow> (\<exists>t spur v. c = Insert t spur v)"

inductive tspec_step :: "(bytes \<Rightarrow> usize) \<Rightarrow> tspec \<Rightarrow> tcmd \<Rightarrow> reply \<Rightarrow> tspec \<Rightarrow> bool" for kf where
  tspec_add: "a r = None \<Longrightarrow> tspec_step kf (a, ix) (Add t spur v) (Row_Id r) (a(r \<mapsto> (v, Writer)), ix(kf v \<mapsto> r))"
| tspec_read: "ix k = Some r \<Longrightarrow> spec_step a (Lock_Read sp r) Locked a1 \<Longrightarrow> tspec_step kf (a, ix) (Find_Read sp k) (Row_Id r) (a1, ix)"
| tspec_read_busy: "ix k = Some r \<Longrightarrow> spec_step a (Lock_Read sp r) (Refused e) a1 \<Longrightarrow>
    tspec_step kf (a, ix) (Find_Read sp k) (Refused e) (a1, ix)"
| tspec_read_none: "ix k = None \<Longrightarrow> tspec_step kf (a, ix) (Find_Read sp k) (Refused IndexNotFound) (a, ix)"
| tspec_write: "ix k = Some r \<Longrightarrow> spec_step a (Lock_Write sp r) Locked a1 \<Longrightarrow> tspec_step kf (a, ix) (Find_Write sp k) (Row_Id r) (a1, ix)"
| tspec_write_busy: "ix k = Some r \<Longrightarrow> spec_step a (Lock_Write sp r) (Refused e) a1 \<Longrightarrow>
    tspec_step kf (a, ix) (Find_Write sp k) (Refused e) (a1, ix)"
| tspec_write_none: "ix k = None \<Longrightarrow> tspec_step kf (a, ix) (Find_Write sp k) (Refused IndexNotFound) (a, ix)"
| tspec_row: "spec_step a c reply a1 \<Longrightarrow> \<not> is_insert c \<Longrightarrow> tspec_step kf (a, ix) (On_Row c) reply (a1, ix)"

fun tcmd_ok :: "nat \<Rightarrow> (Field \<Rightarrow> bool) \<Rightarrow> tspec \<Rightarrow> tcmd \<Rightarrow> bool" where
  "tcmd_ok tsz proper (a, ix) (Add t spur v) \<longleftrightarrow> length v = tsz"
| "tcmd_ok tsz proper (a, ix) (Find_Read sp k) \<longleftrightarrow> (\<forall>r v. ix k = Some r \<longrightarrow> a r \<noteq> Some (v, Readers 127))"
| "tcmd_ok tsz proper (a, ix) (Find_Write sp k) \<longleftrightarrow> True"
| "tcmd_ok tsz proper (a, ix) (On_Row c) \<longleftrightarrow> cmd_ok tsz proper a c \<and> \<not> is_insert c"

definition abs_table :: "'i DbIndex \<Rightarrow> ('l, 'm, 'i) DbTable \<Rightarrow> Rid set \<Rightarrow> tspec" where
  "abs_table X T R = (abs_cache (cache T) R, ix_get X (index T))"

definition tready :: "('l, 'm) world \<Rightarrow> 'i DbIndex \<Rightarrow> nat \<Rightarrow> nat \<Rightarrow> ('l, 'm, 'i) DbTable \<Rightarrow> Rid set \<Rightarrow> bool" where
  "tready W X tsz csz T R \<longleftrightarrow> ready W tsz csz (cache T) R \<and> (\<forall>k r. ix_get X (index T) k = Some r \<longrightarrow> r \<in> R)"

fun trows_after :: "tcmd \<Rightarrow> reply \<Rightarrow> Rid set \<Rightarrow> Rid set" where
  "trows_after (Add t spur v) reply R = rows_after reply R"
| "trows_after _ reply R = R"

text \<open>The table functions on a row are those of its cache.\<close>

lemma row_exec_cache: "row_exec W c T = on_table T (exec W c (cache T))"
proof (cases c)
  case (Put r query f v)
  then show ?thesis
    by (auto simp: table_read_def on_table_def split: prod.split outcome.split sum.split)
qed (simp_all add: table_lock_rid_r_def table_lock_rid_w_def table_read_def table_read_and_promote_def
    on_table_def lock_reply_def value_reply_def split_def Let_def split: prod.split outcome.split sum.split option.split)

definition tsimulates ::
  "('l, 'm) world \<Rightarrow> 'i DbIndex \<Rightarrow> nat \<Rightarrow> nat \<Rightarrow> tcmd \<Rightarrow> ('l, 'm, 'i) DbTable \<Rightarrow> Rid set \<Rightarrow> bool" where
  "tsimulates W X tsz csz c T R \<longleftrightarrow>
     (\<exists>reply T1. texec W X c T = Some (Done (reply, T1)) \<and> tready W X tsz csz T1 (trows_after c reply R)
        \<and> schema (cache T1) = schema (cache T)
        \<and> tspec_step (key (schema (cache T))) (abs_table X T R) c reply (abs_table X T1 (trows_after c reply R)))"

inductive_cases spec_insertE: "spec_step a (Insert t spur v) reply a1"
inductive_cases spec_lock_readE: "spec_step a (Lock_Read sp r) reply a1"
inductive_cases spec_lock_writeE: "spec_step a (Lock_Write sp r) reply a1"

lemma add_simulated:
  assumes X: "db_index X" and hm: "hash_map_laws (w_tls W)" "hash_map_laws (w_ops W)"
    and laws: "schema_laws (schema (cache T)) tsz csz proper"
    and rdy: "tready W X tsz csz T R" and v: "length v = tsz"
  shows "tsimulates W X tsz csz (Add t spur v) T R
    \<or> texec W X (Add t spur v) T = Some Panic \<and> list_node (heap (oheap (oid_array (cache T)))) = 0"
proof -
  let ?c = "Insert t spur v"
  have rdy': "ready W tsz csz (cache T) R" and ix: "\<forall>k r. ix_get X (index T) k = Some r \<longrightarrow> r \<in> R"
    using rdy by (simp_all add: tready_def)
  show ?thesis
  proof (cases "simulates W tsz csz ?c (cache T) R")
    case False
    then have p: "exec W ?c (cache T) = Some Panic" "list_node (heap (oheap (oid_array (cache T)))) = 0"
      using insert_simulated [OF hm laws rdy' v] by blast+
    then show ?thesis
      by (auto simp: table_insert_def split: option.splits outcome.splits prod.splits)
  next
    case True
    then obtain reply C1 where s: "exec W ?c (cache T) = Some (Done (reply, C1))"
      "ready W tsz csz C1 (rows_after reply R)" "schema C1 = schema (cache T)"
      "spec_step (abs_cache (cache T) R) ?c reply (abs_cache C1 (rows_after reply R))"
      unfolding simulates_def by blast
    from s(4) obtain r where r: "reply = Row_Id r" "abs_cache (cache T) R r = None"
      "abs_cache C1 (insert r R) = (abs_cache (cache T) R)(r \<mapsto> (v, Writer))"
      by (elim spec_insertE) simp
    have run: "cache_insert W t spur v (cache T) = Some (Done (r, C1))"
      using s(1) r(1) by (auto split: option.splits outcome.splits prod.splits)
    let ?k = "key (schema (cache T)) v"
    let ?T = "T\<lparr> cache := C1, index := ix_insert X (index T) ?k r \<rparr>"
    have "texec W X (Add t spur v) T = Some (Done (Row_Id r, ?T))"
      by (simp add: table_insert_def run Let_def)
    moreover have "tready W X tsz csz ?T (insert r R)"
      using s(2) r(1) ix by (auto simp: tready_def db_index.index_insert [OF X] split: if_splits)
    moreover have "tspec_step (key (schema (cache T))) (abs_table X T R) (Add t spur v) (Row_Id r) (abs_table X ?T (insert r R))"
      using tspec_add [of "abs_cache (cache T) R" r] r(2,3) by (simp add: abs_table_def db_index.index_insert [OF X])
    ultimately show ?thesis
      using s(3) by (auto simp: tsimulates_def)
  qed
qed

lemma lock_simulates:
  assumes "simulates W tsz csz c C R" "c = Lock_Read sp r \<or> c = Lock_Write sp r"
  obtains reply C1 where "exec W c C = Some (Done (reply, C1))" "ready W tsz csz C1 R" "schema C1 = schema C"
    "spec_step (abs_cache C R) c reply (abs_cache C1 R)" "reply = Locked \<or> (\<exists>e. reply = Refused e)"
proof -
  obtain reply C1 where s: "exec W c C = Some (Done (reply, C1))" "ready W tsz csz C1 (rows_after reply R)"
    "schema C1 = schema C" "spec_step (abs_cache C R) c reply (abs_cache C1 (rows_after reply R))"
    using assms(1) unfolding simulates_def by blast
  have "reply = Locked \<or> (\<exists>e. reply = Refused e)"
    using s(4) assms(2) by (auto elim: spec_lock_readE spec_lock_writeE)
  then show ?thesis
    using that s by (auto; force)
qed

lemma find_simulated:
  assumes rdy: "tready W X tsz csz T R"
  shows "tcmd_ok tsz proper (abs_table X T R) (Find_Read sp k) \<Longrightarrow> tsimulates W X tsz csz (Find_Read sp k) T R"
    and "tsimulates W X tsz csz (Find_Write sp k) T R"
proof -
  have rdy': "ready W tsz csz (cache T) R" and ix: "\<And>r. ix_get X (index T) k = Some r \<Longrightarrow> r \<in> R"
    using rdy by (simp_all add: tready_def)
  let ?ix = "ix_get X (index T) k"
  show "tsimulates W X tsz csz (Find_Write sp k) T R"
  proof (cases ?ix)
    case None
    then show ?thesis
      using rdy tspec_write_none [of "ix_get X (index T)" k]
      by (simp add: tsimulates_def table_write_oid_def find_reply_def abs_table_def)
  next
    case (Some r)
    from lock_simulates [OF acquire_simulated(2) [OF rdy' ix [OF Some], of sp] disjI2 [OF refl]]
    obtain reply C1 where s: "exec W (Lock_Write sp r) (cache T) = Some (Done (reply, C1))" "ready W tsz csz C1 R"
      "schema C1 = schema (cache T)" "spec_step (abs_cache (cache T) R) (Lock_Write sp r) reply (abs_cache C1 R)"
      "reply = Locked \<or> (\<exists>e. reply = Refused e)"
      by metis
    then show ?thesis
      using Some rdy tspec_write [where ix = "ix_get X (index T)" and ?a1.0 = "abs_cache C1 R"] tspec_write_busy [where ix = "ix_get X (index T)" and ?a1.0 = "abs_cache C1 R"]
      by (auto simp: tsimulates_def table_write_oid_def find_reply_def lock_reply_def abs_table_def tready_def split_def
          split: sum.splits)
  qed
  show "tsimulates W X tsz csz (Find_Read sp k) T R"
    if ok: "tcmd_ok tsz proper (abs_table X T R) (Find_Read sp k)"
  proof (cases ?ix)
    case None
    then show ?thesis
      using rdy tspec_read_none [of "ix_get X (index T)" k]
      by (simp add: tsimulates_def table_read_oid_def find_reply_def abs_table_def)
  next
    case (Some r)
    then have "lock_of (cache T) r \<noteq> 127"
      using ok ix [OF Some] by (auto simp: abs_table_def abs_cache_def abs_lock_def)
    from lock_simulates [OF acquire_simulated(1) [OF rdy' ix [OF Some] this, of sp] disjI1 [OF refl]]
    obtain reply C1 where s: "exec W (Lock_Read sp r) (cache T) = Some (Done (reply, C1))" "ready W tsz csz C1 R"
      "schema C1 = schema (cache T)" "spec_step (abs_cache (cache T) R) (Lock_Read sp r) reply (abs_cache C1 R)"
      "reply = Locked \<or> (\<exists>e. reply = Refused e)"
      by metis
    then show ?thesis
      using Some rdy tspec_read [where ix = "ix_get X (index T)" and ?a1.0 = "abs_cache C1 R"] tspec_read_busy [where ix = "ix_get X (index T)" and ?a1.0 = "abs_cache C1 R"]
      by (auto simp: tsimulates_def table_read_oid_def find_reply_def lock_reply_def abs_table_def tready_def split_def
          split: sum.splits)
  qed
qed

lemma not_insert_rows:
  "spec_step a c reply a1 \<Longrightarrow> \<not> is_insert c \<Longrightarrow> rows_after reply R = R"
  by (erule spec_step.cases) (auto simp: is_insert_def)

lemma row_simulated:
  assumes hm: "hash_map_laws (w_tls W)" "hash_map_laws (w_ops W)" and laws: "schema_laws (schema (cache T)) tsz csz proper"
    and rdy: "tready W X tsz csz T R" and ok: "cmd_ok tsz proper (abs_cache (cache T) R) c" "\<not> is_insert c"
  shows "tsimulates W X tsz csz (On_Row c) T R"
proof -
  have rdy': "ready W tsz csz (cache T) R"
    using rdy by (simp add: tready_def)
  have "simulates W tsz csz c (cache T) R"
    using exec_simulated [OF hm laws rdy' ok(1)] ok(2) by (auto simp: is_insert_def)
  then obtain reply C1 where s: "exec W c (cache T) = Some (Done (reply, C1))" "ready W tsz csz C1 (rows_after reply R)"
    "schema C1 = schema (cache T)" "spec_step (abs_cache (cache T) R) c reply (abs_cache C1 (rows_after reply R))"
    unfolding simulates_def by blast
  note rows = not_insert_rows [OF s(4) ok(2), of R]
  let ?T = "T\<lparr> cache := C1 \<rparr>"
  have "texec W X (On_Row c) T = Some (Done (reply, ?T))"
    by (simp add: row_exec_cache on_table_def s(1))
  moreover have "tready W X tsz csz ?T R"
    using s(2) rows rdy by (simp add: tready_def)
  moreover have "tspec_step (key (schema (cache T))) (abs_table X T R) (On_Row c) reply (abs_table X ?T R)"
    using tspec_row [OF s(4) ok(2)] rows by (simp add: abs_table_def)
  ultimately show ?thesis
    using s(3) by (auto simp: tsimulates_def)
qed

lemma texec_simulated:
  assumes X: "db_index X" and hm: "hash_map_laws (w_tls W)" "hash_map_laws (w_ops W)"
    and laws: "schema_laws (schema (cache T)) tsz csz proper"
    and rdy: "tready W X tsz csz T R" and ok: "tcmd_ok tsz proper (abs_table X T R) c"
  shows "tsimulates W X tsz csz c T R
    \<or> (\<exists>t spur v. c = Add t spur v) \<and> texec W X c T = Some Panic \<and> list_node (heap (oheap (oid_array (cache T)))) = 0"
proof (cases c)
  case (Add t spur v)
  then show ?thesis using add_simulated [OF X hm laws rdy] ok by (simp add: abs_table_def)
next
  case (Find_Read sp k)
  then show ?thesis using find_simulated(1) [OF rdy] ok by blast
next
  case (Find_Write sp k)
  then show ?thesis using find_simulated(2) [OF rdy] by blast
next
  case (On_Row c)
  then show ?thesis using row_simulated [OF hm laws rdy] ok by (simp add: abs_table_def)
qed

text \<open>Runs of a table.\<close>

inductive truns ::
  "('l, 'm) world \<Rightarrow> 'i DbIndex \<Rightarrow> nat \<Rightarrow> (Field \<Rightarrow> bool) \<Rightarrow> ('l, 'm, 'i) DbTable \<Rightarrow> (tcmd \<times> reply) list
    \<Rightarrow> ('l, 'm, 'i) DbTable \<Rightarrow> Rid set \<Rightarrow> bool"
  for W X tsz proper T0 where
  truns_nil: "truns W X tsz proper T0 [] T0 {}"
| truns_snoc: "truns W X tsz proper T0 evs T R \<Longrightarrow> tcmd_ok tsz proper (abs_table X T R) c \<Longrightarrow>
    texec W X c T = Some (Done (reply, T1)) \<Longrightarrow>
    truns W X tsz proper T0 (evs @ [(c, reply)]) T1 (trows_after c reply R)"

inductive tspec_runs :: "(bytes \<Rightarrow> usize) \<Rightarrow> (tcmd \<times> reply) list \<Rightarrow> tspec \<Rightarrow> bool" for kf where
  tspec_runs_nil: "tspec_runs kf [] (Map.empty, Map.empty)"
| tspec_runs_snoc: "tspec_runs kf evs a \<Longrightarrow> tspec_step kf a c reply a1 \<Longrightarrow> tspec_runs kf (evs @ [(c, reply)]) a1"

text \<open>What a client passes to the builder so that the table starts empty.\<close>

definition build_ok :: "nat \<Rightarrow> nat \<Rightarrow> addr \<Rightarrow> (nat \<Rightarrow> bytes) \<Rightarrow> Schema \<Rightarrow> ('i, 'c) DbTableBuilder \<Rightarrow> bool" where
  "build_ok node_size tsz ptr frame S b \<longleftrightarrow> b_schema b = Some S \<and> b_index b = None \<and> 0 < ptr
     \<and> (\<forall>i. length (frame i) = tsz)
     \<and> (\<forall>n. b_cache_size b = Some n \<longrightarrow> n div node_size < 2 ^ 32)
     \<and> (\<forall>n. b_storage_size b = Some n \<longrightarrow> n div tsz + 8256 < 2 ^ 32)"

lemma build_ready:
  assumes X: "db_index X" and hm: "hash_map_laws (w_tls W)" "hash_map_laws (w_ops W)"
    and built: "build W X fsz node_size tsz ptr m frame b = Some T0" and ok: "build_ok node_size tsz ptr frame S b"
  shows "tready W X tsz csz T0 {}" "schema (cache T0) = S" "ix_get X (index T0) = Map.empty"
    "list_node (heap (oheap (oid_array (cache T0)))) \<noteq> 0"
proof -
  obtain n stg where n: "b_cache_size b = Some n" "b_storage_size b = Some stg"
    using built by (auto simp: build_def Let_def split: option.splits if_splits)
  have S: "b_schema b = Some S" "b_index b = None"
    using ok by (simp_all add: build_ok_def)
  let ?probe = "case b_probe_len b of None \<Rightarrow> 6 | Some n \<Rightarrow> n" and ?prng = "case b_probe_rng b of None \<Rightarrow> 1 / 100 | Some p \<Rightarrow> p"
  obtain C where C: "cache_new W fsz node_size tsz ptr m frame n ?probe ?prng stg S = Some C"
    "T0 = \<lparr> cache = C, index = ix_with_capacity X (stg div tsz) \<rparr>"
    using built by (auto simp: build_def Let_def n S split: if_splits)
  have sz: "n div node_size < 2 ^ 32" "stg div tsz + 8256 < 2 ^ 32" "0 < ptr" "\<forall>i. length (frame i) = tsz"
    using ok n by (simp_all add: build_ok_def)
  note new = cache_new_ready [OF hm C(1) sz]
  show "tready W X tsz csz T0 {}" "schema (cache T0) = S" "ix_get X (index T0) = Map.empty"
    "list_node (heap (oheap (oid_array (cache T0)))) \<noteq> 0"
    using new by (simp_all add: C(2) tready_def db_index.index_new [OF X])
qed

lemma truns_simulated:
  assumes X: "db_index X" and hm: "hash_map_laws (w_tls W)" "hash_map_laws (w_ops W)"
    and laws: "schema_laws S tsz csz proper"
    and start: "tready W X tsz csz T0 {}" "schema (cache T0) = S" "ix_get X (index T0) = Map.empty"
    and run: "truns W X tsz proper T0 evs T R"
  shows "tready W X tsz csz T R \<and> schema (cache T) = S \<and> tspec_runs (key S) evs (abs_table X T R)"
  using run
proof induction
  case truns_nil
  have "abs_table X T0 {} = (Map.empty, Map.empty)"
    by (simp add: abs_table_def abs_cache_def fun_eq_iff start(3))
  then show ?case using start tspec_runs_nil by simp
next
  case (truns_snoc evs T R c reply T1)
  then have s: "tready W X tsz csz T R" "schema (cache T) = S" "tspec_runs (key S) evs (abs_table X T R)"
    by simp_all
  then have "tsimulates W X tsz csz c T R"
    using texec_simulated [OF X hm laws [folded s(2)] s(1) truns_snoc(2)] truns_snoc(3) by simp
  then show ?case
    using truns_snoc(3) s(2,3) by (auto simp: tsimulates_def intro: tspec_runs_snoc)
qed

section \<open>Inserting, looking up, scanning\<close>

lemma drop_write_spec:
  assumes inv: "cache_inv W tsz csz C R" and r: "r \<in> R" and lk: "lock_of C r = 128"
  defines "C1 \<equiv> C\<lparr> oid_array := drop_write r (oid_array C) \<rparr>"
  shows "cache_inv W tsz csz C1 R" "view C1 r = view C r" "lock_of C1 r = 0" "schema C1 = schema C"
proof -
  let ?w = "get_sync (oid_array C) r"
  have "oid_wf ?w"
    using inner_inv_rows(2) [OF cache_inv_rows(1) [OF inv r] r] .
  then have w: "oid_wf (write_unlock ?w)" "oid_ref_of (write_unlock ?w) = oid_ref_of ?w" "lock_byte (write_unlock ?w) = 0"
    using lk by (simp_all add: write_unlock_def fetch_sub_def lock_of_def oid_simps)
  then show "cache_inv W tsz csz C1 R" "view C1 r = view C r" "lock_of C1 r = 0" "schema C1 = schema C"
    using cache_set_word [OF inv r w(1,2)] by (simp_all add: C1_def drop_write_def)
qed

lemma read_lock_free:
  assumes inv: "cache_inv W tsz csz C R" and r: "r \<in> R" and lk: "lock_of C r = 0"
  shows "\<exists>C1. read_lock False r C = (Inr (), C1) \<and> cache_inv W tsz csz C1 R \<and> view C1 r = view C r \<and> schema C1 = schema C"
proof -
  let ?w = "get_sync (oid_array C) r"
  have "oid_wf ?w"
    using inner_inv_rows(2) [OF cache_inv_rows(1) [OF inv r] r] .
  then have w: "oid_wf (?w + LOCK_READER)" "oid_ref_of (?w + LOCK_READER) = oid_ref_of ?w"
    by (simp_all add: oid_simps)
  show ?thesis
    using cache_set_word [OF inv r w] lk by (simp add: read_lock_def Let_def try_read_eq lock_of_def)
qed

lemma copy_rids_spec:
  "i + length vs \<le> length buf \<Longrightarrow>
     \<exists>buf'. copy_rids i vs buf = Done buf' \<and> length buf' = length buf
       \<and> (\<forall>j<length buf. buf' ! j = (if i \<le> j \<and> j < i + length vs then from_u32 (ucast (snd (vs ! (j - i)))) else buf ! j))"
proof (induction vs arbitrary: i buf)
  case (Cons v vs)
  let ?b = "buf[i := from_u32 (ucast (snd v))]"
  obtain buf' where b: "copy_rids (i + 1) vs ?b = Done buf'" "length buf' = length ?b"
    "\<forall>j<length ?b. buf' ! j = (if i + 1 \<le> j \<and> j < i + 1 + length vs then from_u32 (ucast (snd (vs ! (j - (i + 1))))) else ?b ! j)"
    using Cons.IH [of "i + 1" ?b] Cons.prems by auto
  have "buf' ! j = (if i \<le> j \<and> j < i + length (v # vs) then from_u32 (ucast (snd ((v # vs) ! (j - i)))) else buf ! j)"
    if "j < length buf" for j
    using b(3) that by (cases "j = i") (auto simp: nth_Cons' Suc_le_eq)
  then show ?case
    using b Cons.prems by simp
qed auto

lemma range_stored:
  assumes "congee_laws G"
  shows "\<exists>n buf'. table_range G low high buf T = Done (Some n, buf') \<and> n \<le> length buf \<and> length buf' = length buf
    \<and> (\<forall>i<n. \<exists>k. ix_get (Art G) (index T) k = Some (buf' ! i)) \<and> (\<forall>i<length buf. n \<le> i \<longrightarrow> buf' ! i = buf ! i)"
proof -
  let ?fnd = "art_scan G (index T) low high (length buf)"
  have short: "length ?fnd \<le> length buf"
    by (rule congee_laws.scan_short [OF assms])
  then obtain buf' where b: "copy_rids 0 ?fnd buf = Done buf'" "length buf' = length buf"
    "\<forall>j<length buf. buf' ! j = (if 0 \<le> j \<and> j < 0 + length ?fnd then from_u32 (ucast (snd (?fnd ! (j - 0)))) else buf ! j)"
    using copy_rids_spec [of 0 ?fnd buf] by auto
  have run: "table_range G low high buf T = Done (Some (length ?fnd), buf')"
    using b(1) by (simp add: table_range_def art_range_def Let_def)
  have "\<exists>k. ix_get (Art G) (index T) k = Some (buf' ! i)" if "i < length ?fnd" for i
  proof -
    obtain k v where kv: "?fnd ! i = (k, v)"
      by (cases "?fnd ! i")
    then have "hm_get (art_map G) (index T) k = Some v"
      using congee_laws.scan_stored [OF assms] that nth_mem by metis
    then show ?thesis
      using b(3) that short kv by (intro exI [of _ k]) (simp add: Art_def art_get_def rid_from_usize_def)
  qed
  then show ?thesis
    using run b short by auto
qed

section \<open>Properties\<close>

text \<open>
  C7: a table behaves like a keyed map. Every run of client commands on a freshly built table -
  insertions, lookups by key for reading or writing, and the row operations under the guards
  obtained - has the replies of a specification that only knows a map from row ids to locked tuples
  and a map from keys to the row inserted last under that key. A lookup of an unknown key reports
  \<^const>\<open>IndexNotFound\<close>, and every row an index entry leads to exists.
\<close>

theorem table_refines_keyed_map:
  assumes "db_index X" and "hash_map_laws (w_tls W)" and "hash_map_laws (w_ops W)" and "schema_laws S tsz csz proper"
    and "build W X fsz node_size tsz ptr m frame b = Some T0" and "build_ok node_size tsz ptr frame S b"
    and "truns W X tsz proper T0 evs T R"
  shows "tspec_runs (key S) evs (abs_table X T R) \<and> (\<forall>k r. ix_get X (index T) k = Some r \<longrightarrow> r \<in> R)"
proof -
  note start = build_ready [OF assms(1-3,5,6)]
  have "tready W X tsz csz T R" "tspec_runs (key S) evs (abs_table X T R)"
    using truns_simulated [OF assms(1-4) start(1-3) assms(7)] by simp_all
  then show ?thesis by (simp add: tready_def)
qed

text \<open>The table of the witnesses, with a \<open>FlurryMap\<close> index on plain maps.\<close>

definition test_builder :: "((usize \<Rightarrow> Rid option), nat) DbTableBuilder" where
  "test_builder = builder_schema (item_schema TEST_FIELDS) (builder_storage 12800 (builder_cache 400 builder_new))"

abbreviation test_index :: "(usize \<Rightarrow> Rid option) DbIndex" where
  "test_index \<equiv> FlurryMap map_ops"

abbreviation test_table :: "(tid \<rightharpoonup> u32, tid \<rightharpoonup> nat, usize \<Rightarrow> Rid option) DbTable option" where
  "test_table \<equiv> build test_world test_index 32 40 128 4096 (\<lambda>_. 0) (\<lambda>_. replicate 128 0) test_builder"

lemma test_builder_simps:
  "b_cache_size test_builder = Some 400" "b_storage_size test_builder = Some 12800" "b_probe_len test_builder = None"
  "b_probe_rng test_builder = None" "b_index test_builder = None" "b_schema test_builder = Some (item_schema TEST_FIELDS)"
  by (simp_all add: test_builder_def builder_schema_def builder_storage_def builder_cache_def builder_new_def)

lemma test_build_ok: "build_ok 40 128 4096 (\<lambda>_. replicate 128 0) (item_schema TEST_FIELDS) test_builder"
  by (simp add: build_ok_def test_builder_simps)

lemma test_table_built: "\<exists>T0. test_table = Some T0"
  using cache_new_total [of 40 400 128 test_world 32 4096 "\<lambda>_. 0" "\<lambda>_. replicate 128 0" 6 "1 / 100" 12800 "item_schema TEST_FIELDS"]
  by (auto simp: build_def test_builder_simps)

lemma test_add:
  assumes "length v = 128"
  obtains T0 r T where "test_table = Some T0" "texec test_world test_index (Add 1 (\<lambda>_. (False, False)) v) T0 = Some (Done (Row_Id r, T))"
    "truns test_world test_index 128 (\<lambda>f. f \<in> word_field ` {..<16}) T0 [(Add 1 (\<lambda>_. (False, False)) v, Row_Id r)] T {r}"
proof -
  obtain T0 where T0: "test_table = Some T0"
    using test_table_built by blast
  note start = build_ready [OF flurry_maps.db_index_axioms test_laws T0 test_build_ok]
  let ?c = "Add 1 (\<lambda>_. (False, False)) v" and ?p = "\<lambda>f. f \<in> word_field ` {..<16}"
  have ok: "tcmd_ok 128 ?p (abs_table test_index T0 {}) ?c"
    using assms by (simp add: abs_table_def)
  have "tsimulates test_world test_index 128 32 ?c T0 {}"
    using texec_simulated [OF flurry_maps.db_index_axioms test_laws test_schema [folded start(2)] start(1) ok] start(4) by blast
  then obtain r T where "texec test_world test_index ?c T0 = Some (Done (Row_Id r, T))"
    by (auto simp: tsimulates_def abs_table_def elim: tspec_step.cases)
  then show ?thesis
    using that [OF T0 _ ] truns_snoc [OF truns_nil ok] by fastforce
qed

theorem table_refines_keyed_map_witness:
  "\<exists>T0 r T. test_table = Some T0
     \<and> truns test_world test_index 128 (\<lambda>f. f \<in> word_field ` {..<16}) T0
         [(Add 1 (\<lambda>_. (False, False)) (replicate 128 5), Row_Id r)] T {r}
     \<and> tspec_runs item_key [(Add 1 (\<lambda>_. (False, False)) (replicate 128 5), Row_Id r)] (abs_table test_index T {r})"
proof -
  obtain T0 r T where T: "test_table = Some T0"
    "truns test_world test_index 128 (\<lambda>f. f \<in> word_field ` {..<16}) T0
       [(Add 1 (\<lambda>_. (False, False)) (replicate 128 5), Row_Id r)] T {r}"
    by (rule test_add [OF length_replicate])
  with table_refines_keyed_map [OF flurry_maps.db_index_axioms test_laws test_schema T(1) test_build_ok T(2)]
  show ?thesis by auto
qed

text \<open>
  C8: what was inserted is found. After any run of a freshly built table, when an insertion of a
  record succeeds and its write guard is dropped, a lookup of the record's key finds exactly that
  row, and reading a field through the guard gives the bytes of the record, whether the row was
  cached, evicted another row, or was not cached at all.
\<close>

theorem insert_then_read:
  assumes "db_index X" and "hash_map_laws (w_tls W)" and "hash_map_laws (w_ops W)" and "schema_laws S tsz csz proper"
    and "build W X fsz node_size tsz ptr m frame b = Some T0" and "build_ok node_size tsz ptr frame S b"
    and "truns W X tsz proper T0 evs T R"
    and "table_insert W X t spur rec T = Some (Done (r, T1))" and "length rec = tsz"
    and "f \<in> set query" and "proper f"
  shows "\<exists>T2 q T3 v. table_read_oid X False (key S rec)
        (T1\<lparr> cache := (cache T1)\<lparr> oid_array := drop_write r (oid_array (cache T1)) \<rparr> \<rparr>) = (Inr r, T2)
    \<and> table_read W r query T2 = (Done q, T3) \<and> field_value (cache T3) q f = Inr v
    \<and> load_bytes (field_off f) (field_size f) rec = Some v"
proof -
  note start = build_ready [OF assms(1-3,5,6)]
  have T: "tready W X tsz csz T R" "schema (cache T) = S"
    using truns_simulated [OF assms(1-4) start(1-3) assms(7)] by simp_all
  obtain C1 where C1: "cache_insert W t spur rec (cache T) = Some (Done (r, C1))"
    "T1 = T\<lparr> cache := C1, index := ix_insert X (index T) (key S rec) r \<rparr>"
    using assms(8) T(2) by (auto simp: table_insert_def Let_def split: option.splits outcome.splits prod.splits)
  have inv: "cache_inv W tsz csz (cache T) R"
    using T(1) by (simp add: tready_def ready_def)
  have "inserted W tsz csz rec R (cache T) r C1"
    using cache_insert_spec [OF assms(2,3) assms(4) [folded T(2)] inv assms(9), of t spur] C1(1) by auto
  then have ins: "cache_inv W tsz csz C1 (insert r R)" "schema C1 = S" "view C1 r = rec" "lock_of C1 r = 128"
    by (simp_all add: inserted_def T(2))
  let ?C = "C1\<lparr> oid_array := drop_write r (oid_array C1) \<rparr>"
  note dr = drop_write_spec [OF ins(1) insertI1 ins(4)]
  obtain C2 where C2: "read_lock False r ?C = (Inr (), C2)" "cache_inv W tsz csz C2 (insert r R)" "view C2 r = rec" "schema C2 = S"
    using read_lock_free [OF dr(1) insertI1 dr(3)] dr(2,4) ins(2,3) by auto
  obtain q C3 where C3: "cache_read W r query C2 = (Done q, C3)" "cache_inv W tsz csz C3 (insert r R)" "schema C3 = S"
    "same_rows (insert r R) C2 C3" "value_ok C3 r query q"
    using cache_read_spec [OF C2(2) insertI1, of query] C2(4) by (auto simp: read_ok_def)
  obtain v where "field_value C3 q f = Inr v" "load_bytes (field_off f) (field_size f) (view C3 r) = Some v"
    using field_value_spec [OF assms(4) [folded C3(3)] C3(2) insertI1 C3(5) assms(10,11)] by blast
  moreover have "view C3 r = rec"
    using C3(4) C2(3) by (simp add: same_rows_def)
  moreover have "ix_get X (ix_insert X (index T) (key S rec) r) (key S rec) = Some r"
    by (simp add: db_index.get_insert [OF assms(1)])
  ultimately show ?thesis
    using C2(1) C3(1) by (simp add: C1(2) table_read_oid_def table_read_def)
qed

theorem insert_then_read_witness:
  "\<exists>T0 r T1 T2 q T3 v. test_table = Some T0
     \<and> table_insert test_world test_index 1 (\<lambda>_. (False, False)) (replicate 128 5) T0 = Some (Done (r, T1))
     \<and> table_read_oid test_index False (item_key (replicate 128 5))
        (T1\<lparr> cache := (cache T1)\<lparr> oid_array := drop_write r (oid_array (cache T1)) \<rparr> \<rparr>) = (Inr r, T2)
     \<and> table_read test_world r [word_field 3] T2 = (Done q, T3) \<and> field_value (cache T3) q (word_field 3) = Inr v
     \<and> load_bytes (field_off (word_field 3)) (field_size (word_field 3)) (replicate 128 5) = Some v"
proof -
  let ?v = "replicate 128 (5 :: u8)"
  obtain T0 r T1 where T: "test_table = Some T0"
    "texec test_world test_index (Add 1 (\<lambda>_. (False, False)) ?v) T0 = Some (Done (Row_Id r, T1))"
    by (rule test_add [OF length_replicate])
  then have ins: "table_insert test_world test_index 1 (\<lambda>_. (False, False)) ?v T0 = Some (Done (r, T1))"
    by (auto split: option.splits outcome.splits prod.splits)
  from insert_then_read [OF flurry_maps.db_index_axioms test_laws test_schema T(1) test_build_ok truns_nil ins,
      of "word_field 3" "[word_field 3]"]
  show ?thesis
    using T(1) ins by auto
qed

text \<open>
  The builder panics exactly when the cache size, the storage size or the schema is missing, or
  when the cache size is below the size of one slot, or tuples have size 0. Otherwise it builds a table with the given
  settings, probe length 6 and probability 1/100 by default.
\<close>

theorem build_settings:
  "(build W X fsz node_size tsz ptr m frame b = None \<longleftrightarrow>
      b_cache_size b = None \<or> b_storage_size b = None \<or> b_schema b = None
      \<or> the (b_cache_size b) div node_size = 0 \<or> tsz = 0)
   \<and> (case build W X fsz node_size tsz ptr m frame b of
        None \<Rightarrow> True
      | Some T \<Rightarrow> Some (schema (cache T)) = b_schema b
          \<and> probe_len (inner (cache T)) = of_nat (case b_probe_len b of None \<Rightarrow> 6 | Some n \<Rightarrow> n)
          \<and> probe_rng (inner (cache T)) = (case b_probe_rng b of None \<Rightarrow> 1 / 100 | Some p \<Rightarrow> p)
          \<and> length (entries (inner (cache T))) = the (b_cache_size b) div node_size
          \<and> st_cap (storage (cache T)) = oid_capacity (oid_array (cache T)))"
proof -
  obtain O' where "oid_array_new (w_ops W) (the (b_storage_size b) div tsz) ptr m = Some O'"
    using oid_array_new_total by blast
  then show ?thesis
    by (cases "b_cache_size b"; cases "b_storage_size b"; cases "b_schema b")
      (simp_all add: build_def Let_def cache_new_def inner_new_def new_cap_def storage_new_def)
qed



end
