(* ===== verification/Backoff.thy ===== *)
theory Backoff
  imports Prelude
begin

text \<open>
  \<^verbatim>\<open>src/utils/backoff.rs\<close>: exponential backoff. Waiting has no effect on the state; an operation returns
  how it waited, as a number of spins or a yield.
\<close>

section \<open>Definitions\<close>

definition SPIN_LIMIT :: u32 where "SPIN_LIMIT = 6"

definition YIELD_LIMIT :: u32 where "YIELD_LIMIT = 10"

record Backoff =
  step :: u32

datatype wait = Spins nat | Yields

definition backoff_new :: Backoff where
  "backoff_new = \<lparr> step = 0 \<rparr>"

definition backoff_reset :: "Backoff \<Rightarrow> Backoff" where
  "backoff_reset b = b\<lparr> step := 0 \<rparr>"

text \<open>\<^verbatim>\<open>1 << n\<close> is a shift of a 32-bit integer.\<close>

definition spin_count :: "u32 \<Rightarrow> nat" where
  "spin_count n = unat (push_bit (unat n) (1 :: u32))"

definition backoff_spin :: "Backoff \<Rightarrow> wait \<times> Backoff" where
  "backoff_spin b =
     (Spins (spin_count (min (step b) SPIN_LIMIT)),
      if step b \<le> SPIN_LIMIT then b\<lparr> step := step b + 1 \<rparr> else b)"

definition backoff_snooze :: "Backoff \<Rightarrow> wait \<times> Backoff" where
  "backoff_snooze b =
     (if step b \<le> SPIN_LIMIT then Spins (spin_count (step b)) else Yields,
      if step b \<le> YIELD_LIMIT then b\<lparr> step := step b + 1 \<rparr> else b)"

definition is_completed :: "Backoff \<Rightarrow> bool" where
  "is_completed b \<longleftrightarrow> step b > YIELD_LIMIT"

section \<open>Repeated waiting\<close>

fun snooze_times :: "nat \<Rightarrow> Backoff \<Rightarrow> wait list \<times> Backoff" where
  "snooze_times 0 b = ([], b)"
| "snooze_times (Suc n) b =
     (let (w, b1) = backoff_snooze b; (ws, b2) = snooze_times n b1 in (w # ws, b2))"

fun spin_times :: "nat \<Rightarrow> Backoff \<Rightarrow> wait list \<times> Backoff" where
  "spin_times 0 b = ([], b)"
| "spin_times (Suc n) b =
     (let (w, b1) = backoff_spin b; (ws, b2) = spin_times n b1 in (w # ws, b2))"

lemma spin_count_small: "n \<le> 6 \<Longrightarrow> spin_count n = 2 ^ unat n"
proof -
  assume "n \<le> 6"
  then have "unat n \<le> 6"
    by (simp add: word_le_nat_alt)
  then have "unat n \<in> {0, 1, 2, 3, 4, 5, 6}"
    by auto
  then show ?thesis
    by (auto simp: spin_count_def)
qed

lemma step_succ: "n < 100 \<Longrightarrow> unat (n + 1) = unat n + 1" for n :: u32
  by (simp add: unat_word_ariths word_less_nat_alt)

definition snooze_wait :: "nat \<Rightarrow> wait" where
  "snooze_wait s = (if s \<le> 6 then Spins (2 ^ s) else Yields)"

lemma snooze_step:
  assumes "unat (step b) \<le> 11"
  shows "fst (backoff_snooze b) = snooze_wait (unat (step b))"
    "unat (step (snd (backoff_snooze b))) = min (unat (step b) + 1) 11"
proof -
  have "step b \<le> 6 \<longleftrightarrow> unat (step b) \<le> 6" "step b \<le> 10 \<longleftrightarrow> unat (step b) \<le> 10"
    by (simp_all add: word_le_nat_alt)
  moreover have "unat (step b + 1) = unat (step b) + 1"
    using assms by (intro step_succ) (simp add: word_less_nat_alt)
  ultimately show "fst (backoff_snooze b) = snooze_wait (unat (step b))"
    "unat (step (snd (backoff_snooze b))) = min (unat (step b) + 1) 11"
    using assms by (auto simp: backoff_snooze_def snooze_wait_def SPIN_LIMIT_def YIELD_LIMIT_def spin_count_small)
qed

lemma snooze_times_spec:
  "unat (step b) \<le> 11 \<Longrightarrow>
     fst (snooze_times n b) = map (\<lambda>i. snooze_wait (min (unat (step b) + i) 11)) [0..<n]
     \<and> unat (step (snd (snooze_times n b))) = min (unat (step b) + n) 11"
proof (induction n arbitrary: b)
  case (Suc n)
  let ?b = "snd (backoff_snooze b)"
  note s = snooze_step [OF Suc.prems]
  have "unat (step ?b) \<le> 11"
    using s(2) by simp
  note IH = Suc.IH [OF this]
  have "[0..<Suc n] = 0 # map Suc [0..<n]"
    by (simp add: map_Suc_upt upt_conv_Cons del: upt_Suc)
  then have "map (\<lambda>i. snooze_wait (min (unat (step b) + i) 11)) [0..<Suc n]
      = snooze_wait (unat (step b)) # map (\<lambda>i. snooze_wait (min (unat (step ?b) + i) 11)) [0..<n]"
    using Suc.prems s(2) by (auto simp: min_def)
  then show ?case
    using IH s by (simp add: split_def Let_def del: upt_Suc)
qed simp

lemma spin_step:
  assumes "unat (step b) \<le> 7"
  shows "fst (backoff_spin b) = Spins (2 ^ min (unat (step b)) 6)"
    "unat (step (snd (backoff_spin b))) = min (unat (step b) + 1) 7"
proof -
  have le: "step b \<le> 6 \<longleftrightarrow> unat (step b) \<le> 6"
    by (simp add: word_le_nat_alt)
  moreover have "unat (step b + 1) = unat (step b) + 1"
    using assms by (intro step_succ) (simp add: word_less_nat_alt)
  ultimately show "unat (step (snd (backoff_spin b))) = min (unat (step b) + 1) 7"
    using assms by (auto simp: backoff_spin_def SPIN_LIMIT_def)
  have "unat (min (step b) 6) = min (unat (step b)) 6"
    using le by (simp add: min_def)
  moreover have "min (step b) 6 \<le> 6"
    by simp
  ultimately show "fst (backoff_spin b) = Spins (2 ^ min (unat (step b)) 6)"
    by (simp add: backoff_spin_def SPIN_LIMIT_def spin_count_small)
qed

lemma spin_times_spec:
  "unat (step b) \<le> 7 \<Longrightarrow> unat (step (snd (spin_times n b))) = min (unat (step b) + n) 7
     \<and> (\<forall>w\<in>set (fst (spin_times n b)). \<exists>k\<le>6. w = Spins (2 ^ k))"
proof (induction n arbitrary: b)
  case (Suc n)
  let ?b = "snd (backoff_spin b)"
  note s = spin_step [OF Suc.prems]
  have "unat (step ?b) \<le> 7"
    using s(2) by simp
  note IH = Suc.IH [OF this]
  have "\<exists>k\<le>6. fst (backoff_spin b) = Spins (2 ^ k)"
    using s(1) by (intro exI [of _ "min (unat (step b)) 6"]) simp
  then show ?case
    using IH s(2) by (auto simp: split_def Let_def)
qed simp

section \<open>Properties\<close>

text \<open>
  Backoff grows and is bounded. The \<open>i\<close>-th \<^verbatim>\<open>snooze\<close> of a fresh backoff spins \<open>2 ^ i\<close> times for \<open>i\<close> up to 6
  and yields from then on; it is completed exactly after 11 of them. \<^verbatim>\<open>spin\<close> never spins more than 64
  times, its counter stops at 7, so a backoff that only spins is never completed, and the 32-bit
  shift and increment never overflow.
\<close>

theorem backoff_bounded:
  "fst (snooze_times n backoff_new) = map (\<lambda>i. if i \<le> 6 then Spins (2 ^ i) else Yields) [0..<n]
   \<and> (is_completed (snd (snooze_times n backoff_new)) \<longleftrightarrow> 11 \<le> n)
   \<and> set (fst (spin_times n backoff_new)) \<subseteq> (\<lambda>k. Spins (2 ^ k)) ` {..6}
   \<and> \<not> is_completed (snd (spin_times n backoff_new))
   \<and> step (backoff_reset (snd (snooze_times n backoff_new))) = step backoff_new"
proof -
  have new: "unat (step backoff_new) = 0"
    by (simp add: backoff_new_def)
  note sn = snooze_times_spec [of backoff_new n] and sp = spin_times_spec [of backoff_new n]
  have c: "is_completed b \<longleftrightarrow> 10 < unat (step b)" for b
    by (simp add: is_completed_def YIELD_LIMIT_def word_less_nat_alt)
  have "map (\<lambda>i. snooze_wait (min i 11)) [0..<n] = map (\<lambda>i. if i \<le> 6 then Spins (2 ^ i) else Yields) [0..<n]"
    by (auto simp: snooze_wait_def min_def)
  moreover have "10 < min n 11 \<longleftrightarrow> 11 \<le> n" "\<not> 10 < min n 7"
    by auto
  ultimately show ?thesis
    using sn sp unfolding new c by (auto simp: backoff_reset_def backoff_new_def)
qed

end
