(* ===== verification/Metrics.thy ===== *)
theory Metrics
  imports Prelude
begin

text \<open>
  The recorders of \<^verbatim>\<open>metric/src\<close>: counters, counters per context, histograms and timers of one thread, and
  how they are merged. Counters are machine words and wrap around; hash maps of the standard
  library are maps.
\<close>

section \<open>Definitions\<close>

datatype Counter =
    ReadHit | ReadMiss | ProbeMiss | ReadSchemaMiss | ReadCnt | UpdateCnt | InsertCnt | UpdateSchemaMiss
  | UpdateHit | UpdateMiss | AbortRLockBusy | AbortWLockBusy | AbortUpgradeBusy | AbortIdxNotFound
  | AbortLockBusy | DeliveryNewOrderNotFound | NewOrderRollback

fun counter_num :: "Counter \<Rightarrow> nat" where
  "counter_num ReadHit = 0" | "counter_num ReadMiss = 1" | "counter_num ProbeMiss = 2"
| "counter_num ReadSchemaMiss = 3" | "counter_num ReadCnt = 4" | "counter_num UpdateCnt = 5"
| "counter_num InsertCnt = 6" | "counter_num UpdateSchemaMiss = 7" | "counter_num UpdateHit = 8"
| "counter_num UpdateMiss = 9" | "counter_num AbortRLockBusy = 10" | "counter_num AbortWLockBusy = 11"
| "counter_num AbortUpgradeBusy = 12" | "counter_num AbortIdxNotFound = 13" | "counter_num AbortLockBusy = 14"
| "counter_num DeliveryNewOrderNotFound = 15" | "counter_num NewOrderRollback = 16"

datatype CtxCounter = Customer | Stock | Order

fun ctx_num :: "CtxCounter \<Rightarrow> nat" where
  "ctx_num Customer = 2" | "ctx_num Stock = 3" | "ctx_num Order = 4"

datatype Histogram =
  ProbeLen | Hotness | Scanned | PaymentCustomerScan | OSOrderScan | OrderLineScan | StockLevelQuantity

fun histogram_num :: "Histogram \<Rightarrow> nat" where
  "histogram_num ProbeLen = 0" | "histogram_num Hotness = 1" | "histogram_num Scanned = 2"
| "histogram_num PaymentCustomerScan = 3" | "histogram_num OSOrderScan = 4" | "histogram_num OrderLineScan = 5"
| "histogram_num StockLevelQuantity = 6"

datatype Timer = Timer_Read | Timer_Tpcc

fun timer_num :: "Timer \<Rightarrow> nat" where
  "timer_num Timer_Read = 0" | "timer_num Timer_Tpcc = 1"

text \<open>
  What the derive macro \<open>MetricEnum\<close> generates from the variants, in the order of the source: their number
  and the function back from a number; \<^const>\<open>None\<close> is \<^verbatim>\<open>unreachable!\<close>.
\<close>

definition metric_length :: "'e list \<Rightarrow> nat" where
  "metric_length variants = length variants"

fun metric_from_num :: "('e \<Rightarrow> nat) \<Rightarrow> 'e list \<Rightarrow> nat \<Rightarrow> 'e option" where
  "metric_from_num dis [] n = None"
| "metric_from_num dis (v # vs) n = (if n = dis v then Some v else metric_from_num dis vs n)"

definition counter_variants :: "Counter list" where
  "counter_variants =
     [ReadHit, ReadMiss, ProbeMiss, ReadSchemaMiss, ReadCnt, UpdateCnt, InsertCnt, UpdateSchemaMiss, UpdateHit,
      UpdateMiss, AbortRLockBusy, AbortWLockBusy, AbortUpgradeBusy, AbortIdxNotFound, AbortLockBusy,
      DeliveryNewOrderNotFound, NewOrderRollback]"

definition ctx_variants :: "CtxCounter list" where
  "ctx_variants = [Customer, Stock, Order]"

definition histogram_variants :: "Histogram list" where
  "histogram_variants = [ProbeLen, Hotness, Scanned, PaymentCustomerScan, OSOrderScan, OrderLineScan, StockLevelQuantity]"

definition timer_variants :: "Timer list" where
  "timer_variants = [Timer_Read, Timer_Tpcc]"

abbreviation counter_from_num :: "nat \<Rightarrow> Counter option" where
  "counter_from_num \<equiv> metric_from_num counter_num counter_variants"

abbreviation histogram_from_num :: "nat \<Rightarrow> Histogram option" where
  "histogram_from_num \<equiv> metric_from_num histogram_num histogram_variants"

abbreviation timer_from_num :: "nat \<Rightarrow> Timer option" where
  "timer_from_num \<equiv> metric_from_num timer_num timer_variants"

subsection \<open>Counters\<close>

type_synonym CounterRecorder = "u64 list"

definition counter_default :: CounterRecorder where
  "counter_default = replicate (metric_length counter_variants) 0"

definition counter_increment :: "Counter \<Rightarrow> u64 \<Rightarrow> CounterRecorder \<Rightarrow> CounterRecorder" where
  "counter_increment event amount c = c[counter_num event := c ! counter_num event + amount]"

definition counter_reset :: "CounterRecorder \<Rightarrow> CounterRecorder" where
  "counter_reset c = map (\<lambda>_. 0) c"

definition counter_add :: "CounterRecorder \<Rightarrow> CounterRecorder \<Rightarrow> CounterRecorder" where
  "counter_add a b = map2 (+) a b"

fun counter_field :: "Counter \<Rightarrow> string" where
  "counter_field ReadHit = ''read_hit''"
| "counter_field ReadMiss = ''read_miss''"
| "counter_field UpdateHit = ''update_hit''"
| "counter_field UpdateMiss = ''update_miss''"
| "counter_field ProbeMiss = ''probe_miss''"
| "counter_field ReadSchemaMiss = ''read_schema_miss''"
| "counter_field UpdateSchemaMiss = ''update_schema_miss''"
| "counter_field ReadCnt = ''read_cnt''"
| "counter_field UpdateCnt = ''update_cnt''"
| "counter_field InsertCnt = ''insert_cnt''"
| "counter_field AbortRLockBusy = ''abort_read_lock_busy''"
| "counter_field AbortWLockBusy = ''abort_write_lock_busy''"
| "counter_field AbortUpgradeBusy = ''abort_upgrade_lock_busy''"
| "counter_field AbortIdxNotFound = ''abort_idx_not_found''"
| "counter_field AbortLockBusy = ''abort_lock_busy''"
| "counter_field DeliveryNewOrderNotFound = ''delivery_new_order_not_found''"
| "counter_field NewOrderRollback = ''new_order_rollback''"

text \<open>
  \<^verbatim>\<open>serialize\<close>: the fields in the order of the indices. \<^const>\<open>None\<close> is the panic of an index without
  a variant; the serializer's own errors are those of the caller's output.
\<close>

fun serialize_loop :: "(nat \<Rightarrow> 'e option) \<Rightarrow> (nat \<Rightarrow> 'e \<Rightarrow> string \<times> 'v) \<Rightarrow> nat \<Rightarrow> nat \<Rightarrow> (string \<times> 'v) list option" where
  "serialize_loop from_num entry i 0 = Some []"
| "serialize_loop from_num entry i (Suc n) =
     (case from_num i of
        None \<Rightarrow> None
      | Some e \<Rightarrow> map_option (\<lambda>fs. entry i e # fs) (serialize_loop from_num entry (i + 1) n))"

definition counter_serialize :: "CounterRecorder \<Rightarrow> (string \<times> u64) list option" where
  "counter_serialize c =
     serialize_loop counter_from_num (\<lambda>i e. (counter_field e, c ! counter_num e)) 0 (length c)"

subsection \<open>Counters per context\<close>

type_synonym CtxCounterRecorder = "CtxCounter \<Rightarrow> CounterRecorder option"

definition ctx_increment :: "Counter \<Rightarrow> u64 \<Rightarrow> CtxCounter \<Rightarrow> CtxCounterRecorder \<Rightarrow> CtxCounterRecorder" where
  "ctx_increment event amount tag c =
     (case c tag of
        Some r \<Rightarrow> c(tag \<mapsto> counter_increment event amount r)
      | None \<Rightarrow> let recorder = counter_increment event amount counter_default in c(tag \<mapsto> recorder))"

definition ctx_add :: "CtxCounterRecorder \<Rightarrow> CtxCounterRecorder \<Rightarrow> CtxCounterRecorder" where
  "ctx_add a b = (\<lambda>rk. case b rk of
       None \<Rightarrow> a rk
     | Some rv \<Rightarrow> (case a rk of Some v \<Rightarrow> Some (counter_add v rv) | None \<Rightarrow> Some rv))"

definition ctx_reset :: "CtxCounterRecorder \<Rightarrow> CtxCounterRecorder" where
  "ctx_reset c = Map.empty"

subsection \<open>Histograms\<close>

text \<open>The key is truncated to 16 bits.\<close>

type_synonym HistogramRecorder = "(u16 \<Rightarrow> usize option) list"

definition histogram_default :: HistogramRecorder where
  "histogram_default = replicate (metric_length histogram_variants) Map.empty"

definition histogram_hit :: "Histogram \<Rightarrow> u64 \<Rightarrow> HistogramRecorder \<Rightarrow> HistogramRecorder" where
  "histogram_hit event k h =
     (let i = histogram_num event; hist = h ! i; k16 = ucast k
      in h[i := (case hist k16 of Some v \<Rightarrow> hist(k16 \<mapsto> v + 1) | None \<Rightarrow> hist(k16 \<mapsto> 1))])"

definition bucket_add :: "(u16 \<Rightarrow> usize option) \<Rightarrow> (u16 \<Rightarrow> usize option) \<Rightarrow> u16 \<Rightarrow> usize option" where
  "bucket_add a b = (\<lambda>k. case b k of
       None \<Rightarrow> a k
     | Some v \<Rightarrow> (case a k of Some u \<Rightarrow> Some (u + v) | None \<Rightarrow> Some v))"

definition histogram_add :: "HistogramRecorder \<Rightarrow> HistogramRecorder \<Rightarrow> HistogramRecorder" where
  "histogram_add a b = map2 bucket_add a b"

definition histogram_reset :: "HistogramRecorder \<Rightarrow> HistogramRecorder" where
  "histogram_reset h = map (\<lambda>_. Map.empty) h"

fun histogram_field :: "Histogram \<Rightarrow> string" where
  "histogram_field ProbeLen = ''prob_len''"
| "histogram_field Hotness = ''hotness''"
| "histogram_field Scanned = ''scanned''"
| "histogram_field PaymentCustomerScan = ''payment_customer_scan''"
| "histogram_field OSOrderScan = ''os_order_scan''"
| "histogram_field OrderLineScan = ''order_line_scan''"
| "histogram_field StockLevelQuantity = ''stock_level_quantity''"

definition histogram_serialize :: "HistogramRecorder \<Rightarrow> (string \<times> (u16 \<Rightarrow> usize option)) list option" where
  "histogram_serialize h =
     serialize_loop histogram_from_num (\<lambda>i e. (histogram_field e, h ! i)) 0 (length h)"

subsection \<open>Timers\<close>

text \<open>
  Durations and instants are counted in nanoseconds; what is stored is truncated to 64 bits. The clock
  and the random bit of the sampling are arguments.
\<close>

type_synonym TimerRecorder = "u64 list list"

definition timer_default :: TimerRecorder where
  "timer_default = replicate (metric_length timer_variants) []"

definition timer_add_time :: "Timer \<Rightarrow> nat \<Rightarrow> TimerRecorder \<Rightarrow> TimerRecorder" where
  "timer_add_time event nanos ts = ts[timer_num event := ts ! timer_num event @ [of_nat nanos]]"

record TimerGuard =
  g_event :: Timer
  g_start :: nat

definition timer_start :: "Timer \<Rightarrow> nat \<Rightarrow> TimerGuard" where
  "timer_start event now = \<lparr> g_event = event, g_start = now \<rparr>"

definition timer_add :: "TimerRecorder \<Rightarrow> TimerRecorder \<Rightarrow> TimerRecorder" where
  "timer_add a b = map2 (@) a b"

definition timer_reset :: "TimerRecorder \<Rightarrow> TimerRecorder" where
  "timer_reset ts = map (\<lambda>_. []) ts"

fun timer_field :: "Timer \<Rightarrow> string" where
  "timer_field Timer_Read = ''read''" | "timer_field Timer_Tpcc = ''tpcc''"

definition timer_serialize :: "TimerRecorder \<Rightarrow> (string \<times> u64 list) list option" where
  "timer_serialize ts = serialize_loop timer_from_num (\<lambda>i e. (timer_field e, ts ! i)) 0 (length ts)"

subsection \<open>The recorder of a thread\<close>

record TlsRecorder =
  r_counters :: CounterRecorder
  r_histograms :: HistogramRecorder
  r_timers :: TimerRecorder
  r_ctx :: CtxCounterRecorder

definition recorder_default :: TlsRecorder where
  "recorder_default = \<lparr> r_counters = counter_default, r_histograms = histogram_default, r_timers = timer_default, r_ctx = Map.empty \<rparr>"

definition increment_counter :: "Counter \<Rightarrow> u64 \<Rightarrow> TlsRecorder \<Rightarrow> TlsRecorder" where
  "increment_counter event amount r = r\<lparr> r_counters := counter_increment event amount (r_counters r) \<rparr>"

definition ctx_counter :: "Counter \<Rightarrow> u64 \<Rightarrow> CtxCounter \<Rightarrow> TlsRecorder \<Rightarrow> TlsRecorder" where
  "ctx_counter event amount tag r = r\<lparr> r_ctx := ctx_increment event amount tag (r_ctx r) \<rparr>"

definition hit_histogram :: "Histogram \<Rightarrow> u64 \<Rightarrow> TlsRecorder \<Rightarrow> TlsRecorder" where
  "hit_histogram event k r = r\<lparr> r_histograms := histogram_hit event k (r_histograms r) \<rparr>"

definition add_time :: "Timer \<Rightarrow> nat \<Rightarrow> TlsRecorder \<Rightarrow> TlsRecorder" where
  "add_time event nanos r = r\<lparr> r_timers := timer_add_time event nanos (r_timers r) \<rparr>"

definition recorder_reset :: "TlsRecorder \<Rightarrow> TlsRecorder" where
  "recorder_reset r = \<lparr> r_counters = counter_reset (r_counters r), r_histograms = histogram_reset (r_histograms r),
     r_timers = timer_reset (r_timers r), r_ctx = ctx_reset (r_ctx r) \<rparr>"

definition recorder_add :: "TlsRecorder \<Rightarrow> TlsRecorder \<Rightarrow> TlsRecorder" where
  "recorder_add a b = \<lparr> r_counters = counter_add (r_counters a) (r_counters b),
     r_histograms = histogram_add (r_histograms a) (r_histograms b),
     r_timers = timer_add (r_timers a) (r_timers b), r_ctx = ctx_add (r_ctx a) (r_ctx b) \<rparr>"

text \<open>The guard records into the thread's recorder when it is dropped, if the random bit says so.\<close>

definition timer_guard_drop :: "bool \<Rightarrow> nat \<Rightarrow> TimerGuard \<Rightarrow> TlsRecorder \<Rightarrow> TlsRecorder" where
  "timer_guard_drop should_sample now g r =
     (let elapsed = now - g_start g in if should_sample then add_time (g_event g) elapsed r else r)"

text \<open>
  The macros \<^verbatim>\<open>counter!\<close> (with a literal, and with an optional tag), \<^verbatim>\<open>histogram!\<close> and \<^verbatim>\<open>timer!\<close>; \<open>metrics\<close> and
  \<open>latency\<close> are compile-time features.
\<close>

definition counter_value_macro :: "bool \<Rightarrow> Counter \<Rightarrow> u64 \<Rightarrow> TlsRecorder \<Rightarrow> TlsRecorder" where
  "counter_value_macro metrics event v r = (if metrics then increment_counter event v r else r)"

definition counter_tag_macro :: "bool \<Rightarrow> Counter \<Rightarrow> CtxCounter option \<Rightarrow> TlsRecorder \<Rightarrow> TlsRecorder" where
  "counter_tag_macro metrics event tag r =
     (if metrics then (case tag of Some v \<Rightarrow> ctx_counter event 1 v r | None \<Rightarrow> increment_counter event 1 r) else r)"

definition histogram_macro :: "bool \<Rightarrow> Histogram \<Rightarrow> u64 \<Rightarrow> TlsRecorder \<Rightarrow> TlsRecorder" where
  "histogram_macro metrics event k r = (if metrics then hit_histogram event k r else r)"

definition timer_macro :: "bool \<Rightarrow> bool \<Rightarrow> Timer \<Rightarrow> nat \<Rightarrow> TimerGuard option" where
  "timer_macro metrics latency event now = (if metrics \<and> latency then Some (timer_start event now) else None)"

section \<open>Recording and merging\<close>

datatype metric_event =
    Count Counter u64
  | Count_Ctx Counter u64 CtxCounter
  | Hit Histogram u64
  | Timed Timer nat

fun record_event :: "metric_event \<Rightarrow> TlsRecorder \<Rightarrow> TlsRecorder" where
  "record_event (Count e n) r = increment_counter e n r"
| "record_event (Count_Ctx e n tag) r = ctx_counter e n tag r"
| "record_event (Hit e k) r = hit_histogram e k r"
| "record_event (Timed e ns) r = add_time e ns r"

definition record_all :: "metric_event list \<Rightarrow> TlsRecorder \<Rightarrow> TlsRecorder" where
  "record_all evs r = foldl (\<lambda>r e. record_event e r) r evs"

definition recorder_ok :: "TlsRecorder \<Rightarrow> bool" where
  "recorder_ok r \<longleftrightarrow> length (r_counters r) = 17 \<and> length (r_histograms r) = 7 \<and> length (r_timers r) = 2
     \<and> (\<forall>tag c. r_ctx r tag = Some c \<longrightarrow> length c = 17)"

lemma variant_numbers:
  "counter_num e < 17" "histogram_num h < 7" "timer_num t < 2"
proof -
  show "counter_num e < 17" by (cases e) simp_all
  show "histogram_num h < 7" by (cases h) simp_all
  show "timer_num t < 2" by (cases t) simp_all
qed

lemma default_simps:
  "counter_default = replicate 17 0" "histogram_default = replicate 7 Map.empty" "timer_default = replicate 2 []"
  by (simp_all add: counter_default_def histogram_default_def timer_default_def metric_length_def
      counter_variants_def histogram_variants_def timer_variants_def eval_nat_numeral)

lemma counter_add_simps:
  assumes "length a = 17" "length b = 17"
  shows "counter_add a (counter_increment e n b) = counter_increment e n (counter_add a b)"
    "counter_add a counter_default = a"
  using assms variant_numbers(1) [of e]
  by (auto simp: counter_add_def counter_increment_def default_simps intro!: nth_equalityI simp: nth_list_update)

lemma ctx_add_increment:
  assumes "\<forall>tag c. a tag = Some c \<longrightarrow> length c = 17" "\<forall>tag c. b tag = Some c \<longrightarrow> length c = 17"
  shows "ctx_add a (ctx_increment e n tag b) = ctx_increment e n tag (ctx_add a b)"
proof
  fix k
  have d: "length counter_default = 17"
    by (simp add: default_simps)
  show "ctx_add a (ctx_increment e n tag b) k = ctx_increment e n tag (ctx_add a b) k"
  proof (cases "k = tag")
    case True
    then show ?thesis
      using assms d counter_add_simps(1,2)
      by (cases "a tag"; cases "b tag") (simp_all add: ctx_add_def ctx_increment_def Let_def)
  next
    case False
    then show ?thesis
      by (cases "b tag"; cases "a tag") (simp_all add: ctx_add_def ctx_increment_def Let_def)
  qed
qed

lemma bucket_add_hit:
  "bucket_add a (case b k of Some v \<Rightarrow> b(k \<mapsto> v + 1) | None \<Rightarrow> b(k \<mapsto> 1)) =
     (case bucket_add a b k of Some v \<Rightarrow> (bucket_add a b)(k \<mapsto> v + 1) | None \<Rightarrow> (bucket_add a b)(k \<mapsto> 1))"
  by (auto simp: bucket_add_def fun_eq_iff add.assoc split: option.splits)

lemma histogram_add_hit:
  assumes "length a = 7" "length b = 7"
  shows "histogram_add a (histogram_hit e k b) = histogram_hit e k (histogram_add a b)"
    "histogram_add a histogram_default = a"
proof -
  let ?i = "histogram_num e"
  show "histogram_add a (histogram_hit e k b) = histogram_hit e k (histogram_add a b)"
  proof (rule nth_equalityI)
    fix j
    assume "j < length (histogram_add a (histogram_hit e k b))"
    then have j: "j < 7"
      using assms by (simp add: histogram_add_def histogram_hit_def Let_def)
    show "histogram_add a (histogram_hit e k b) ! j = histogram_hit e k (histogram_add a b) ! j"
      using assms j variant_numbers(2) [of e] bucket_add_hit [of "a ! ?i" "b ! ?i" "ucast k"]
      by (cases "j = ?i") (simp_all add: histogram_add_def histogram_hit_def Let_def split: option.splits)
  qed (use assms in \<open>simp add: histogram_add_def histogram_hit_def Let_def\<close>)
  show "histogram_add a histogram_default = a"
    using assms by (auto simp: histogram_add_def default_simps bucket_add_def intro!: nth_equalityI)
qed

lemma timer_add_simps:
  assumes "length a = 2" "length b = 2"
  shows "timer_add a (timer_add_time e ns b) = timer_add_time e ns (timer_add a b)" "timer_add a timer_default = a"
  using assms variant_numbers(3) [of e]
  by (auto simp: timer_add_def timer_add_time_def default_simps nth_list_update intro!: nth_equalityI)

lemma recorder_add_event:
  assumes "recorder_ok a" "recorder_ok b"
  shows "recorder_add a (record_event e b) = record_event e (recorder_add a b)"
  using assms
  by (cases e)
    (simp_all add: recorder_ok_def recorder_add_def increment_counter_def ctx_counter_def hit_histogram_def add_time_def
      counter_add_simps ctx_add_increment histogram_add_hit timer_add_simps)

lemma recorder_ok_event: "recorder_ok r \<Longrightarrow> recorder_ok (record_event e r)"
  by (cases e)
    (auto simp: recorder_ok_def increment_counter_def ctx_counter_def hit_histogram_def add_time_def counter_increment_def
      ctx_increment_def histogram_hit_def timer_add_time_def default_simps Let_def split: option.splits if_splits)

lemma recorder_ok_default: "recorder_ok recorder_default"
  by (simp add: recorder_ok_def recorder_default_def default_simps)

lemma recorder_ok_all: "recorder_ok r \<Longrightarrow> recorder_ok (record_all evs r)"
  unfolding record_all_def by (induction evs arbitrary: r) (simp_all add: recorder_ok_event)

lemma recorder_add_default: "recorder_ok a \<Longrightarrow> recorder_add a recorder_default = a"
  using counter_add_simps(2) [of "r_counters a" counter_default] histogram_add_hit(2) [of "r_histograms a" histogram_default]
    timer_add_simps(2) [of "r_timers a" timer_default]
  by (cases a) (simp add: recorder_ok_def recorder_add_def recorder_default_def ctx_add_def default_simps)

lemma record_all_snoc: "record_all (evs @ [e]) r = record_event e (record_all evs r)"
  by (simp add: record_all_def)

lemma counter_serialised:
  "length c = 17 \<Longrightarrow> counter_serialize c = Some (map (\<lambda>e. (counter_field e, c ! counter_num e)) counter_variants)"
  by (simp add: counter_serialize_def counter_variants_def eval_nat_numeral)

lemma histogram_serialised:
  "length h = 7 \<Longrightarrow> histogram_serialize h = Some (map (\<lambda>e. (histogram_field e, h ! histogram_num e)) histogram_variants)"
  by (simp add: histogram_serialize_def histogram_variants_def eval_nat_numeral)

lemma timer_serialised:
  "length ts = 2 \<Longrightarrow> timer_serialize ts = Some (map (\<lambda>e. (timer_field e, ts ! timer_num e)) timer_variants)"
  by (simp add: timer_serialize_def timer_variants_def eval_nat_numeral)

lemma field_lookups:
  "map_of (map (\<lambda>e. (counter_field e, f e)) counter_variants) (counter_field x) = Some (f x)"
  "map_of (map (\<lambda>e. (histogram_field e, g e)) histogram_variants) (histogram_field y) = Some (g y)"
  "map_of (map (\<lambda>e. (timer_field e, k e)) timer_variants) (timer_field z) = Some (k z)"
proof -
  show "map_of (map (\<lambda>e. (counter_field e, f e)) counter_variants) (counter_field x) = Some (f x)"
    by (cases x) (simp_all add: counter_variants_def)
  show "map_of (map (\<lambda>e. (histogram_field e, g e)) histogram_variants) (histogram_field y) = Some (g y)"
    by (cases y) (simp_all add: histogram_variants_def)
  show "map_of (map (\<lambda>e. (timer_field e, k e)) timer_variants) (timer_field z) = Some (k z)"
    by (cases z) (simp_all add: timer_variants_def)
qed

section \<open>Properties\<close>

text \<open>
  C24: merging the recorders of two threads gives the recorder of one thread that recorded the events of
  the first and then those of the second: counters (modulo \<open>2 ^ 64\<close>), counters per context,
  histograms and timers alike.
\<close>

theorem merge_recorders:
  "recorder_add (record_all evs1 recorder_default) (record_all evs2 recorder_default)
   = record_all (evs1 @ evs2) recorder_default"
proof (induction evs2 rule: rev_induct)
  case Nil
  then show ?case
    using recorder_add_default [OF recorder_ok_all [OF recorder_ok_default, of evs1]] by (simp add: record_all_def)
next
  case (snoc e evs2)
  then show ?case
    using recorder_add_event [OF recorder_ok_all [OF recorder_ok_default] recorder_ok_all [OF recorder_ok_default]]
      record_all_snoc [of "evs1 @ evs2" e] by (simp add: record_all_snoc)
qed

text \<open>
  C34: a recorder has a cell for every event, so the unchecked accesses are in bounds, and it serialises
  without a panic to one field per counter, histogram and timer, each under its own name with its own value.
\<close>

theorem recorder_serialises:
  "counter_num e < length (r_counters (record_all evs recorder_default))
   \<and> histogram_num h < length (r_histograms (record_all evs recorder_default))
   \<and> timer_num t < length (r_timers (record_all evs recorder_default))
   \<and> (\<exists>cs hs ts. counter_serialize (r_counters (record_all evs recorder_default)) = Some cs
        \<and> histogram_serialize (r_histograms (record_all evs recorder_default)) = Some hs
        \<and> timer_serialize (r_timers (record_all evs recorder_default)) = Some ts
        \<and> map_of cs (counter_field e) = Some (r_counters (record_all evs recorder_default) ! counter_num e)
        \<and> map_of hs (histogram_field h) = Some (r_histograms (record_all evs recorder_default) ! histogram_num h)
        \<and> map_of ts (timer_field t) = Some (r_timers (record_all evs recorder_default) ! timer_num t)
        \<and> length cs = 17 \<and> length hs = 7 \<and> length ts = 2)"
proof -
  have ok: "recorder_ok (record_all evs recorder_default)"
    by (rule recorder_ok_all [OF recorder_ok_default])
  then have len: "length (r_counters (record_all evs recorder_default)) = 17"
    "length (r_histograms (record_all evs recorder_default)) = 7" "length (r_timers (record_all evs recorder_default)) = 2"
    by (simp_all add: recorder_ok_def)
  show ?thesis
    using len variant_numbers(1) [of e] variant_numbers(2) [of h] variant_numbers(3) [of t]
    by (simp add: counter_serialised histogram_serialised timer_serialised field_lookups)
      (simp add: counter_variants_def histogram_variants_def timer_variants_def)
qed

end
