(* ===== verification/Cache_Conc.thy ===== *)
theory Cache_Conc
  imports Oid_Lock Cache_Inner Item_Schema
begin

text \<open>
  The attribute cache under concurrency: \<^verbatim>\<open>insert\<close>, \<^verbatim>\<open>read\<close>, \<^verbatim>\<open>read_and_promote\<close> and the probing loop of
  \<^verbatim>\<open>src/attribute_cache/clock_cache\<close>, run by any number of tasks below the reader limit, one access to a
  shared cell per step, in any interleaving. Every row has its own lock of \<open>Oid_Lock\<close>; slots and
  tuples are shared. The abstract system that all of this implements only has a value and a
  reader-writer lock per row.
\<close>

section \<open>The interleaved cache\<close>

text \<open>
  What a thread is probing for: the row whose write guard it holds, the item to be cached, and for
  an insertion the tuple that is stored at the end.
\<close>

datatype job = Job (j_row: Rid) (j_item: bytes) (j_tuple: "bytes option")

text \<open>
  Where a thread is in \<^verbatim>\<open>probe_and_replace_rng\<close> and in what its callers do afterwards. Numbers are the
  rounds left and the slot; row ids are the row that is being evicted.
\<close>

datatype cpc =
    Rest
  | Probing job nat
  | Seen job nat nat u32
  | Clearing job nat nat NodeMeta
  | Evict job nat nat Rid
  | Trying job nat nat Rid
  | Validate job nat nat Rid
  | Unlock job nat Rid
  | Detach job nat Rid
  | Detaching job nat Rid
  | Swap job nat Rid
  | Claimed job nat
  | Filled job nat "ClockNode option"
  | Linking job nat "ClockNode option"
  | Linked job nat "ClockNode option"
  | Back job nat "ClockNode option"
  | Release job nat Rid
  | Finish job oid_ref

text \<open>\<open>held\<close> are the query values a thread has obtained under a guard, with their queries.\<close>

record conc =
  rids :: "Rid set"
  locks :: "Rid \<Rightarrow> lock_sys"
  slots :: "nat \<Rightarrow> ClockNode"
  tuples :: "Rid \<Rightarrow> bytes"
  held :: "tid \<Rightarrow> Rid \<Rightarrow> (FieldsMeta \<times> (nat, Rid) QueryValue) option"
  cpcs :: "tid \<Rightarrow> cpc"

definition goto :: "tid \<Rightarrow> cpc \<Rightarrow> conc \<Rightarrow> conc" where
  "goto t p s = s\<lparr> cpcs := (cpcs s)(t := p) \<rparr>"

definition set_lock :: "Rid \<Rightarrow> lock_sys \<Rightarrow> conc \<Rightarrow> conc" where
  "set_lock r l s = s\<lparr> locks := (locks s)(r := l) \<rparr>"

definition set_slot :: "nat \<Rightarrow> ClockNode \<Rightarrow> conc \<Rightarrow> conc" where
  "set_slot i e s = s\<lparr> slots := (slots s)(i := e) \<rparr>"

definition set_tuple :: "Rid \<Rightarrow> bytes \<Rightarrow> conc \<Rightarrow> conc" where
  "set_tuple r b s = s\<lparr> tuples := (tuples s)(r := b) \<rparr>"

definition set_held :: "tid \<Rightarrow> Rid \<Rightarrow> (FieldsMeta \<times> (nat, Rid) QueryValue) option \<Rightarrow> conc \<Rightarrow> conc" where
  "set_held t r x s = s\<lparr> held := (held s)(t := (held s t)(r := x)) \<rparr>"

definition ref :: "conc \<Rightarrow> Rid \<Rightarrow> oid_ref" where
  "ref s r = oid_ref_of (cell (locks s r))"

text \<open>\<^verbatim>\<open>set_ref\<close> on a slot; the draw is an argument.\<close>

definition touch :: "bool \<Rightarrow> nat \<Rightarrow> conc \<Rightarrow> conc" where
  "touch draw i s = (if draw then set_slot i ((slots s i)\<lparr> node_meta := set_ref (node_meta (slots s i)) \<rparr>) s else s)"

definition touch_hit :: "bool \<Rightarrow> oid_ref \<Rightarrow> conc \<Rightarrow> conc" where
  "touch_hit draw x s = (case x of Slot i \<Rightarrow> touch draw i s | Row _ \<Rightarrow> s)"

text \<open>The query value that \<^verbatim>\<open>read\<close> and \<^verbatim>\<open>read_and_promote\<close> build for an item in a slot or for a row in storage.\<close>

definition value_at :: "Schema \<Rightarrow> FieldsMeta \<Rightarrow> conc \<Rightarrow> oid_ref \<Rightarrow> (nat, Rid) QueryValue" where
  "value_at S query s x =
     (case x of
        Slot i \<Rightarrow> if matches S query then new_value (Some i) None else new_value (Some i) (Some (clock_rid (slots s i)))
      | Row r' \<Rightarrow> new_value None (Some r'))"

definition conc_get :: "Schema \<Rightarrow> (nat, Rid) QueryValue \<Rightarrow> Field \<Rightarrow> conc \<Rightarrow> access_error + bytes" where
  "conc_get S q f s = get_value (\<lambda>i. node_val (slots s i)) (tuples s) S q f (field_size f)"

definition conc_put :: "Schema \<Rightarrow> (nat, Rid) QueryValue \<Rightarrow> Field \<Rightarrow> bytes \<Rightarrow> conc \<Rightarrow> access_error + conc" where
  "conc_put S q f v s =
     (case get_value_mut S q f of
        Inl e \<Rightarrow> Inl e
      | Inr (In_Field i off) \<Rightarrow>
          (case store_bytes off v (node_val (slots s i)) of
             None \<Rightarrow> Inl Out_Of_Bounds
           | Some b \<Rightarrow> Inr (set_slot i ((slots s i)\<lparr> node_val := b \<rparr>) s))
      | Inr (In_Tuple r off) \<Rightarrow>
          (case store_bytes off v (tuples s r) of
             None \<Rightarrow> Inl Out_Of_Bounds
           | Some b \<Rightarrow> Inr (set_tuple r b s)))"

text \<open>
  What a step shows to the outside: nothing, an access to the lock of a row, a field read or written
  (with the error, if there is one), or a row that was inserted.
\<close>

datatype label =
    Tau
  | Lock_Op tid Rid
  | Read_Field tid Rid Field "access_error + bytes"
  | Write_Field tid Rid Field bytes "access_error option"
  | New_Row tid Rid bytes

text \<open>A client is sequential: it starts to probe when it is in no other lock operation.\<close>

definition conc_settled :: "conc \<Rightarrow> tid \<Rightarrow> bool" where
  "conc_settled s t \<longleftrightarrow> (\<forall>r\<in>rids s. pcs (locks s r) t \<in> {Idle, Reading, Writing})"

text \<open>
  One access of thread \<open>t\<close>. The slot a round looks at is arbitrary, as the clock hand is private to a
  thread but shared by its tasks; a \<open>tid\<close> is a task, as guards are held across awaits. \<open>n\<close> is the
  number of slots, \<open>pl\<close> the probe length, and \<open>proper\<close> says which fields may be asked for. Three
  things are one step although the code makes several accesses: a new object id is allocated and
  locked in one step, since no other task knows it yet; a node is written as a whole, and an item
  or tuple is copied as a whole, since no other task may access that item or tuple meanwhile.
  Every access to the word of an object id, to the row id and to the reference bit of a slot is a
  step of its own.
\<close>

inductive conc_step :: "Schema \<Rightarrow> nat \<Rightarrow> nat \<Rightarrow> nat \<Rightarrow> (Field \<Rightarrow> bool) \<Rightarrow> tid \<Rightarrow> conc \<Rightarrow> label \<Rightarrow> conc \<Rightarrow> bool"
  for S n pl tsz proper t s where
  client: "cpcs s t = Rest \<Longrightarrow> r \<in> rids s \<Longrightarrow> lock_step {t} (locks s r) l \<Longrightarrow> pending_store (pcs l t) = None \<Longrightarrow>
    conc_step S n pl tsz proper t s (Lock_Op t r) (set_lock r l (set_held t r None s))"
| look: "cpcs s t = Rest \<Longrightarrow> r \<in> rids s \<Longrightarrow> pcs (locks s r) t \<in> {Reading, Writing} \<Longrightarrow>
    conc_step S n pl tsz proper t s Tau
      (set_held t r (Some (query, value_at S query s (ref s r))) (touch_hit draw (ref s r) s))"
| get_field: "cpcs s t = Rest \<Longrightarrow> held s t r = Some (query, q) \<Longrightarrow> f \<in> set query \<Longrightarrow> proper f \<Longrightarrow>
    conc_step S n pl tsz proper t s (Read_Field t r f (conc_get S q f s)) s"
| put_ok: "cpcs s t = Rest \<Longrightarrow> held s t r = Some (query, q) \<Longrightarrow> pcs (locks s r) t = Writing \<Longrightarrow> f \<in> set query \<Longrightarrow>
    proper f \<Longrightarrow> length v = field_size f \<Longrightarrow> conc_put S q f v s = Inr s' \<Longrightarrow>
    conc_step S n pl tsz proper t s (Write_Field t r f v None) s'"
| put_err: "cpcs s t = Rest \<Longrightarrow> held s t r = Some (query, q) \<Longrightarrow> pcs (locks s r) t = Writing \<Longrightarrow> f \<in> set query \<Longrightarrow>
    proper f \<Longrightarrow> length v = field_size f \<Longrightarrow> conc_put S q f v s = Inl e \<Longrightarrow>
    conc_step S n pl tsz proper t s (Write_Field t r f v (Some e)) s"
| promote: "cpcs s t = Rest \<Longrightarrow> conc_settled s t \<Longrightarrow> r \<in> rids s \<Longrightarrow> pcs (locks s r) t = Writing \<Longrightarrow> ref s r = Row r \<Longrightarrow>
    conc_step S n pl tsz proper t s Tau
      (goto t (Probing (Job r (to_cached S (tuples s r)) None) pl) (set_held t r None s))"
| insert_row: "cpcs s t = Rest \<Longrightarrow> conc_settled s t \<Longrightarrow> r \<notin> rids s \<Longrightarrow> as_u32 r \<noteq> U32_MAX \<Longrightarrow> length x = tsz \<Longrightarrow>
    conc_step S n pl tsz proper t s (Lock_Op t r)
      (goto t (Probing (Job r (to_cached S x) (Some x)) pl)
        (set_lock r \<lparr> cell = from_rid r OR LOCK_WRITER, pcs = (\<lambda>_. Idle)(t := Writing) \<rparr>
          (s\<lparr> rids := insert r (rids s) \<rparr>)))"
| next_slot: "cpcs s t = Probing j (Suc k) \<Longrightarrow> i < n \<Longrightarrow>
    conc_step S n pl tsz proper t s Tau (goto t (Seen j k i (node_rid (slots s i))) s)"
| no_draw: "cpcs s t = Probing j pl \<Longrightarrow> j_tuple j = None \<Longrightarrow>
    conc_step S n pl tsz proper t s Tau (goto t (Finish j (Row (j_row j))) s)"
| give_up: "cpcs s t = Probing j 0 \<Longrightarrow> conc_step S n pl tsz proper t s Tau (goto t (Finish j (Row (j_row j))) s)"
| claim_ok: "cpcs s t = Seen j k i c \<Longrightarrow> c = U32_MAX \<Longrightarrow>
    compare_exchange_weak spur (node_rid (slots s i)) c (as_u32 (j_row j)) = (Inr u, c') \<Longrightarrow>
    conc_step S n pl tsz proper t s Tau (goto t (Claimed j i) (set_slot i ((slots s i)\<lparr> node_rid := c' \<rparr>) s))"
| claim_err: "cpcs s t = Seen j k i c \<Longrightarrow> c = U32_MAX \<Longrightarrow>
    compare_exchange_weak spur (node_rid (slots s i)) c (as_u32 (j_row j)) = (Inl u, c') \<Longrightarrow>
    conc_step S n pl tsz proper t s Tau (goto t (Probing j k) s)"
| referenced: "cpcs s t = Seen j k i c \<Longrightarrow> c \<noteq> U32_MAX \<Longrightarrow>
    clear_if_set (node_meta (slots s i)) (node_meta (slots s i)) = (True, m) \<Longrightarrow>
    conc_step S n pl tsz proper t s Tau (goto t (Clearing j k i m) s)"
| unreferenced: "cpcs s t = Seen j k i c \<Longrightarrow> c \<noteq> U32_MAX \<Longrightarrow>
    clear_if_set (node_meta (slots s i)) (node_meta (slots s i)) = (False, m) \<Longrightarrow>
    conc_step S n pl tsz proper t s Tau (goto t (Evict j k i (from_u32 c)) s)"
| clear_store: "cpcs s t = Clearing j k i m \<Longrightarrow>
    conc_step S n pl tsz proper t s Tau (goto t (Probing j k) (set_slot i ((slots s i)\<lparr> node_meta := m \<rparr>) s))"
| evict_call: "cpcs s t = Evict j k i c \<Longrightarrow> pcs (locks s c) t = Idle \<Longrightarrow> lock_step {t} (locks s c) l \<Longrightarrow>
    pcs l t = Try_Write v \<Longrightarrow> conc_step S n pl tsz proper t s (Lock_Op t c) (goto t (Trying j k i c) (set_lock c l s))"
| evict_own: "cpcs s t = Evict j k i c \<Longrightarrow> pcs (locks s c) t \<noteq> Idle \<Longrightarrow>
    try_write spur (cell (locks s c)) (cell (locks s c)) = (Inl e, w) \<Longrightarrow>
    conc_step S n pl tsz proper t s Tau (goto t (Probing j k) s)"
| try_ok: "cpcs s t = Trying j k i c \<Longrightarrow> lock_step {t} (locks s c) l \<Longrightarrow> pcs l t = Writing \<Longrightarrow>
    conc_step S n pl tsz proper t s (Lock_Op t c) (goto t (Validate j k i c) (set_lock c l s))"
| try_err: "cpcs s t = Trying j k i c \<Longrightarrow> lock_step {t} (locks s c) l \<Longrightarrow> pcs l t = Idle \<Longrightarrow>
    conc_step S n pl tsz proper t s (Lock_Op t c) (goto t (Probing j k) (set_lock c l s))"
| valid_ok: "cpcs s t = Validate j k i c \<Longrightarrow>
    compare_exchange_weak spur (node_rid (slots s i)) (as_u32 c) (as_u32 c) = (Inr u, c') \<Longrightarrow>
    conc_step S n pl tsz proper t s Tau (goto t (Detach j i c) s)"
| valid_err: "cpcs s t = Validate j k i c \<Longrightarrow>
    compare_exchange_weak spur (node_rid (slots s i)) (as_u32 c) (as_u32 c) = (Inl u, c') \<Longrightarrow>
    conc_step S n pl tsz proper t s Tau (goto t (Unlock j k c) s)"
| unlock: "cpcs s t = Unlock j k c \<Longrightarrow> lock_step {t} (locks s c) l \<Longrightarrow> pcs l t = Idle \<Longrightarrow>
    conc_step S n pl tsz proper t s (Lock_Op t c) (goto t (Probing j k) (set_lock c l s))"
| detach_call: "cpcs s t = Detach j i c \<Longrightarrow> lock_step {t} (locks s c) l \<Longrightarrow>
    pcs l t = Storing_Rid (clock_rid (slots s i)) v \<Longrightarrow>
    conc_step S n pl tsz proper t s (Lock_Op t c) (goto t (Detaching j i c) (set_lock c l s))"
| detach_end: "cpcs s t = Detaching j i c \<Longrightarrow> lock_step {t} (locks s c) l \<Longrightarrow>
    conc_step S n pl tsz proper t s (Lock_Op t c) (goto t (Swap j i c) (set_lock c l s))"
| swap: "cpcs s t = Swap j i c \<Longrightarrow>
    conc_step S n pl tsz proper t s Tau
      (goto t (Filled j i (Some (slots s i))) (set_slot i (node_new (j_item j) (j_row j)) s))"
| fill: "cpcs s t = Claimed j i \<Longrightarrow>
    conc_step S n pl tsz proper t s Tau (goto t (Filled j i None) (set_slot i (node_new (j_item j) (j_row j)) s))"
| link_call: "cpcs s t = Filled j i ev \<Longrightarrow> lock_step {t} (locks s (j_row j)) l \<Longrightarrow>
    pcs l t = Storing_Index (of_nat i) v \<Longrightarrow>
    conc_step S n pl tsz proper t s (Lock_Op t (j_row j)) (goto t (Linking j i ev) (set_lock (j_row j) l s))"
| link_end: "cpcs s t = Linking j i ev \<Longrightarrow> lock_step {t} (locks s (j_row j)) l \<Longrightarrow>
    conc_step S n pl tsz proper t s (Lock_Op t (j_row j)) (goto t (Linked j i ev) (set_lock (j_row j) l s))"
| touch_new: "cpcs s t = Linked j i ev \<Longrightarrow>
    conc_step S n pl tsz proper t s Tau (goto t (Back j i ev) (touch (draw \<and> j_tuple j = None) i s))"
| back_none: "cpcs s t = Back j i None \<Longrightarrow> conc_step S n pl tsz proper t s Tau (goto t (Finish j (Slot i)) s)"
| back_some: "cpcs s t = Back j i (Some old) \<Longrightarrow> c = clock_rid old \<Longrightarrow>
    conc_step S n pl tsz proper t s Tau
      (goto t (Release j i c) (set_tuple c (write_back S (node_val old) (tuples s c)) s))"
| release: "cpcs s t = Release j i c \<Longrightarrow> lock_step {t} (locks s c) l \<Longrightarrow> pcs l t = Idle \<Longrightarrow>
    conc_step S n pl tsz proper t s (Lock_Op t c) (goto t (Finish j (Slot i)) (set_lock c l s))"
| finish_promote: "cpcs s t = Finish j x \<Longrightarrow> j_tuple j = None \<Longrightarrow>
    conc_step S n pl tsz proper t s Tau
      (goto t Rest (set_held t (j_row j) (Some (query, value_at S query s x)) s))"
| finish_insert: "cpcs s t = Finish j y \<Longrightarrow> j_tuple j = Some x \<Longrightarrow>
    conc_step S n pl tsz proper t s (New_Row t (j_row j) x) (goto t Rest (set_tuple (j_row j) x s))"

text \<open>The cache starts empty, with tuples of the right size in storage.\<close>

definition conc_init :: "nat \<Rightarrow> conc \<Rightarrow> bool" where
  "conc_init tsz s \<longleftrightarrow> rids s = {} \<and> (\<forall>i. node_rid (slots s i) = U32_MAX) \<and> (\<forall>r. length (tuples s r) = tsz)
     \<and> held s = (\<lambda>_ _. None) \<and> cpcs s = (\<lambda>_. Rest)"

text \<open>A run of the threads of \<open>T\<close>, with what it shows.\<close>

inductive conc_run ::
  "Schema \<Rightarrow> nat \<Rightarrow> nat \<Rightarrow> nat \<Rightarrow> (Field \<Rightarrow> bool) \<Rightarrow> tid set \<Rightarrow> conc \<Rightarrow> label list \<Rightarrow> conc \<Rightarrow> bool"
  for S n pl tsz proper T s where
  run_start: "conc_run S n pl tsz proper T s [] s"
| run_step: "conc_run S n pl tsz proper T s ls s' \<Longrightarrow> t \<in> T \<Longrightarrow> conc_step S n pl tsz proper t s' lbl s'' \<Longrightarrow>
    conc_run S n pl tsz proper T s (ls @ [lbl]) s''"

section \<open>The abstract system\<close>

text \<open>A value and a reader-writer lock per row; a row has a value once it is inserted.\<close>

record cspec =
  c_val :: "Rid \<Rightarrow> bytes option"
  c_guards :: "Rid \<Rightarrow> tid set \<times> tid option"

inductive guard_step :: "tid \<Rightarrow> tid set \<times> tid option \<Rightarrow> tid set \<times> tid option \<Rightarrow> bool" for t where
  guard_same: "guard_step t g g"
| guard_read: "t \<notin> R \<Longrightarrow> guard_step t (R, None) (insert t R, None)"
| guard_unread: "t \<in> R \<Longrightarrow> guard_step t (R, None) (R - {t}, None)"
| guard_write: "guard_step t ({}, None) ({}, Some t)"
| guard_unwrite: "guard_step t ({}, Some t) ({}, None)"
| guard_upgrade: "guard_step t ({t}, None) ({}, Some t)"

inductive cspec_step :: "cspec \<Rightarrow> label \<Rightarrow> cspec \<Rightarrow> bool" for a where
  spec_tau: "cspec_step a Tau a"
| spec_lock: "guard_step t (c_guards a r) g \<Longrightarrow>
    cspec_step a (Lock_Op t r) (a\<lparr> c_guards := (c_guards a)(r := g) \<rparr>)"
| spec_read: "c_val a r = Some x \<Longrightarrow> t \<in> fst (c_guards a r) \<or> snd (c_guards a r) = Some t \<Longrightarrow>
    load_bytes (field_off f) (field_size f) x = Some v \<Longrightarrow> cspec_step a (Read_Field t r f (Inr v)) a"
| spec_write: "c_val a r = Some x \<Longrightarrow> c_guards a r = ({}, Some t) \<Longrightarrow> store_bytes (field_off f) v x = Some x' \<Longrightarrow>
    cspec_step a (Write_Field t r f v None) (a\<lparr> c_val := (c_val a)(r \<mapsto> x') \<rparr>)"
| spec_new: "c_val a r = None \<Longrightarrow> c_guards a r = ({}, Some t) \<Longrightarrow>
    cspec_step a (New_Row t r x) (a\<lparr> c_val := (c_val a)(r \<mapsto> x) \<rparr>)"

definition cspec_empty :: cspec where
  "cspec_empty = \<lparr> c_val = (\<lambda>_. None), c_guards = (\<lambda>_. ({}, None)) \<rparr>"

inductive cspec_run :: "label list \<Rightarrow> cspec \<Rightarrow> bool" where
  spec_start: "cspec_run [] cspec_empty"
| spec_step: "cspec_run ls a \<Longrightarrow> cspec_step a lbl a' \<Longrightarrow> cspec_run (ls @ [lbl]) a'"

subsection \<open>What the concrete state means\<close>

text \<open>The row a thread is evicting, with the item it has taken out of the slot or is about to.\<close>

fun evictee :: "conc \<Rightarrow> cpc \<Rightarrow> (Rid \<times> bytes) option" where
  "evictee s (Swap j i c) = Some (c, node_val (slots s i))"
| "evictee s (Filled j i (Some old)) = Some (clock_rid old, node_val old)"
| "evictee s (Linking j i (Some old)) = Some (clock_rid old, node_val old)"
| "evictee s (Linked j i (Some old)) = Some (clock_rid old, node_val old)"
| "evictee s (Back j i (Some old)) = Some (clock_rid old, node_val old)"
| "evictee s _ = None"

fun job_of :: "cpc \<Rightarrow> job option" where
  "job_of Rest = None"
| "job_of (Probing j k) = Some j"
| "job_of (Seen j k i c) = Some j"
| "job_of (Clearing j k i m) = Some j"
| "job_of (Evict j k i c) = Some j"
| "job_of (Trying j k i c) = Some j"
| "job_of (Validate j k i c) = Some j"
| "job_of (Unlock j k c) = Some j"
| "job_of (Detach j i c) = Some j"
| "job_of (Detaching j i c) = Some j"
| "job_of (Swap j i c) = Some j"
| "job_of (Claimed j i) = Some j"
| "job_of (Filled j i ev) = Some j"
| "job_of (Linking j i ev) = Some j"
| "job_of (Linked j i ev) = Some j"
| "job_of (Back j i ev) = Some j"
| "job_of (Release j i c) = Some j"
| "job_of (Finish j x) = Some j"

definition wholds :: "conc \<Rightarrow> tid \<Rightarrow> Rid \<Rightarrow> bool" where
  "wholds s t r \<longleftrightarrow> holds_write (pcs (locks s r) t)"

definition guards :: "lock_sys \<Rightarrow> tid set \<times> tid option" where
  "guards l = (reading l, if writing l = {} then None else Some (Min (writing l)))"

text \<open>The cached part of a row: its slot, or what the thread that is evicting it has in hand.\<close>

definition cached_item :: "conc \<Rightarrow> Rid \<Rightarrow> bytes option" where
  "cached_item s r =
     (case ref s r of
        Slot i \<Rightarrow> Some (node_val (slots s i))
      | Row _ \<Rightarrow> Option.bind (snd (guards (locks s r))) (\<lambda>t. Option.bind (evictee s (cpcs s t)) (\<lambda>(c, b).
                 if c = r then Some b else None)))"

definition inserting :: "conc \<Rightarrow> Rid \<Rightarrow> bool" where
  "inserting s r \<longleftrightarrow>
     (case snd (guards (locks s r)) of
        None \<Rightarrow> False
      | Some t \<Rightarrow> (case job_of (cpcs s t) of None \<Rightarrow> False | Some j \<Rightarrow> j_row j = r \<and> j_tuple j \<noteq> None))"

definition conc_val :: "Schema \<Rightarrow> conc \<Rightarrow> Rid \<Rightarrow> bytes option" where
  "conc_val S s r = (if r \<in> rids s \<and> \<not> inserting s r then Some (logical S (cached_item s r) (tuples s r)) else None)"

definition conc_guards :: "conc \<Rightarrow> Rid \<Rightarrow> tid set \<times> tid option" where
  "conc_guards s r = (if r \<in> rids s then guards (locks s r) else ({}, None))"

definition conc_abs :: "Schema \<Rightarrow> conc \<Rightarrow> cspec" where
  "conc_abs S s = \<lparr> c_val = conc_val S s, c_guards = conc_guards s \<rparr>"

section \<open>The invariant\<close>

text \<open>\<open>t\<close> has the write guard of \<open>r\<close>, is not storing through it, and has lent nothing out of the row.\<close>

definition writes :: "conc \<Rightarrow> tid \<Rightarrow> Rid \<Rightarrow> bool" where
  "writes s t r \<longleftrightarrow> r \<in> rids s \<and> pcs (locks s r) t = Writing \<and> held s t r = None"

definition job_data :: "Schema \<Rightarrow> nat \<Rightarrow> nat \<Rightarrow> conc \<Rightarrow> job \<Rightarrow> bool" where
  "job_data S tsz csz s j \<longleftrightarrow> length (j_item j) = csz
     \<and> (j_tuple j = None \<longrightarrow> j_item j = to_cached S (tuples s (j_row j)))
     \<and> (\<forall>x. j_tuple j = Some x \<longrightarrow> j_item j = to_cached S x \<and> length x = tsz)
     \<and> (\<forall>i. ref s (j_row j) = Slot i \<longrightarrow> node_val (slots s i) = j_item j)"

definition own_slot :: "nat \<Rightarrow> conc \<Rightarrow> nat \<Rightarrow> Rid \<Rightarrow> bool" where
  "own_slot n s i r \<longleftrightarrow> i < n \<and> node_rid (slots s i) = as_u32 r"

definition evicted_ok :: "nat \<Rightarrow> conc \<Rightarrow> tid \<Rightarrow> job \<Rightarrow> ClockNode option \<Rightarrow> bool" where
  "evicted_ok csz s t j ev \<longleftrightarrow>
     (\<forall>old. ev = Some old \<longrightarrow> clock_rid old \<noteq> j_row j \<and> writes s t (clock_rid old)
        \<and> ref s (clock_rid old) = Row (clock_rid old) \<and> length (node_val old) = csz)"

definition searching :: "Schema \<Rightarrow> nat \<Rightarrow> nat \<Rightarrow> conc \<Rightarrow> tid \<Rightarrow> job \<Rightarrow> bool" where
  "searching S tsz csz s t j \<longleftrightarrow> writes s t (j_row j) \<and> job_data S tsz csz s j \<and> ref s (j_row j) = Row (j_row j)"

text \<open>What holds at each point of a thread.\<close>

fun pc_ok :: "Schema \<Rightarrow> nat \<Rightarrow> nat \<Rightarrow> nat \<Rightarrow> conc \<Rightarrow> tid \<Rightarrow> cpc \<Rightarrow> bool" where
  "pc_ok S n tsz csz s t Rest = True"
| "pc_ok S n tsz csz s t (Probing j k) = searching S tsz csz s t j"
| "pc_ok S n tsz csz s t (Seen j k i c) = (searching S tsz csz s t j \<and> i < n
     \<and> (c \<noteq> U32_MAX \<longrightarrow> from_u32 c \<in> rids s \<and> from_u32 c \<noteq> j_row j))"
| "pc_ok S n tsz csz s t (Clearing j k i m) = searching S tsz csz s t j"
| "pc_ok S n tsz csz s t (Evict j k i c) = (searching S tsz csz s t j \<and> i < n \<and> c \<in> rids s \<and> c \<noteq> j_row j)"
| "pc_ok S n tsz csz s t (Trying j k i c) = (searching S tsz csz s t j \<and> i < n \<and> c \<in> rids s \<and> c \<noteq> j_row j
     \<and> (\<exists>v. pcs (locks s c) t = Try_Write v))"
| "pc_ok S n tsz csz s t (Validate j k i c) = (searching S tsz csz s t j \<and> i < n \<and> c \<noteq> j_row j \<and> writes s t c)"
| "pc_ok S n tsz csz s t (Unlock j k c) = (searching S tsz csz s t j \<and> c \<noteq> j_row j \<and> writes s t c)"
| "pc_ok S n tsz csz s t (Detach j i c) = (searching S tsz csz s t j \<and> c \<noteq> j_row j \<and> writes s t c
     \<and> own_slot n s i c \<and> ref s c = Slot i)"
| "pc_ok S n tsz csz s t (Detaching j i c) = (searching S tsz csz s t j \<and> c \<noteq> j_row j \<and> c \<in> rids s
     \<and> held s t c = None \<and> (\<exists>v. pcs (locks s c) t = Storing_Rid c v) \<and> own_slot n s i c \<and> ref s c = Slot i)"
| "pc_ok S n tsz csz s t (Swap j i c) = (searching S tsz csz s t j \<and> c \<noteq> j_row j \<and> writes s t c
     \<and> own_slot n s i c \<and> ref s c = Row c \<and> length (node_val (slots s i)) = csz)"
| "pc_ok S n tsz csz s t (Claimed j i) = (searching S tsz csz s t j \<and> own_slot n s i (j_row j))"
| "pc_ok S n tsz csz s t (Filled j i ev) = (searching S tsz csz s t j \<and> own_slot n s i (j_row j)
     \<and> node_val (slots s i) = j_item j \<and> evicted_ok csz s t j ev)"
| "pc_ok S n tsz csz s t (Linking j i ev) = (j_row j \<in> rids s \<and> held s t (j_row j) = None
     \<and> (\<exists>v. pcs (locks s (j_row j)) t = Storing_Index (of_nat i) v) \<and> job_data S tsz csz s j
     \<and> ref s (j_row j) = Row (j_row j) \<and> own_slot n s i (j_row j)
     \<and> node_val (slots s i) = j_item j \<and> evicted_ok csz s t j ev)"
| "pc_ok S n tsz csz s t (Linked j i ev) = (writes s t (j_row j) \<and> job_data S tsz csz s j
     \<and> ref s (j_row j) = Slot i \<and> evicted_ok csz s t j ev)"
| "pc_ok S n tsz csz s t (Back j i ev) = (writes s t (j_row j) \<and> job_data S tsz csz s j
     \<and> ref s (j_row j) = Slot i \<and> evicted_ok csz s t j ev)"
| "pc_ok S n tsz csz s t (Release j i c) = (writes s t (j_row j) \<and> job_data S tsz csz s j
     \<and> ref s (j_row j) = Slot i \<and> c \<noteq> j_row j \<and> writes s t c \<and> ref s c = Row c)"
| "pc_ok S n tsz csz s t (Finish j x) = (writes s t (j_row j) \<and> job_data S tsz csz s j \<and> ref s (j_row j) = x)"

text \<open>The slot a thread has claimed for a row but not linked yet, or detached but not refilled yet.\<close>

fun transit :: "cpc \<Rightarrow> nat \<Rightarrow> Rid \<Rightarrow> bool" where
  "transit (Swap j i' c) i r = (i' = i \<and> r = c)"
| "transit (Claimed j i') i r = (i' = i \<and> r = j_row j)"
| "transit (Filled j i' ev) i r = (i' = i \<and> r = j_row j)"
| "transit (Linking j i' ev) i r = (i' = i \<and> r = j_row j)"
| "transit _ i r = False"

fun stores :: "cpc \<Rightarrow> Rid \<Rightarrow> bool" where
  "stores (Detaching j i c) r = (r = c)"
| "stores (Linking j i ev) r = (r = j_row j)"
| "stores _ r = False"

definition row_fine :: "nat \<Rightarrow> nat \<Rightarrow> conc \<Rightarrow> Rid \<Rightarrow> bool" where
  "row_fine n csz s r \<longleftrightarrow> (\<forall>r'. ref s r = Row r' \<longrightarrow> r' = r)
     \<and> (\<forall>i. ref s r = Slot i \<longrightarrow> own_slot n s i r \<and> length (node_val (slots s i)) = csz)"

definition slot_fine :: "conc \<Rightarrow> nat \<Rightarrow> bool" where
  "slot_fine s i \<longleftrightarrow> node_rid (slots s i) = U32_MAX
     \<or> clock_rid (slots s i) \<in> rids s \<and> (ref s (clock_rid (slots s i)) = Slot i
          \<or> (\<exists>t. wholds s t (clock_rid (slots s i)) \<and> transit (cpcs s t) i (clock_rid (slots s i))))"

definition the_value :: "Schema \<Rightarrow> FieldsMeta \<Rightarrow> oid_ref \<Rightarrow> Rid \<Rightarrow> (nat, Rid) QueryValue" where
  "the_value S query x r =
     (case x of Slot i \<Rightarrow> new_value (Some i) (if matches S query then None else Some r) | Row r' \<Rightarrow> new_value None (Some r'))"

definition held_fine :: "Schema \<Rightarrow> conc \<Rightarrow> tid \<Rightarrow> bool" where
  "held_fine S s t \<longleftrightarrow> (\<forall>r query q. held s t r = Some (query, q) \<longrightarrow>
     r \<in> rids s \<and> pcs (locks s r) t \<in> {Reading, Writing} \<and> q = the_value S query (ref s r) r)"

definition stores_fine :: "conc \<Rightarrow> tid \<Rightarrow> bool" where
  "stores_fine s t \<longleftrightarrow> (\<forall>r\<in>rids s. pending_store (pcs (locks s r) t) \<noteq> None \<longrightarrow> stores (cpcs s t) r)"

definition conc_inv :: "Schema \<Rightarrow> nat \<Rightarrow> nat \<Rightarrow> nat \<Rightarrow> tid set \<Rightarrow> conc \<Rightarrow> bool" where
  "conc_inv S n tsz csz T s \<longleftrightarrow>
     (\<forall>r\<in>rids s. lock_inv T (locks s r) \<and> as_u32 r \<noteq> U32_MAX \<and> row_fine n csz s r)
     \<and> (\<forall>r. length (tuples s r) = tsz) \<and> (\<forall>i<n. slot_fine s i)
     \<and> (\<forall>t. pc_ok S n tsz csz s t (cpcs s t) \<and> held_fine S s t \<and> stores_fine s t)"

lemma conc_invD:
  assumes "conc_inv S n tsz csz T s"
  shows "r \<in> rids s \<Longrightarrow> lock_inv T (locks s r)" "r \<in> rids s \<Longrightarrow> as_u32 r \<noteq> U32_MAX"
    "r \<in> rids s \<Longrightarrow> row_fine n csz s r" "length (tuples s r) = tsz" "i < n \<Longrightarrow> slot_fine s i"
    "pc_ok S n tsz csz s t (cpcs s t)" "held_fine S s t" "stores_fine s t"
  using assms by (auto simp: conc_inv_def)

subsection \<open>The parts of a state\<close>

lemma goto_simps [simp]:
  "rids (goto t p s) = rids s" "locks (goto t p s) = locks s" "slots (goto t p s) = slots s"
  "tuples (goto t p s) = tuples s" "held (goto t p s) = held s" "cpcs (goto t p s) = (cpcs s)(t := p)"
  "ref (goto t p s) = ref s"
  by (simp_all add: goto_def ref_def fun_eq_iff)

lemma set_lock_simps [simp]:
  "rids (set_lock r l s) = rids s" "locks (set_lock r l s) = (locks s)(r := l)" "slots (set_lock r l s) = slots s"
  "tuples (set_lock r l s) = tuples s" "held (set_lock r l s) = held s" "cpcs (set_lock r l s) = cpcs s"
  "ref (set_lock r l s) = (ref s)(r := oid_ref_of (cell l))"
  by (simp_all add: set_lock_def ref_def fun_eq_iff)

lemma set_slot_simps [simp]:
  "rids (set_slot i e s) = rids s" "locks (set_slot i e s) = locks s" "slots (set_slot i e s) = (slots s)(i := e)"
  "tuples (set_slot i e s) = tuples s" "held (set_slot i e s) = held s" "cpcs (set_slot i e s) = cpcs s"
  "ref (set_slot i e s) = ref s"
  by (simp_all add: set_slot_def ref_def fun_eq_iff)

lemma set_tuple_simps [simp]:
  "rids (set_tuple r b s) = rids s" "locks (set_tuple r b s) = locks s" "slots (set_tuple r b s) = slots s"
  "tuples (set_tuple r b s) = (tuples s)(r := b)" "held (set_tuple r b s) = held s"
  "cpcs (set_tuple r b s) = cpcs s" "ref (set_tuple r b s) = ref s"
  by (simp_all add: set_tuple_def ref_def fun_eq_iff)

lemma set_held_simps [simp]:
  "rids (set_held t r x s) = rids s" "locks (set_held t r x s) = locks s" "slots (set_held t r x s) = slots s"
  "tuples (set_held t r x s) = tuples s" "held (set_held t r x s) = (held s)(t := (held s t)(r := x))"
  "cpcs (set_held t r x s) = cpcs s" "ref (set_held t r x s) = ref s"
  by (simp_all add: set_held_def ref_def fun_eq_iff)

lemma goto_same: "cpcs s t = p \<Longrightarrow> goto t p s = s"
  by (simp add: goto_def fun_upd_idem)

lemma pc_ok_goto [simp]: "pc_ok S n tsz csz (goto u q s) t p = pc_ok S n tsz csz s t p"
  by (cases p) (simp_all add: searching_def writes_def job_data_def own_slot_def evicted_ok_def)

subsection \<open>A step on one lock\<close>

lemma lock_step_mono: "lock_step {t} l l' \<Longrightarrow> t \<in> T \<Longrightarrow> lock_step T l l'"
  by (erule lock_step.cases) (auto intro: lock_step.intros)

lemma lock_one_inv: "few T \<Longrightarrow> lock_inv T l \<Longrightarrow> lock_step {t} l l' \<Longrightarrow> t \<in> T \<Longrightarrow> lock_inv T l'"
  by (meson lock_inv_step lock_step_mono)

lemma lock_one_others: "lock_step {t} l l' \<Longrightarrow> u \<noteq> t \<Longrightarrow> pcs l' u = pcs l u"
  by (erule lock_step.cases) auto

fun stored_ref :: "client \<Rightarrow> oid_ref \<Rightarrow> oid_ref" where
  "stored_ref (Storing_Rid r v) x = Row r"
| "stored_ref (Storing_Index i v) x = Slot (unat i)"
| "stored_ref _ x = x"

lemma lock_one_ref:
  assumes "few T" "lock_inv T l" "lock_step {t} l l'"
  shows "oid_ref_of (cell l') = stored_ref (pcs l t) (oid_ref_of (cell l))"
  using assms(3)
proof (cases rule: lock_step.cases)
  case (end_store_rid u r v)
  then show ?thesis by (simp add: oid_simps)
next
  case (end_store_index u i v)
  then have "v = cell l" "i < 4294967296"
    using inv_storing [OF assms(2), of u] by simp_all
  moreover have "oid_wf (cell l)"
    using assms(2) by (simp add: lock_inv_def)
  ultimately show ?thesis
    using end_store_index by (simp add: oid_simps)
next
  case (drop_read u)
  then show ?thesis
    using inv_reader(3) [OF assms(1,2), of u] by (simp add: read_unlock_def atomic_simps oid_simps)
next
  case (drop_write u)
  then show ?thesis
    using inv_writer(3) [OF assms(2), of u] by (simp add: write_unlock_def atomic_simps oid_simps)
qed (auto simp: lock_eqs oid_simps split: if_splits)

lemma lock_one_storing:
  "lock_step {t} l l' \<Longrightarrow> pending_store (pcs l t) \<noteq> None \<Longrightarrow> pcs l' t = Writing"
  by (erule lock_step.cases) auto

lemma lock_one_guards:
  assumes "few T" "lock_inv T l" "lock_step {t} l l'" "t \<in> T"
  shows "guard_step t (guards l) (guards l')"
proof -
  note free = inv_free [OF assms(2)] and some = inv_readers [OF assms(1,2)]
  from assms(3) show ?thesis
  proof (cases rule: lock_step_cases)
    case (silent u p)
    then have "reading l' = reading l" "writing l' = writing l"
      by (auto simp: set_eq_iff)
    then show ?thesis by (simp add: guards_def guard_same)
  next
    case (get_read u)
    then show ?thesis using free by (simp add: guards_def guard_read)
  next
    case (leave_read u)
    then show ?thesis
      using inv_reader(1) [OF assms(1,2), of u] by (simp add: guards_def guard_unread)
  next
    case (get_write u)
    then have "writing l = {}" "reading l = {}"
      using free some by auto
    then show ?thesis using get_write by (simp add: guards_def guard_write)
  next
    case (leave_write u)
    then show ?thesis
      using inv_writer [OF assms(2), of u] by (simp add: guards_def guard_unwrite)
  next
    case (turn u)
    note r = inv_reader [OF assms(1,2) turn(2)]
    have "u \<in> reading l" "card (reading l) = 1"
      using r turn(2,3) by simp_all
    then have "reading l = {u}"
      by (metis card_1_singletonE singletonD)
    then show ?thesis using turn r by (simp add: guards_def guard_upgrade)
  next
    case (put_rid u r v)
    then show ?thesis using inv_writer [OF assms(2), of u] by (simp add: guards_def guard_same)
  next
    case (put_index u i v)
    then show ?thesis using inv_writer [OF assms(2), of u] by (simp add: guards_def guard_same)
  qed
qed


subsection \<open>What a step of one thread leaves to the others\<close>

definition guarded :: "conc \<Rightarrow> tid \<Rightarrow> Rid \<Rightarrow> bool" where
  "guarded s t r \<longleftrightarrow> r \<in> rids s \<and> (holds_read (pcs (locks s r) t) \<or> holds_write (pcs (locks s r) t))"

definition frame :: "tid \<Rightarrow> conc \<Rightarrow> conc \<Rightarrow> bool" where
  "frame t s s' \<longleftrightarrow> rids s \<subseteq> rids s'
     \<and> (\<forall>u. u \<noteq> t \<longrightarrow> cpcs s' u = cpcs s u \<and> held s' u = held s u)
     \<and> (\<forall>u r. u \<noteq> t \<longrightarrow> r \<in> rids s' \<longrightarrow> pcs (locks s' r) u = (if r \<in> rids s then pcs (locks s r) u else Idle))
     \<and> (\<forall>r\<in>rids s. \<not> wholds s t r \<longrightarrow> ref s' r = ref s r \<and> tuples s' r = tuples s r
          \<and> (\<forall>i. node_rid (slots s i) = as_u32 r \<longrightarrow>
                node_rid (slots s' i) = as_u32 r \<and> node_val (slots s' i) = node_val (slots s i)))"

lemma frameD:
  assumes "frame t s s'"
  shows "r \<in> rids s \<Longrightarrow> r \<in> rids s'" "u \<noteq> t \<Longrightarrow> cpcs s' u = cpcs s u" "u \<noteq> t \<Longrightarrow> held s' u = held s u"
    "u \<noteq> t \<Longrightarrow> r \<in> rids s \<Longrightarrow> pcs (locks s' r) u = pcs (locks s r) u"
    "u \<noteq> t \<Longrightarrow> r \<in> rids s' \<Longrightarrow> r \<notin> rids s \<Longrightarrow> pcs (locks s' r) u = Idle"
    "r \<in> rids s \<Longrightarrow> \<not> wholds s t r \<Longrightarrow> ref s' r = ref s r"
    "r \<in> rids s \<Longrightarrow> \<not> wholds s t r \<Longrightarrow> tuples s' r = tuples s r"
    "r \<in> rids s \<Longrightarrow> \<not> wholds s t r \<Longrightarrow> node_rid (slots s i) = as_u32 r \<Longrightarrow>
       node_rid (slots s' i) = as_u32 r \<and> node_val (slots s' i) = node_val (slots s i)"
  using assms by (auto simp: frame_def)

lemma frame_refl: "frame t s s"
  by (simp add: frame_def)

lemma frame_goto [intro]: "frame t s s' \<Longrightarrow> frame t s (goto t p s')"
  by (simp add: frame_def)

lemma frame_set_held [intro]: "frame t s s' \<Longrightarrow> frame t s (set_held t r x s')"
  by (simp add: frame_def)

lemma wholds_excl:
  assumes "conc_inv S n tsz csz T s" "wholds s t r" "r \<in> rids s" "u \<noteq> t"
  shows "\<not> guarded s u r"
proof -
  have "writing (locks s r) = {t}" "reading (locks s r) = {}"
    using inv_writer [OF conc_invD(1) [OF assms(1,3)]] assms(2) by (simp_all add: wholds_def)
  then have "u \<notin> writing (locks s r)" "u \<notin> reading (locks s r)"
    using assms(4) by simp_all
  then show ?thesis by (simp add: guarded_def)
qed

lemma frame_keeps:
  assumes inv: "conc_inv S n tsz csz T s" and fr: "frame t s s'" and u: "u \<noteq> t" "guarded s u r"
  shows "ref s' r = ref s r" "tuples s' r = tuples s r"
    "node_rid (slots s i) = as_u32 r \<Longrightarrow> node_rid (slots s' i) = as_u32 r"
    "node_rid (slots s i) = as_u32 r \<Longrightarrow> node_val (slots s' i) = node_val (slots s i)"
proof -
  have r: "r \<in> rids s" "\<not> wholds s t r"
    using u wholds_excl [OF inv, of t r u] by (auto simp: guarded_def)
  show "ref s' r = ref s r" "tuples s' r = tuples s r"
    using frameD(6,7) [OF fr r] by simp_all
  show "node_rid (slots s i) = as_u32 r \<Longrightarrow> node_rid (slots s' i) = as_u32 r"
    "node_rid (slots s i) = as_u32 r \<Longrightarrow> node_val (slots s' i) = node_val (slots s i)"
    using frameD(8) [OF fr r] by blast+
qed

lemma frame_set_lock:
  assumes "few T" "conc_inv S n tsz csz T s" "c \<in> rids s" "lock_step {t} (locks s c) l"
  shows "frame t s (set_lock c l s)"
proof -
  have "oid_ref_of (cell l) = ref s c" if "\<not> wholds s t c"
  proof -
    have "stored_ref (pcs (locks s c) t) x = x" for x
      using that by (cases "pcs (locks s c) t") (simp_all add: wholds_def)
    then show ?thesis
      using lock_one_ref [OF assms(1) conc_invD(1) [OF assms(2,3)] assms(4)] by (simp add: ref_def)
  qed
  then show ?thesis
    using lock_one_others [OF assms(4)] by (auto simp: frame_def)
qed

lemma frame_set_slot:
  assumes "\<And>r. r \<in> rids s \<Longrightarrow> node_rid (slots s i) = as_u32 r \<Longrightarrow>
      wholds s t r \<or> node_rid e = node_rid (slots s i) \<and> node_val e = node_val (slots s i)"
  shows "frame t s (set_slot i e s)"
  using assms by (auto simp: frame_def)

lemma frame_set_tuple: "wholds s t r \<Longrightarrow> frame t s (set_tuple r b s)"
  by (auto simp: frame_def)

subsection \<open>Establishing the invariant after a step\<close>

lemma row_slot:
  assumes "conc_inv S n tsz csz T s" "r \<in> rids s" "ref s r = Slot i"
  shows "i < n" "node_rid (slots s i) = as_u32 r" "length (node_val (slots s i)) = csz" "clock_rid (slots s i) = r"
  using conc_invD(3) [OF assms(1,2)] assms(3) by (simp_all add: row_fine_def own_slot_def clock_rid_eq)

lemma row_row: "conc_inv S n tsz csz T s \<Longrightarrow> r \<in> rids s \<Longrightarrow> ref s r = Row r' \<Longrightarrow> r' = r"
  using conc_invD(3) [of S n tsz csz T s r] by (simp add: row_fine_def)

lemma writes_wholds: "writes s t r \<Longrightarrow> wholds s t r" "writes s t r \<Longrightarrow> r \<in> rids s" "writes s t r \<Longrightarrow> guarded s t r"
  by (simp_all add: writes_def wholds_def guarded_def)

lemma frame_writes: "frame t s s' \<Longrightarrow> u \<noteq> t \<Longrightarrow> writes s u r \<Longrightarrow> writes s' u r"
  by (auto simp: writes_def frameD)

lemma frame_job_data:
  assumes "conc_inv S n tsz csz T s" "frame t s s'" "u \<noteq> t" "guarded s u (j_row j)" "job_data S tsz csz s j"
  shows "job_data S tsz csz s' j"
proof -
  have "node_val (slots s' i) = j_item j" if "ref s (j_row j) = Slot i" for i
    using row_slot(2) [OF assms(1) _ that] frame_keeps(4) [OF assms(1-4), of i] assms(4,5) that
    by (simp add: guarded_def job_data_def)
  then show ?thesis
    using assms(5) frame_keeps(1,2) [OF assms(1-4)] by (simp add: job_data_def)
qed

lemma frame_searching:
  assumes "conc_inv S n tsz csz T s" "frame t s s'" "u \<noteq> t" "searching S tsz csz s u j"
  shows "searching S tsz csz s' u j"
  using assms frame_writes [OF assms(2,3)] frame_job_data [OF assms(1-3)] frame_keeps(1) [OF assms(1-3)]
  by (simp add: searching_def writes_wholds)

lemma frame_own_slot:
  "conc_inv S n tsz csz T s \<Longrightarrow> frame t s s' \<Longrightarrow> u \<noteq> t \<Longrightarrow> guarded s u r \<Longrightarrow> own_slot n s i r \<Longrightarrow> own_slot n s' i r"
  by (simp add: own_slot_def frame_keeps(3))

lemma frame_evicted:
  "conc_inv S n tsz csz T s \<Longrightarrow> frame t s s' \<Longrightarrow> u \<noteq> t \<Longrightarrow> evicted_ok csz s u j ev \<Longrightarrow> evicted_ok csz s' u j ev"
  using frame_keeps(1) [of S n tsz csz T s t s' u] frame_writes [of t s s' u] by (auto simp: evicted_ok_def writes_wholds)

lemma searching_guarded: "searching S tsz csz s u j \<Longrightarrow> guarded s u (j_row j)"
  by (simp add: searching_def writes_wholds)

lemma frame_pc_ok:
  assumes "conc_inv S n tsz csz T s" "frame t s s'" "u \<noteq> t" "pc_ok S n tsz csz s u p"
  shows "pc_ok S n tsz csz s' u p"
proof -
  note fr = frame_searching [OF assms(1-3)] frame_job_data [OF assms(1-3)] frame_own_slot [OF assms(1-3)]
    frame_evicted [OF assms(1-3)] frame_keeps(1) [OF assms(1-3)] frameD(1-4) [OF assms(2)] frame_writes [OF assms(2,3)] writes_wholds searching_guarded
  show ?thesis
  proof (cases p)
    case (Detaching j i c)
    then have "guarded s u c"
      using assms(4) by (auto simp: guarded_def)
    then show ?thesis
      using assms(3,4) Detaching by (auto simp: fr)
  next
    case (Linking j i ev)
    then have "guarded s u (j_row j)"
      using assms(4) by (auto simp: guarded_def)
    moreover from this have "node_val (slots s' i) = j_item j"
      using assms(4) Linking frame_keeps(4) [OF assms(1-3), of "j_row j" i] by (simp add: own_slot_def)
    ultimately show ?thesis
      using assms(3,4) Linking by (auto simp: fr)
  next
    case (Swap j i c)
    then have "node_val (slots s' i) = node_val (slots s i)"
      using assms(4) frame_keeps(4) [OF assms(1-3), of c i] by (simp add: own_slot_def writes_wholds)
    then show ?thesis
      using assms(3,4) Swap by (auto simp: fr)
  next
    case (Filled j i ev)
    then have "node_val (slots s' i) = node_val (slots s i)"
      using assms(4) frame_keeps(4) [OF assms(1-3), of "j_row j" i] searching_guarded [of S tsz csz s u j]
      by (simp add: own_slot_def)
    then show ?thesis
      using assms(3,4) Filled by (auto simp: fr)
  qed (use assms(3,4) in \<open>auto simp: fr\<close>)
qed

lemma frame_slot_fine:
  assumes "frame t s s'" "slot_fine s i" "node_rid (slots s' i) = node_rid (slots s i)"
    and "\<And>r. ref s r = Slot i \<Longrightarrow> r \<in> rids s \<Longrightarrow> clock_rid (slots s i) = r \<Longrightarrow>
      ref s' r = Slot i \<or> wholds s' t r \<and> transit (cpcs s' t) i r"
    and "\<And>r. wholds s t r \<Longrightarrow> r \<in> rids s \<Longrightarrow> transit (cpcs s t) i r \<Longrightarrow>
      ref s' r = Slot i \<or> wholds s' t r \<and> transit (cpcs s' t) i r"
  shows "slot_fine s' i"
proof -
  let ?r = "clock_rid (slots s i)"
  have r': "clock_rid (slots s' i) = ?r"
    using assms(3) by (simp add: clock_rid_def)
  have "ref s' ?r = Slot i \<or> (\<exists>u. wholds s' u ?r \<and> transit (cpcs s' u) i ?r)"
    if "?r \<in> rids s" "wholds s u ?r" "transit (cpcs s u) i ?r" for u
  proof (cases "u = t")
    case False
    then have "wholds s' u ?r" "cpcs s' u = cpcs s u"
      using that frameD(2,4) [OF assms(1) False] by (simp_all add: wholds_def)
    then show ?thesis using that(3) by auto
  qed (use assms(5) that in auto)
  then show ?thesis
    using assms(2-4) frameD(1) [OF assms(1), of ?r] unfolding slot_fine_def r' by (metis (no_types))
qed

lemma frame_inv:
  assumes inv: "conc_inv S n tsz csz T s" and fr: "frame t s s'"
    and "\<And>r. r \<in> rids s' \<Longrightarrow> lock_inv T (locks s' r) \<and> as_u32 r \<noteq> U32_MAX \<and> row_fine n csz s' r"
    and "\<And>r. length (tuples s' r) = tsz" "\<And>i. i < n \<Longrightarrow> slot_fine s' i"
    and "pc_ok S n tsz csz s' t (cpcs s' t)" "held_fine S s' t" "stores_fine s' t"
  shows "conc_inv S n tsz csz T s'"
proof -
  have "pc_ok S n tsz csz s' u (cpcs s' u)" for u
    using frame_pc_ok [OF inv fr] conc_invD(6) [OF inv, of u] frameD(2) [OF fr, of u] assms(6) by (cases "u = t") auto
  moreover have "held_fine S s' u" for u
  proof (cases "u = t")
    case False
    have "r \<in> rids s' \<and> pcs (locks s' r) u \<in> {Reading, Writing} \<and> q = the_value S query (ref s' r) r"
      if "held s' u r = Some (query, q)" for r query q
    proof -
      have h: "r \<in> rids s" "pcs (locks s r) u \<in> {Reading, Writing}" "q = the_value S query (ref s r) r"
        using conc_invD(7) [OF inv, of u] that frameD(3) [OF fr False] by (simp_all add: held_fine_def)
      then have "guarded s u r"
        by (auto simp: guarded_def)
      then show ?thesis
        using h frameD(1,4) [OF fr] frame_keeps(1) [OF inv fr] False by simp
    qed
    then show ?thesis by (simp add: held_fine_def)
  qed (use assms(7) in simp)
  moreover have "stores_fine s' u" for u
  proof (cases "u = t")
    case False
    then show ?thesis
      using conc_invD(8) [OF inv, of u] frameD(2,4,5) [OF fr False] unfolding stores_fine_def
      by (metis pending_store.simps(3))
  qed (use assms(8) in simp)
  ultimately show ?thesis
    using assms(3-5) by (simp add: conc_inv_def)
qed


subsection \<open>The kinds of steps\<close>

text \<open>A step that only moves the thread on.\<close>

lemma inv_goto:
  assumes inv: "conc_inv S n tsz csz T s" and "pc_ok S n tsz csz s t p"
    and "\<And>i r. transit (cpcs s t) i r \<Longrightarrow> transit p i r" "\<And>r. stores (cpcs s t) r \<Longrightarrow> stores p r"
  shows "conc_inv S n tsz csz T (goto t p s)"
proof (rule frame_inv [OF inv, of t])
  show fr: "frame t s (goto t p s)"
    by (simp add: frame_goto frame_refl)
  show "slot_fine (goto t p s) i" if "i < n" for i
    by (rule frame_slot_fine [OF fr conc_invD(5) [OF inv that]]) (use assms(3) in \<open>simp_all add: wholds_def\<close>)
  show "stores_fine (goto t p s) t"
    using conc_invD(8) [OF inv, of t] assms(4) by (simp add: stores_fine_def)
qed (use assms(2) conc_invD [OF inv] in \<open>simp_all add: row_fine_def own_slot_def held_fine_def\<close>)

lemma rest_no_store:
  assumes "conc_inv S n tsz csz T s" "cpcs s t = Rest"
  shows "r \<in> rids s \<Longrightarrow> pending_store (pcs (locks s r) t) = None"
  using conc_invD(8) [OF assms(1), of t] assms(2) by (auto simp: stores_fine_def)

text \<open>The thread returns what it has borrowed, or borrows.\<close>

lemma inv_set_held:
  assumes inv: "conc_inv S n tsz csz T s" and "cpcs s t = Rest"
    and "\<And>query q. x = Some (query, q) \<Longrightarrow> r \<in> rids s \<and> pcs (locks s r) t \<in> {Reading, Writing} \<and> q = the_value S query (ref s r) r"
  shows "conc_inv S n tsz csz T (set_held t r x s)"
proof (rule frame_inv [OF inv, of t])
  show fr: "frame t s (set_held t r x s)"
    by (simp add: frame_set_held frame_refl)
  show "slot_fine (set_held t r x s) i" if "i < n" for i
    by (rule frame_slot_fine [OF fr conc_invD(5) [OF inv that]]) (simp_all add: wholds_def)
  show "stores_fine (set_held t r x s) t"
    using rest_no_store [OF inv assms(2)] by (simp add: stores_fine_def)
qed (use assms(2,3) conc_invD [OF inv] in \<open>auto simp: row_fine_def own_slot_def held_fine_def\<close>)

text \<open>A step on the lock of a row from which nothing is borrowed.\<close>

lemma inv_lock:
  assumes few: "few T" and inv: "conc_inv S n tsz csz T s" and t: "t \<in> T" and c: "c \<in> rids s" "held s t c = None"
    and step: "lock_step {t} (locks s c) l"
    and "pc_ok S n tsz csz (set_lock c l s) t p" "row_fine n csz (set_lock c l s) c"
    and "\<And>r. stores (cpcs s t) r \<Longrightarrow> r \<noteq> c \<Longrightarrow> stores p r" "pending_store (pcs l t) \<noteq> None \<Longrightarrow> stores p c"
    and "\<And>i. ref s c = Slot i \<Longrightarrow> oid_ref_of (cell l) = Slot i \<or> holds_write (pcs l t) \<and> transit p i c"
    and "\<And>i r. transit (cpcs s t) i r \<Longrightarrow> r \<noteq> c \<Longrightarrow> transit p i r"
    and "\<And>i. transit (cpcs s t) i c \<Longrightarrow> oid_ref_of (cell l) = Slot i \<or> holds_write (pcs l t) \<and> transit p i c"
  shows "conc_inv S n tsz csz T (goto t p (set_lock c l s))"
proof (rule frame_inv [OF inv, of t])
  let ?s = "goto t p (set_lock c l s)"
  show fr: "frame t s ?s"
    using frame_set_lock [OF few inv c(1) step] by blast
  show "slot_fine ?s i" if "i < n" for i
    by (rule frame_slot_fine [OF fr conc_invD(5) [OF inv that]])
      (use assms(11-13) in \<open>auto simp: wholds_def\<close>)
  show "lock_inv T (locks ?s r) \<and> as_u32 r \<noteq> U32_MAX \<and> row_fine n csz ?s r" if "r \<in> rids ?s" for r
    using that conc_invD(1-3) [OF inv, of r] lock_one_inv [OF few conc_invD(1) [OF inv c(1)] step t] assms(8)
    by (cases "r = c") (simp_all add: row_fine_def own_slot_def)
  show "held_fine S ?s t"
    using conc_invD(7) [OF inv, of t] c(2) by (auto simp: held_fine_def)
  show "stores_fine ?s t"
    using conc_invD(8) [OF inv, of t] assms(9,10) by (auto simp: stores_fine_def)
qed (use assms(7) conc_invD [OF inv] in simp_all)

text \<open>A change of the reference bit.\<close>

lemma inv_meta:
  assumes inv: "conc_inv S n tsz csz T s" and "e = (slots s i)\<lparr> node_meta := m \<rparr>"
  shows "conc_inv S n tsz csz T (set_slot i e s)"
proof (rule frame_inv [OF inv, of t])
  let ?s = "set_slot i e s"
  show fr: "frame t s ?s"
    using assms(2) by (intro frame_set_slot) simp
  show "slot_fine ?s k" if "k < n" for k
    by (rule frame_slot_fine [OF fr conc_invD(5) [OF inv that]]) (use assms(2) in \<open>simp_all add: wholds_def\<close>)
  have eq: "node_val (slots ?s k) = node_val (slots s k)" "node_rid (slots ?s k) = node_rid (slots s k)" for k
    using assms(2) by simp_all
  show "lock_inv T (locks ?s r) \<and> as_u32 r \<noteq> U32_MAX \<and> row_fine n csz ?s r" if "r \<in> rids ?s" for r
    using that conc_invD(1-3) [OF inv, of r] eq
    by (simp add: row_fine_def own_slot_def del: set_slot_simps(3))
  have "pc_ok S n tsz csz ?s t p = pc_ok S n tsz csz s t p" for p
    using eq by (cases p) (simp_all add: searching_def job_data_def writes_def own_slot_def evicted_ok_def
        del: set_slot_simps(3))
  then show "pc_ok S n tsz csz ?s t (cpcs ?s t)"
    using conc_invD(6) [OF inv, of t] by simp
qed (use conc_invD [OF inv] in \<open>simp_all add: held_fine_def stores_fine_def\<close>)

text \<open>The thread writes a node for the row of its job into a slot that it controls.\<close>

lemma inv_claim:
  assumes inv: "conc_inv S n tsz csz T s"
    and "\<And>r. r \<in> rids s \<Longrightarrow> node_rid (slots s i) = as_u32 r \<Longrightarrow> wholds s t r \<and> ref s r \<noteq> Slot i"
    and "writes s t x" "node_rid e = as_u32 x" "transit p i x"
    and "pc_ok S n tsz csz (set_slot i e s) t p"
    and "\<And>k r. transit (cpcs s t) k r \<Longrightarrow> k = i" "\<And>r. \<not> stores (cpcs s t) r"
  shows "conc_inv S n tsz csz T (goto t p (set_slot i e s))"
proof (rule frame_inv [OF inv, of t])
  let ?s = "goto t p (set_slot i e s)"
  show fr: "frame t s ?s"
    using assms(2) by (intro frame_goto frame_set_slot) simp
  show "slot_fine ?s k" if "k < n" for k
  proof (cases "k = i")
    case True
    then have "clock_rid (slots ?s k) = x"
      using assms(4) by (simp add: clock_rid_eq)
    then show ?thesis
      unfolding slot_fine_def using assms(5) writes_wholds(1,2) [OF assms(3)] True
      by (auto simp: wholds_def intro!: exI [of _ t])
  next
    case False
    show ?thesis
      by (rule frame_slot_fine [OF fr conc_invD(5) [OF inv that]]) (use False assms(7) in \<open>auto simp: wholds_def\<close>)
  qed
  show "lock_inv T (locks ?s r) \<and> as_u32 r \<noteq> U32_MAX \<and> row_fine n csz ?s r" if "r \<in> rids ?s" for r
  proof -
    have "ref s r \<noteq> Slot i"
      using assms(2) [of r] row_slot(2) [OF inv, of r i] that by auto
    then show ?thesis
      using that conc_invD(1-3) [OF inv, of r] by (auto simp: row_fine_def own_slot_def)
  qed
  show "stores_fine ?s t"
    using conc_invD(8) [OF inv, of t] assms(8) by (simp add: stores_fine_def)
qed (use assms(6) conc_invD [OF inv] in \<open>simp_all add: held_fine_def\<close>)

text \<open>The thread writes the tuple of a row that it has for itself, or the item in its slot.\<close>

lemma inv_tuple:
  assumes inv: "conc_inv S n tsz csz T s" and "wholds s t r" "r \<in> rids s" "length b = tsz"
    and "pc_ok S n tsz csz (set_tuple r b s) t p"
    and "\<And>i x. \<not> transit (cpcs s t) i x" "\<And>x. \<not> stores (cpcs s t) x"
  shows "conc_inv S n tsz csz T (goto t p (set_tuple r b s))"
proof (rule frame_inv [OF inv, of t])
  let ?s = "goto t p (set_tuple r b s)"
  show fr: "frame t s ?s"
    using frame_set_tuple [OF assms(2)] by blast
  show "slot_fine ?s i" if "i < n" for i
    by (rule frame_slot_fine [OF fr conc_invD(5) [OF inv that]]) (use assms(6) in \<open>simp_all add: wholds_def\<close>)
  show "stores_fine ?s t"
    using conc_invD(8) [OF inv, of t] assms(7) by (simp add: stores_fine_def)
qed (use assms(4,5) conc_invD [OF inv] in \<open>simp_all add: row_fine_def own_slot_def held_fine_def\<close>)

lemma inv_item:
  assumes inv: "conc_inv S n tsz csz T s" and "wholds s t r" "r \<in> rids s" "ref s r = Slot i" "length b = csz"
    and "cpcs s t = Rest"
  shows "conc_inv S n tsz csz T (set_slot i ((slots s i)\<lparr> node_val := b \<rparr>) s)"
proof (rule frame_inv [OF inv, of t])
  let ?s = "set_slot i ((slots s i)\<lparr> node_val := b \<rparr>) s"
  have only: "x = r" if "node_rid (slots s i) = as_u32 x" for x
    using that row_slot(2) [OF inv assms(3,4)] by (simp add: Rid_eq_iff)
  show fr: "frame t s ?s"
    using assms(2) only by (intro frame_set_slot) blast
  show "slot_fine ?s k" if "k < n" for k
    by (rule frame_slot_fine [OF fr conc_invD(5) [OF inv that]]) (simp_all add: wholds_def)
  show "lock_inv T (locks ?s x) \<and> as_u32 x \<noteq> U32_MAX \<and> row_fine n csz ?s x" if "x \<in> rids ?s" for x
    using that conc_invD(1-3) [OF inv, of x] assms(5)
    by (auto simp: row_fine_def own_slot_def)
  show "stores_fine ?s t"
    using rest_no_store [OF inv assms(6)] by (simp add: stores_fine_def)
qed (use assms(6) conc_invD [OF inv] in \<open>simp_all add: held_fine_def\<close>)

subsection \<open>The steps that matter\<close>

text \<open>Whoever has the write guard of the row in a slot and is not moving the slot is linked to it.\<close>

lemma slot_linked:
  assumes inv: "conc_inv S n tsz csz T s" and "i < n" "node_rid (slots s i) = as_u32 c" "c \<in> rids s"
    and "wholds s t c" "\<not> transit (cpcs s t) i c"
  shows "ref s c = Slot i"
proof -
  have c: "clock_rid (slots s i) = c"
    using assms(3) by (simp add: clock_rid_eq)
  have "u = t" if "wholds s u c" for u
    using wholds_excl [OF inv assms(5,4), of u] that assms(4) by (auto simp: wholds_def guarded_def)
  then show ?thesis
    using conc_invD(5) [OF inv assms(2)] assms(3,6) conc_invD(2) [OF inv assms(4)] unfolding slot_fine_def c by auto
qed

lemma inv_next_slot:
  assumes inv: "conc_inv S n tsz csz T s" and "cpcs s t = Probing j k'" "i < n"
  shows "conc_inv S n tsz csz T (goto t (Seen j k i (node_rid (slots s i))) s)"
proof (rule inv_goto [OF inv])
  have se: "searching S tsz csz s t j"
    using conc_invD(6) [OF inv, of t] assms(2) by simp
  have "clock_rid (slots s i) \<in> rids s \<and> clock_rid (slots s i) \<noteq> j_row j" if "node_rid (slots s i) \<noteq> U32_MAX"
    using conc_invD(5) [OF inv assms(3)] that slot_linked [OF inv assms(3), of "j_row j" t] se assms(2)
    by (auto simp: slot_fine_def searching_def writes_wholds clock_rid_eq)
  then show "pc_ok S n tsz csz s t (Seen j k i (node_rid (slots s i)))"
    using se assms(3) by (simp add: clock_rid_def)
qed (use assms(2) in simp_all)

lemma inv_valid_ok:
  assumes inv: "conc_inv S n tsz csz T s" and "cpcs s t = Validate j k i c"
    and "compare_exchange_weak spur (node_rid (slots s i)) (as_u32 c) (as_u32 c) = (Inr u, c')"
  shows "conc_inv S n tsz csz T (goto t (Detach j i c) s)"
proof (rule inv_goto [OF inv])
  have "node_rid (slots s i) = as_u32 c"
    using assms(3) by (auto simp: atomic_simps split: if_splits)
  then show "pc_ok S n tsz csz s t (Detach j i c)"
    using conc_invD(6) [OF inv, of t] assms(2) slot_linked [OF inv, of i c t] writes_wholds [of s t c]
    by (simp add: own_slot_def)
qed (use assms(2) in simp_all)



lemma lock_other [simp]:
  "c \<noteq> j_row j \<Longrightarrow> searching S tsz csz (set_lock c l s) t j = searching S tsz csz s t j"
  "c \<noteq> j_row j \<Longrightarrow> job_data S tsz csz (set_lock c l s) j = job_data S tsz csz s j"
  "c \<noteq> r \<Longrightarrow> writes (set_lock c l s) t r = writes s t r"
  "own_slot n (set_lock c l s) i r = own_slot n s i r"
  by (auto simp: searching_def job_data_def writes_def own_slot_def)

lemma plain_ref:
  assumes "few T" "conc_inv S n tsz csz T s" "c \<in> rids s" "lock_step {t} (locks s c) l"
    and "pending_store (pcs (locks s c) t) = None"
  shows "oid_ref_of (cell l) = ref s c"
proof -
  have "stored_ref (pcs (locks s c) t) x = x" for x
    using assms(5) by (cases "pcs (locks s c) t") simp_all
  then show ?thesis
    using lock_one_ref [OF assms(1) conc_invD(1) [OF assms(2,3)] assms(4)] by (simp add: ref_def)
qed

text \<open>An access to a lock that leaves the reference as it is.\<close>

lemma inv_plain:
  assumes "few T" "conc_inv S n tsz csz T s" "t \<in> T" "c \<in> rids s" "held s t c = None" "lock_step {t} (locks s c) l"
    and "pending_store (pcs (locks s c) t) = None" "pc_ok S n tsz csz (set_lock c l s) t p"
    and "\<And>r. \<not> stores (cpcs s t) r" "pending_store (pcs l t) \<noteq> None \<Longrightarrow> stores p c"
    and "\<And>i r. transit (cpcs s t) i r \<Longrightarrow> transit p i r \<and> (r = c \<longrightarrow> holds_write (pcs l t))"
  shows "conc_inv S n tsz csz T (goto t p (set_lock c l s))"
proof -
  note ref = plain_ref [OF assms(1,2,4,6,7)]
  have "row_fine n csz (set_lock c l s) c"
    using conc_invD(3) [OF assms(2,4)] ref by (simp add: row_fine_def)
  then show ?thesis
    using assms(7-11) ref by (intro inv_lock [OF assms(1-6)]) auto
qed

lemma inv_client:
  assumes "few T" "conc_inv S n tsz csz T s" "t \<in> T" "cpcs s t = Rest" "r \<in> rids s" "lock_step {t} (locks s r) l"
    "pending_store (pcs l t) = None"
  shows "conc_inv S n tsz csz T (set_lock r l (set_held t r None s))"
proof -
  let ?s = "set_held t r None s"
  have "conc_inv S n tsz csz T ?s"
    using assms(4) by (intro inv_set_held [OF assms(2)]) simp_all
  then have "conc_inv S n tsz csz T (goto t Rest (set_lock r l ?s))"
    using assms(3-7) rest_no_store [OF assms(2,4,5)] by (intro inv_plain [OF assms(1)]) simp_all
  then show ?thesis
    using assms(4) by (simp add: goto_same)
qed

lemma not_held:
  assumes "conc_inv S n tsz csz T s" "pcs (locks s r) t \<notin> {Reading, Writing} \<or> r \<notin> rids s"
  shows "held s t r = None"
proof (rule ccontr)
  assume "held s t r \<noteq> None"
  then obtain x where "held s t r = Some x" by blast
  then show False
    using conc_invD(7) [OF assms(1), of t] assms(2) unfolding held_fine_def by (metis surj_pair)
qed

lemma inv_evict_call:
  assumes "few T" "conc_inv S n tsz csz T s" "t \<in> T" "cpcs s t = Evict j k i c" "pcs (locks s c) t = Idle"
    "lock_step {t} (locks s c) l" "pcs l t = Try_Write v"
  shows "conc_inv S n tsz csz T (goto t (Trying j k i c) (set_lock c l s))"
proof -
  have ok: "searching S tsz csz s t j" "i < n" "c \<in> rids s" "c \<noteq> j_row j"
    using conc_invD(6) [OF assms(2), of t] assms(4) by simp_all
  moreover have "held s t c = None"
    using assms(5) by (intro not_held [OF assms(2)]) simp
  ultimately show ?thesis
    using assms(4-7) by (intro inv_plain [OF assms(1-3)]) simp_all
qed

lemma inv_try:
  assumes "few T" "conc_inv S n tsz csz T s" "t \<in> T" "cpcs s t = Trying j k i c"
    "lock_step {t} (locks s c) l" "p = Validate j k i c \<and> pcs l t = Writing \<or> p = Probing j k \<and> pcs l t = Idle"
  shows "conc_inv S n tsz csz T (goto t p (set_lock c l s))"
proof -
  obtain v where ok: "searching S tsz csz s t j" "i < n" "c \<in> rids s" "c \<noteq> j_row j" "pcs (locks s c) t = Try_Write v"
    using conc_invD(6) [OF assms(2), of t] assms(4) by auto
  moreover have "held s t c = None"
    using ok(5) by (intro not_held [OF assms(2)]) simp
  ultimately show ?thesis
    using assms(4-6) by (intro inv_plain [OF assms(1-3)]) (auto simp: writes_def)
qed

lemma inv_unlock:
  assumes "few T" "conc_inv S n tsz csz T s" "t \<in> T" "cpcs s t = Unlock j k c"
    "lock_step {t} (locks s c) l" "pcs l t = Idle"
  shows "conc_inv S n tsz csz T (goto t (Probing j k) (set_lock c l s))"
proof -
  have "searching S tsz csz s t j" "c \<noteq> j_row j" "writes s t c"
    using conc_invD(6) [OF assms(2), of t] assms(4) by simp_all
  then show ?thesis
    using assms(4-6) by (intro inv_plain [OF assms(1-3)]) (simp_all add: writes_def)
qed

lemma inv_release:
  assumes "few T" "conc_inv S n tsz csz T s" "t \<in> T" "cpcs s t = Release j i c"
    "lock_step {t} (locks s c) l" "pcs l t = Idle"
  shows "conc_inv S n tsz csz T (goto t (Finish j (Slot i)) (set_lock c l s))"
proof -
  have "writes s t (j_row j)" "job_data S tsz csz s j" "ref s (j_row j) = Slot i" "c \<noteq> j_row j" "writes s t c"
    using conc_invD(6) [OF assms(2), of t] assms(4) by simp_all
  then show ?thesis
    using assms(4-6) by (intro inv_plain [OF assms(1-3)]) (auto simp: writes_def)
qed

lemma inv_detach_call:
  assumes "few T" "conc_inv S n tsz csz T s" "t \<in> T" "cpcs s t = Detach j i c"
    "lock_step {t} (locks s c) l" "pcs l t = Storing_Rid (clock_rid (slots s i)) v"
  shows "conc_inv S n tsz csz T (goto t (Detaching j i c) (set_lock c l s))"
proof -
  have ok: "searching S tsz csz s t j" "c \<noteq> j_row j" "writes s t c" "own_slot n s i c" "ref s c = Slot i"
    using conc_invD(6) [OF assms(2), of t] assms(4) by simp_all
  then have "clock_rid (slots s i) = c" "pending_store (pcs (locks s c) t) = None" "c \<in> rids s" "held s t c = None"
    by (simp_all add: own_slot_def clock_rid_eq writes_def)
  then show ?thesis
    using ok assms(4-6) plain_ref [OF assms(1,2) _ assms(5)] by (intro inv_plain [OF assms(1-3)]) simp_all
qed

lemma inv_detach_end:
  assumes "few T" "conc_inv S n tsz csz T s" "t \<in> T" "cpcs s t = Detaching j i c" "lock_step {t} (locks s c) l"
  shows "conc_inv S n tsz csz T (goto t (Swap j i c) (set_lock c l s))"
proof -
  obtain v where ok: "searching S tsz csz s t j" "c \<noteq> j_row j" "c \<in> rids s" "held s t c = None"
      "pcs (locks s c) t = Storing_Rid c v" "own_slot n s i c" "ref s c = Slot i"
    using conc_invD(6) [OF assms(2), of t] assms(4) by auto
  moreover have "pcs l t = Writing" "oid_ref_of (cell l) = Row c"
    using lock_one_storing [OF assms(5)] lock_one_ref [OF assms(1) conc_invD(1) [OF assms(2) ok(3)] assms(5)] ok(5)
    by simp_all
  ultimately show ?thesis
    using assms(4,5) row_slot(3) [OF assms(2) ok(3,7)]
    by (intro inv_lock [OF assms(1-3)]) (simp_all add: writes_def row_fine_def)
qed

lemma evicted_lock:
  "evicted_ok csz s t j ev \<Longrightarrow> evicted_ok csz (set_lock (j_row j) l s) t j ev"
  by (auto simp: evicted_ok_def writes_def)

lemma inv_link_call:
  assumes "few T" "conc_inv S n tsz csz T s" "t \<in> T" "cpcs s t = Filled j i ev"
    "lock_step {t} (locks s (j_row j)) l" "pcs l t = Storing_Index (of_nat i) v"
  shows "conc_inv S n tsz csz T (goto t (Linking j i ev) (set_lock (j_row j) l s))"
proof -
  have ok: "searching S tsz csz s t j" "own_slot n s i (j_row j)" "node_val (slots s i) = j_item j"
      "evicted_ok csz s t j ev"
    using conc_invD(6) [OF assms(2), of t] assms(4) by simp_all
  then have w: "pcs (locks s (j_row j)) t = Writing" "j_row j \<in> rids s" "held s t (j_row j) = None"
      "job_data S tsz csz s j" "ref s (j_row j) = Row (j_row j)"
    by (simp_all add: searching_def writes_def)
  then have "oid_ref_of (cell l) = Row (j_row j)"
    using plain_ref [OF assms(1,2) w(2) assms(5)] by simp
  then show ?thesis
    using ok w assms(4-6) by (intro inv_plain [OF assms(1-3)]) (auto simp: evicted_lock job_data_def)
qed

lemma inv_link_end:
  assumes "few T" "conc_inv S n tsz csz T s" "t \<in> T" "n \<le> 4294967296" "cpcs s t = Linking j i ev"
    "lock_step {t} (locks s (j_row j)) l"
  shows "conc_inv S n tsz csz T (goto t (Linked j i ev) (set_lock (j_row j) l s))"
proof -
  obtain v where ok: "j_row j \<in> rids s" "held s t (j_row j) = None"
      "pcs (locks s (j_row j)) t = Storing_Index (of_nat i) v" "job_data S tsz csz s j"
      "ref s (j_row j) = Row (j_row j)" "own_slot n s i (j_row j)" "node_val (slots s i) = j_item j"
      "evicted_ok csz s t j ev"
    using conc_invD(6) [OF assms(2), of t] assms(5) by auto
  have "unat (of_nat i :: usize) = i"
    using ok(6) assms(4) by (simp add: own_slot_def unat_of_nat take_bit_nat_eq_self_iff)
  then have "pcs l t = Writing" "oid_ref_of (cell l) = Slot i"
    using lock_one_storing [OF assms(6)] lock_one_ref [OF assms(1) conc_invD(1) [OF assms(2) ok(1)] assms(6)] ok(3)
    by simp_all
  then show ?thesis
    using ok assms(5,6)
    by (intro inv_lock [OF assms(1-3)]) (auto simp: writes_def row_fine_def job_data_def evicted_lock)
qed

lemma inv_claim_ok:
  assumes "conc_inv S n tsz csz T s" "cpcs s t = Seen j k i U32_MAX"
    "compare_exchange_weak spur (node_rid (slots s i)) U32_MAX (as_u32 (j_row j)) = (Inr u, c')"
  shows "conc_inv S n tsz csz T (goto t (Claimed j i) (set_slot i ((slots s i)\<lparr> node_rid := c' \<rparr>) s))"
proof -
  have c: "node_rid (slots s i) = U32_MAX" "c' = as_u32 (j_row j)"
    using assms(3) by (auto simp: atomic_simps split: if_splits)
  have ok: "searching S tsz csz s t j" "i < n"
    using conc_invD(6) [OF assms(1), of t] assms(2) by simp_all
  show ?thesis
    using ok c assms(2) conc_invD(2) [OF assms(1)]
    by (intro inv_claim [OF assms(1), where x = "j_row j"])
      (auto simp: searching_def job_data_def own_slot_def writes_def)
qed

lemma inv_fill:
  assumes "conc_inv S n tsz csz T s"
    and "cpcs s t = Claimed j i \<and> ev = None \<or> (\<exists>c. cpcs s t = Swap j i c \<and> ev = Some (slots s i))"
  shows "conc_inv S n tsz csz T (goto t (Filled j i ev) (set_slot i (node_new (j_item j) (j_row j)) s))"
proof -
  have ok: "searching S tsz csz s t j" "i < n"
    using conc_invD(6) [OF assms(1), of t] assms(2) by (auto simp: own_slot_def)
  have c: "\<exists>c. writes s t c \<and> node_rid (slots s i) = as_u32 c \<and> ref s c = Row c"
    using conc_invD(6) [OF assms(1), of t] assms(2) by (auto simp: own_slot_def searching_def)
  then have "wholds s t r \<and> ref s r \<noteq> Slot i" if "node_rid (slots s i) = as_u32 r" for r
    using that writes_wholds(1) by (metis Rid_eq_iff oid_ref.distinct(1))
  moreover have "evicted_ok csz (set_slot i (node_new (j_item j) (j_row j)) s) t j ev"
    using conc_invD(6) [OF assms(1), of t] assms(2)
    by (auto simp: evicted_ok_def own_slot_def clock_rid_def from_u32_def writes_def)
  ultimately show ?thesis
    using ok assms(2)
    by (intro inv_claim [OF assms(1), where x = "j_row j"])
      (auto simp: searching_def job_data_def own_slot_def writes_def node_new_def)
qed


lemma inv_promote:
  assumes "conc_inv S n tsz csz T s" "cpcs s t = Rest" "r \<in> rids s" "pcs (locks s r) t = Writing" "ref s r = Row r"
    "\<And>x. length x = tsz \<Longrightarrow> length (to_cached S x) = csz"
  shows "conc_inv S n tsz csz T (goto t (Probing (Job r (to_cached S (tuples s r)) None) pl) (set_held t r None s))"
proof -
  have inv: "conc_inv S n tsz csz T (set_held t r None s)"
    using assms(2) by (intro inv_set_held [OF assms(1)]) simp_all
  show ?thesis
    using assms(2-6) conc_invD(4) [OF assms(1)]
    by (intro inv_goto [OF inv]) (simp_all add: searching_def job_data_def writes_def)
qed

lemma inv_back:
  assumes "conc_inv S n tsz csz T s" "cpcs s t = Back j i (Some old)" "c = clock_rid old"
    "\<And>x b. length x = tsz \<Longrightarrow> length b = csz \<Longrightarrow> length (write_back S b x) = tsz"
  shows "conc_inv S n tsz csz T (goto t (Release j i c) (set_tuple c (write_back S (node_val old) (tuples s c)) s))"
proof -
  have ok: "writes s t (j_row j)" "job_data S tsz csz s j" "ref s (j_row j) = Slot i" "c \<noteq> j_row j"
      "writes s t c" "ref s c = Row c" "length (node_val old) = csz"
    using conc_invD(6) [OF assms(1), of t] assms(2,3) by (simp_all add: evicted_ok_def)
  then show ?thesis
    using assms(2,4) conc_invD(4) [OF assms(1)]
    by (intro inv_tuple [OF assms(1)]) (auto simp: writes_wholds writes_def job_data_def)
qed

lemma inv_finish_insert:
  assumes "conc_inv S n tsz csz T s" "cpcs s t = Finish j y" "j_tuple j = Some x"
  shows "conc_inv S n tsz csz T (goto t Rest (set_tuple (j_row j) x s))"
proof -
  have "writes s t (j_row j)" "length x = tsz"
    using conc_invD(6) [OF assms(1), of t] assms(2,3) by (simp_all add: job_data_def)
  then show ?thesis
    using assms(2) by (intro inv_tuple [OF assms(1)]) (auto simp: writes_wholds)
qed

lemma value_at_eq:
  assumes "conc_inv S n tsz csz T s" "r \<in> rids s" "ref s r = x"
  shows "value_at S query s x = the_value S query x r"
  using row_slot(4) [OF assms(1,2)] assms(3) by (cases x) (auto simp: value_at_def the_value_def)

lemma inv_finish_promote:
  assumes "conc_inv S n tsz csz T s" "cpcs s t = Finish j x"
  shows "conc_inv S n tsz csz T (goto t Rest (set_held t (j_row j) (Some (query, value_at S query s x)) s))"
proof -
  have ok: "writes s t (j_row j)" "ref s (j_row j) = x"
    using conc_invD(6) [OF assms(1), of t] assms(2) by simp_all
  have inv: "conc_inv S n tsz csz T (goto t Rest s)"
    using assms(2) by (intro inv_goto [OF assms(1)]) simp_all
  have "conc_inv S n tsz csz T (set_held t (j_row j) (Some (query, value_at S query s x)) (goto t Rest s))"
    using ok value_at_eq [OF assms(1), of "j_row j" x query]
    by (intro inv_set_held [OF inv]) (simp_all add: writes_def)
  moreover have "set_held t (j_row j) z (goto t Rest s) = goto t Rest (set_held t (j_row j) z s)" for z
    by (simp add: set_held_def goto_def)
  ultimately show ?thesis by simp
qed

lemma inv_touch: "conc_inv S n tsz csz T s \<Longrightarrow> conc_inv S n tsz csz T (touch draw i s)"
  by (simp add: touch_def inv_meta)

lemma touch_parts [simp]:
  "rids (touch b i s) = rids s" "locks (touch b i s) = locks s" "tuples (touch b i s) = tuples s"
  "held (touch b i s) = held s" "cpcs (touch b i s) = cpcs s" "ref (touch b i s) = ref s"
  "node_rid (slots (touch b i s) k) = node_rid (slots s k)" "node_val (slots (touch b i s) k) = node_val (slots s k)"
  by (simp_all add: touch_def)

lemma touch_hit_parts [simp]:
  "rids (touch_hit b x s) = rids s" "locks (touch_hit b x s) = locks s" "tuples (touch_hit b x s) = tuples s"
  "held (touch_hit b x s) = held s" "cpcs (touch_hit b x s) = cpcs s" "ref (touch_hit b x s) = ref s"
  "node_rid (slots (touch_hit b x s) k) = node_rid (slots s k)"
  "node_val (slots (touch_hit b x s) k) = node_val (slots s k)"
  by (cases x; simp add: touch_hit_def)+

lemma inv_look:
  assumes "conc_inv S n tsz csz T s" "cpcs s t = Rest" "r \<in> rids s" "pcs (locks s r) t \<in> {Reading, Writing}"
  shows "conc_inv S n tsz csz T
    (set_held t r (Some (query, value_at S query s (ref s r))) (touch_hit draw (ref s r) s))"
proof -
  have "conc_inv S n tsz csz T (touch_hit draw (ref s r) s)"
    using inv_touch [OF assms(1)] assms(1) by (auto simp: touch_hit_def split: oid_ref.split)
  then show ?thesis
    using assms(2-4) value_at_eq [OF assms(1,3)] by (intro inv_set_held) auto
qed

lemma inv_touch_new:
  assumes "conc_inv S n tsz csz T s" "cpcs s t = Linked j i ev"
  shows "conc_inv S n tsz csz T (goto t (Back j i ev) (touch draw i s))"
  using assms(2) conc_invD(6) [OF inv_touch [OF assms(1)], of draw i t]
  by (intro inv_goto [OF inv_touch [OF assms(1)]]) simp_all

lemma inv_insert_row:
  assumes "conc_inv S n tsz csz T s" "t \<in> T" "cpcs s t = Rest" "r \<notin> rids s" "as_u32 r \<noteq> U32_MAX" "length x = tsz"
    "length (to_cached S x) = csz"
  shows "conc_inv S n tsz csz T (goto t (Probing (Job r (to_cached S x) (Some x)) pl)
    (set_lock r \<lparr> cell = from_rid r OR LOCK_WRITER, pcs = (\<lambda>_. Idle)(t := Writing) \<rparr> (s\<lparr> rids := insert r (rids s) \<rparr>)))"
    (is "conc_inv S n tsz csz T (goto t ?p (set_lock r ?l _))")
proof (rule frame_inv [OF assms(1), of t])
  let ?s = "goto t ?p (set_lock r ?l (s\<lparr> rids := insert r (rids s) \<rparr>))"
  have [simp]: "ref (s\<lparr> rids := z \<rparr>) = ref s" for z
    by (simp add: ref_def fun_eq_iff)
  have ref: "ref ?s r = Row r"
    by (simp add: oid_simps)
  show fr: "frame t s ?s"
    using assms(4) by (auto simp: frame_def guarded_def)
  show "slot_fine ?s i" if "i < n" for i
    by (rule frame_slot_fine [OF fr conc_invD(5) [OF assms(1) that]]) (use assms(3,4) in auto)
  have "lock_inv T ?l"
    using assms(2) by (auto simp: lock_inv_def reading_def writing_def oid_simps)
  then show "lock_inv T (locks ?s y) \<and> as_u32 y \<noteq> U32_MAX \<and> row_fine n csz ?s y" if "y \<in> rids ?s" for y
    using conc_invD(1-3) [OF assms(1), of y] assms(5) that ref by (cases "y = r") (auto simp: row_fine_def own_slot_def)
  show "pc_ok S n tsz csz ?s t (cpcs ?s t)"
    using assms(6,7) ref not_held [OF assms(1)] assms(4) by (simp add: searching_def writes_def job_data_def)
  show "held_fine S ?s t"
    using conc_invD(7) [OF assms(1), of t] not_held [OF assms(1)] assms(4) by (auto simp: held_fine_def)
  show "stores_fine ?s t"
    using rest_no_store [OF assms(1,3)] by (auto simp: stores_fine_def)
qed (use conc_invD(4) [OF assms(1)] in simp)

subsection \<open>Reading and writing fields\<close>

lemma owner_guards:
  assumes "conc_inv S n tsz csz T s" "wholds s t r" "r \<in> rids s"
  shows "guards (locks s r) = ({}, Some t)"
  using inv_writer [OF conc_invD(1) [OF assms(1,3)]] assms(2) by (simp add: guards_def wholds_def)

lemma reader_guards:
  assumes "few T" "conc_inv S n tsz csz T s" "r \<in> rids s" "holds_read (pcs (locks s r) t)"
  shows "snd (guards (locks s r)) = None" "t \<in> fst (guards (locks s r))"
  using inv_reader(1) [OF assms(1) conc_invD(1) [OF assms(2,3)] assms(4)] assms(4) by (simp_all add: guards_def)

lemma resting_row:
  assumes "few T" "conc_inv S n tsz csz T s" "cpcs s t = Rest" "held s t r = Some (query, q)"
  shows "r \<in> rids s" "cached_item s r = (case ref s r of Slot i \<Rightarrow> Some (node_val (slots s i)) | Row _ \<Rightarrow> None)"
    "\<not> inserting s r" "q = the_value S query (ref s r) r" "guarded s t r"
proof -
  show h: "r \<in> rids s" "q = the_value S query (ref s r) r"
    using conc_invD(7) [OF assms(2), of t] assms(4) by (simp_all add: held_fine_def)
  have "pcs (locks s r) t \<in> {Reading, Writing}"
    using conc_invD(7) [OF assms(2), of t] assms(4) by (simp add: held_fine_def)
  then show "guarded s t r"
    using h by (auto simp: guarded_def)
  then have "snd (guards (locks s r)) \<in> {None, Some t}"
    using owner_guards [OF assms(2)] reader_guards(1) [OF assms(1,2) h(1)] h(1)
    by (auto simp: guarded_def wholds_def)
  then show "cached_item s r = (case ref s r of Slot i \<Rightarrow> Some (node_val (slots s i)) | Row _ \<Rightarrow> None)" "\<not> inserting s r"
    using assms(3) by (auto simp: cached_item_def inserting_def split: oid_ref.splits option.splits)
qed


lemma resting_resolves:
  assumes "few T" "conc_inv S n tsz csz T s" "cpcs s t = Rest" "held s t r = Some (query, q)"
  shows "resolves S (\<lambda>i. node_val (slots s i)) (tuples s) q query (cached_item s r) (tuples s r)"
    and "cached_item s r = Some b \<Longrightarrow> length b = csz"
  using resting_row [OF assms] row_slot [OF assms(2)] row_row [OF assms(2) resting_row(1) [OF assms]]
  by (auto simp: resolves_def the_value_def new_value_def split: oid_ref.splits)

lemma conc_get_ok:
  assumes "few T" "conc_inv S n tsz csz T s" "cpcs s t = Rest" "held s t r = Some (query, q)"
    and "schema_laws S tsz csz proper" "f \<in> set query" "proper f"
  shows "\<exists>v. conc_get S q f s = Inr v
    \<and> load_bytes (field_off f) (field_size f) (logical S (cached_item s r) (tuples s r)) = Some v"
  unfolding conc_get_def
  by (rule schema_laws.get_value_logical [OF assms(5) resting_resolves(1) [OF assms(1-4)] assms(6,7) conc_invD(4) [OF assms(2)]
        resting_resolves(2) [OF assms(1-4)]])

lemma conc_put_cases:
  assumes "few T" "conc_inv S n tsz csz T s" "cpcs s t = Rest" "held s t r = Some (query, q)"
    and "schema_laws S tsz csz proper" "f \<in> set query" "proper f" "length v = field_size f"
  obtains (item) i b where "ref s r = Slot i" "conc_put S q f v s = Inr (set_slot i ((slots s i)\<lparr> node_val := b \<rparr>) s)"
      "length b = csz" "store_bytes (field_off f) v (logical S (cached_item s r) (tuples s r))
        = Some (logical S (Some b) (tuples s r))"
  | (row) b where "conc_put S q f v s = Inr (set_tuple r b s)" "length b = tsz"
      "store_bytes (field_off f) v (logical S (cached_item s r) (tuples s r)) = Some (logical S (cached_item s r) b)"
proof -
  note rest = resting_row [OF assms(1-4)]
  have fld: "ref s r = Slot i" if "qv_field q = Some i" for i
    using that rest(4) by (auto simp: the_value_def new_value_def split: oid_ref.splits)
  have tup: "x = r" if "qv_tuple q = Some x" for x
    using that rest(4) row_row [OF assms(2) rest(1)]
    by (auto simp: the_value_def new_value_def split: oid_ref.splits if_splits)
  from schema_laws.get_value_mut_logical [OF assms(5) resting_resolves(1) [OF assms(1-4)] assms(6,7)
      conc_invD(4) [OF assms(2)] resting_resolves(2) [OF assms(1-4)] assms(8)]
  show ?thesis
    using fld tup by (auto simp: conc_put_def intro: item row)
qed

lemma inv_clear:
  assumes "conc_inv S n tsz csz T s" "cpcs s t = Clearing j k i m"
  shows "conc_inv S n tsz csz T (goto t (Probing j k) (set_slot i ((slots s i)\<lparr> node_meta := m \<rparr>) s))"
proof -
  note inv = inv_meta [OF assms(1) refl, of i m]
  show ?thesis
    using conc_invD(6) [OF inv, of t] assms(2) by (intro inv_goto [OF inv]) simp_all
qed

lemma inv_put:
  assumes "few T" "schema_laws S tsz csz proper" "conc_inv S n tsz csz T s" "cpcs s t = Rest"
    and "held s t r = Some (query, q)" "pcs (locks s r) t = Writing" "f \<in> set query" "proper f"
    and "length v = field_size f" "conc_put S q f v s = Inr s'"
  shows "conc_inv S n tsz csz T s'"
proof -
  have r: "wholds s t r" "r \<in> rids s"
    using assms(6) resting_row(1) [OF assms(1,3-5)] by (simp_all add: wholds_def)
  from assms(1,3-5,2,7-9) show ?thesis
  proof (cases rule: conc_put_cases)
    case (item i b)
    then show ?thesis using inv_item [OF assms(3) r item(1,3) assms(4)] assms(10) by simp
  next
    case (row b)
    then have "conc_inv S n tsz csz T (goto t Rest (set_tuple r b s))"
      using assms(4) by (intro inv_tuple [OF assms(3) r]) simp_all
    then show ?thesis using row assms(4,10) by (simp add: goto_same)
  qed
qed

lemma conc_inv_step:
  assumes "few T" "schema_laws S tsz csz proper" "n \<le> 4294967296" "conc_inv S n tsz csz T s" "t \<in> T"
    and "conc_step S n pl tsz proper t s lbl s'"
  shows "conc_inv S n tsz csz T s'"
proof -
  note inv = assms(4) and f = assms(1,4,5)
  note ok = conc_invD(6) [OF inv, of t]
  note len = schema_laws.to_cached_length [OF assms(2)] schema_laws.write_back_length [OF assms(2)]
  from assms(6) show ?thesis
  proof cases
    case client then show ?thesis by (simp add: inv_client [OF f])
  next
    case look then show ?thesis by (simp add: inv_look [OF inv])
  next
    case put_ok then show ?thesis by (intro inv_put [OF assms(1,2) inv])
  next
    case promote then show ?thesis by (simp add: inv_promote [OF inv] len)
  next
    case insert_row then show ?thesis by (simp add: inv_insert_row [OF inv assms(5)] len)
  next
    case next_slot then show ?thesis by (simp add: inv_next_slot [OF inv])
  next
    case claim_ok then show ?thesis by (simp add: inv_claim_ok [OF inv])
  next
    case clear_store then show ?thesis by (simp add: inv_clear [OF inv])
  next
    case evict_call then show ?thesis by (simp add: inv_evict_call [OF f])
  next
    case try_ok then show ?thesis by (simp add: inv_try [OF f])
  next
    case try_err then show ?thesis by (simp add: inv_try [OF f])
  next
    case valid_ok then show ?thesis by (simp add: inv_valid_ok [OF inv])
  next
    case unlock then show ?thesis by (simp add: inv_unlock [OF f])
  next
    case detach_call then show ?thesis by (simp add: inv_detach_call [OF f])
  next
    case detach_end then show ?thesis by (simp add: inv_detach_end [OF f])
  next
    case swap then show ?thesis by (simp add: inv_fill [OF inv])
  next
    case fill then show ?thesis by (simp add: inv_fill [OF inv])
  next
    case link_call then show ?thesis by (simp add: inv_link_call [OF f])
  next
    case link_end then show ?thesis by (simp add: inv_link_end [OF f assms(3)])
  next
    case touch_new then show ?thesis by (simp add: inv_touch_new [OF inv])
  next
    case back_some then show ?thesis by (simp add: inv_back [OF inv] len)
  next
    case release then show ?thesis by (simp add: inv_release [OF f])
  next
    case finish_promote then show ?thesis by (simp add: inv_finish_promote [OF inv])
  next
    case finish_insert then show ?thesis by (simp add: inv_finish_insert [OF inv])
  qed (use ok in \<open>auto intro!: inv_goto [OF inv] simp: inv searching_def\<close>)
qed


lemma conc_inv_init: "conc_init tsz s \<Longrightarrow> conc_inv S n tsz csz T s"
  by (simp add: conc_init_def conc_inv_def slot_fine_def held_fine_def stores_fine_def)

lemma conc_inv_run:
  assumes "few T" "schema_laws S tsz csz proper" "n \<le> 4294967296" "conc_init tsz s0"
    and "conc_run S n pl tsz proper T s0 ls s"
  shows "conc_inv S n tsz csz T s"
  using assms(5) by induction (auto intro: conc_inv_init [OF assms(4)] conc_inv_step [OF assms(1-3)])

end
