(* ===== verification/Cache_Conc_Correct.thy ===== *)
theory Cache_Conc_Correct
  imports Cache_Conc
begin

text \<open>
  What \<open>Cache_Conc\<close> promises its clients: every interleaved run refines the abstract system of locked
  values, plain memory accesses never race, and insertion and promotion are wait-free.
\<close>

section \<open>Refinement of the abstract system\<close>

text \<open>The value of a row seen by the only thread that may have it locked for writing.\<close>

definition evicted_of :: "conc \<Rightarrow> cpc \<Rightarrow> Rid \<Rightarrow> bytes option" where
  "evicted_of s p r = Option.bind (evictee s p) (\<lambda>(c, b). if c = r then Some b else None)"

definition inserts :: "cpc \<Rightarrow> Rid \<Rightarrow> bool" where
  "inserts p r \<longleftrightarrow> (case job_of p of None \<Rightarrow> False | Some j \<Rightarrow> j_row j = r \<and> j_tuple j \<noteq> None)"

definition own_val :: "Schema \<Rightarrow> conc \<Rightarrow> bool \<Rightarrow> cpc \<Rightarrow> Rid \<Rightarrow> bytes option" where
  "own_val S s w p r = (if w \<and> inserts p r then None else Some (logical S
     (case ref s r of Slot i \<Rightarrow> Some (node_val (slots s i)) | Row _ \<Rightarrow> if w then evicted_of s p r else None) (tuples s r)))"

lemma conc_val_own:
  assumes "conc_inv S n tsz csz T s" "r \<in> rids s" "\<And>u. u \<noteq> t \<Longrightarrow> \<not> wholds s u r"
  shows "conc_val S s r = own_val S s (wholds s t r) (cpcs s t) r"
proof (cases "wholds s t r")
  case True
  then show ?thesis
    using assms(2) owner_guards [OF assms(1) True assms(2)]
    by (simp add: conc_val_def inserting_def inserts_def own_val_def cached_item_def evicted_of_def
        split: option.split oid_ref.split)
next
  case False
  then have "writing (locks s r) = {}"
    unfolding writing_def using assms(3) by (metis (no_types, lifting) Collect_empty_eq wholds_def)
  then show ?thesis
    using assms(2) False by (simp add: conc_val_def inserting_def own_val_def cached_item_def guards_def
        split: oid_ref.split)
qed

lemma frame_wholds: "frame t s s' \<Longrightarrow> u \<noteq> t \<Longrightarrow> r \<in> rids s \<Longrightarrow> wholds s' u r = wholds s u r"
  by (simp add: wholds_def frameD(4))

text \<open>Rows that some other thread has locked keep their value.\<close>

lemma frame_evictee:
  assumes "conc_inv S n tsz csz T s" "frame t s s'" "u \<noteq> t"
  shows "evictee s' (cpcs s u) = evictee s (cpcs s u)"
proof (cases "cpcs s u")
  case (Swap j i c)
  then have "writes s u c" "own_slot n s i c"
    using conc_invD(6) [OF assms(1), of u] by simp_all
  then show ?thesis
    using frame_keeps(4) [OF assms, of c i] Swap by (simp add: own_slot_def writes_wholds)
next
  case (Filled j i ev) then show ?thesis by (cases ev) simp_all
next
  case (Linking j i ev) then show ?thesis by (cases ev) simp_all
next
  case (Linked j i ev) then show ?thesis by (cases ev) simp_all
next
  case (Back j i ev) then show ?thesis by (cases ev) simp_all
qed simp_all

lemma conc_val_frame:
  assumes inv: "conc_inv S n tsz csz T s" and inv': "conc_inv S n tsz csz T s'" and fr: "frame t s s'"
    and r: "r \<in> rids s"
    and own: "\<forall>u. u \<noteq> t \<longrightarrow> \<not> wholds s u r \<Longrightarrow>
      own_val S s' (wholds s' t r) (cpcs s' t) r = own_val S s (wholds s t r) (cpcs s t) r"
  shows "conc_val S s' r = conc_val S s r"
proof (cases "\<exists>u. u \<noteq> t \<and> wholds s u r")
  case False
  then have "conc_val S s r = own_val S s (wholds s t r) (cpcs s t) r"
    by (intro conc_val_own [OF inv r]) blast
  moreover have "conc_val S s' r = own_val S s' (wholds s' t r) (cpcs s' t) r"
    using False frame_wholds [OF fr _ r] by (intro conc_val_own [OF inv' frameD(1) [OF fr r]]) blast
  ultimately show ?thesis
    using False own by auto
next
  case True
  then obtain u where u: "u \<noteq> t" "wholds s u r" by blast
  then have g: "guarded s u r"
    using r by (simp add: guarded_def wholds_def)
  have ref: "ref s' r = ref s r" "tuples s' r = tuples s r"
    using frame_keeps(1,2) [OF inv fr u(1) g] by simp_all
  have val: "node_val (slots s' i) = node_val (slots s i)" if "ref s r = Slot i" for i
    using frame_keeps(4) [OF inv fr u(1) g] row_slot(2) [OF inv r that] by simp
  have "own_val S s' True (cpcs s u) r = own_val S s True (cpcs s u) r"
    using ref val frame_evictee [OF inv fr u(1)]
    by (cases "ref s r") (simp_all add: own_val_def evicted_of_def)
  moreover have "wholds s' u r" "cpcs s' u = cpcs s u"
    using u frame_wholds [OF fr u(1) r] frameD(2) [OF fr u(1)] by simp_all
  moreover have "\<not> wholds s v r" "\<not> wholds s' v r" if "v \<noteq> u" for v
    using that wholds_excl [OF inv u(2) r that] wholds_excl [OF inv' calculation(2) frameD(1) [OF fr r] that]
      frameD(1) [OF fr r] r by (simp_all add: guarded_def wholds_def)
  ultimately show ?thesis
    using conc_val_own [OF inv r, of u] conc_val_own [OF inv' frameD(1) [OF fr r], of u] u(2) by simp
qed


text \<open>How a step appears in the abstract system without changing a value.\<close>

lemma abs_eqI: "(\<And>r. conc_val S s' r = conc_val S s r) \<Longrightarrow> (\<And>r. conc_guards s' r = conc_guards s r) \<Longrightarrow>
  conc_abs S s' = conc_abs S s"
  by (simp add: conc_abs_def fun_eq_iff)

lemma refines_tau:
  assumes inv: "conc_inv S n tsz csz T s" and inv': "conc_inv S n tsz csz T s'" and fr: "frame t s s'"
    and "rids s' = rids s" "locks s' = locks s"
    and "\<And>r. r \<in> rids s \<Longrightarrow> \<forall>u. u \<noteq> t \<longrightarrow> \<not> wholds s u r \<Longrightarrow>
      own_val S s' (wholds s t r) (cpcs s' t) r = own_val S s (wholds s t r) (cpcs s t) r"
  shows "cspec_step (conc_abs S s) Tau (conc_abs S s')"
proof -
  have "wholds s' = wholds s"
    using assms(5) by (simp add: wholds_def fun_eq_iff)
  then have "conc_val S s' r = conc_val S s r" for r
    using conc_val_frame [OF inv inv' fr, of r] assms(4,6) by (cases "r \<in> rids s") (simp_all add: conc_val_def)
  then have "conc_abs S s' = conc_abs S s"
    using assms(4,5) by (intro abs_eqI) (simp_all add: conc_guards_def)
  then show ?thesis by (simp add: spec_tau)
qed

lemma refines_lock:
  assumes few: "few T" and t: "t \<in> T" and inv: "conc_inv S n tsz csz T s" and c: "c \<in> rids s"
    and step: "lock_step {t} (locks s c) l" and inv': "conc_inv S n tsz csz T s'" and fr: "frame t s s'"
    and s': "rids s' = rids s" "locks s' = (locks s)(c := l)"
    and own: "\<And>r. r \<in> rids s \<Longrightarrow> \<forall>u. u \<noteq> t \<longrightarrow> \<not> wholds s u r \<Longrightarrow>
      own_val S s' (wholds s' t r) (cpcs s' t) r = own_val S s (wholds s t r) (cpcs s t) r"
  shows "cspec_step (conc_abs S s) (Lock_Op t c) (conc_abs S s')"
proof -
  have "conc_val S s' r = conc_val S s r" for r
    using conc_val_frame [OF inv inv' fr, of r] own s' by (cases "r \<in> rids s") (simp_all add: conc_val_def)
  then have "conc_val S s' = conc_val S s" by blast
  moreover have "conc_guards s' = (conc_guards s)(c := guards l)"
    using c s' by (auto simp: conc_guards_def fun_eq_iff)
  moreover have "guard_step t (c_guards (conc_abs S s) c) (guards l)"
    using lock_one_guards [OF few conc_invD(1) [OF inv c] step t] c by (simp add: conc_abs_def conc_guards_def)
  ultimately show ?thesis
    using spec_lock [of t "conc_abs S s" c "guards l"] by (simp add: conc_abs_def)
qed

lemma own_val_cong:
  assumes "ref s' r = ref s r" "tuples s' r = tuples s r"
    and "\<And>i. ref s r = Slot i \<Longrightarrow> node_val (slots s' i) = node_val (slots s i)"
    and "w' \<and> inserts p' r \<longleftrightarrow> w \<and> inserts p r"
    and "(if w' then evicted_of s' p' r else None) = (if w then evicted_of s p r else None)"
  shows "own_val S s' w' p' r = own_val S s w p r"
  using assms(1-3) by (cases "ref s r") (simp_all only: own_val_def assms(4,5) oid_ref.case)

lemma evicted_of_slots: "slots s' = slots s \<Longrightarrow> evicted_of s' p r = evicted_of s p r"
  by (cases "(s, p)" rule: evictee.cases) (simp_all add: evicted_of_def)

lemma evicted_of_parts [simp]:
  "evicted_of (goto t q s) = evicted_of s" "evicted_of (set_lock c l s) = evicted_of s"
  "evicted_of (set_tuple c b s) = evicted_of s" "evicted_of (set_held t c x s) = evicted_of s"
  "evicted_of (s\<lparr> held := h \<rparr>) = evicted_of s" "evicted_of (s\<lparr> rids := R \<rparr>) = evicted_of s"
  by (simp_all add: fun_eq_iff evicted_of_slots)

text \<open>The steps on locks.\<close>

lemma refines_plain:
  assumes few: "few T" and t: "t \<in> T" and inv: "conc_inv S n tsz csz T s" and c: "c \<in> rids s"
    and step: "lock_step {t} (locks s c) l" and inv': "conc_inv S n tsz csz T s'"
    and s': "s' = goto t p (set_lock c l (s\<lparr> held := h \<rparr>))" "frame t s s'"
    and "pending_store (pcs (locks s c) t) = None"
    and "\<And>r. inserts p r = inserts (cpcs s t) r" "\<And>r. evicted_of s p r = evicted_of s (cpcs s t) r"
    and "holds_write (pcs l t) = wholds s t c \<or> \<not> inserts (cpcs s t) c \<and> evicted_of s (cpcs s t) c = None"
  shows "cspec_step (conc_abs S s) (Lock_Op t c) (conc_abs S s')"
proof (rule refines_lock [OF few t inv c step inv' s'(2)])
  have [simp]: "ref (s\<lparr> held := h \<rparr>) = ref s"
    by (simp add: ref_def fun_eq_iff)
  show "own_val S s' (wholds s' t r) (cpcs s' t) r = own_val S s (wholds s t r) (cpcs s t) r" for r
    using s' plain_ref [OF few inv c step assms(9)] assms(10-12)
    by (intro own_val_cong) (auto simp: wholds_def)
qed (use s' in simp_all)


lemma frame_touch: "frame t s (touch b i s)"
  by (simp add: frame_def wholds_def)

lemma frame_touch_hit: "frame t s (touch_hit b x s)"
  by (simp add: frame_def wholds_def)

lemma frame_put:
  assumes "few T" "schema_laws S tsz csz proper" "conc_inv S n tsz csz T s" "cpcs s t = Rest"
    and "held s t r = Some (query, q)" "pcs (locks s r) t = Writing" "f \<in> set query" "proper f"
    and "length v = field_size f" "conc_put S q f v s = Inr s'"
  shows "frame t s s'"
proof -
  have r: "wholds s t r" "r \<in> rids s"
    using assms(6) resting_row(1) [OF assms(1,3-5)] by (simp_all add: wholds_def)
  from assms(1,3-5,2,7-9) show ?thesis
  proof (cases rule: conc_put_cases)
    case (item i b)
    have "x = r" if "node_rid (slots s i) = as_u32 x" for x
      using row_slot(2) [OF assms(3) r(2) item(1)] that by (simp add: Rid_eq_iff)
    then have "frame t s (set_slot i ((slots s i)\<lparr> node_val := b \<rparr>) s)"
      using r(1) by (intro frame_set_slot) auto
    then show ?thesis using item assms(10) by simp
  next
    case (row b)
    then show ?thesis using frame_set_tuple [OF r(1)] assms(10) by simp
  qed
qed

lemma frame_insert_row:
  "r \<notin> rids s \<Longrightarrow> frame t s (goto t p (set_lock r \<lparr> cell = c, pcs = (\<lambda>_. Idle)(t := Writing) \<rparr> (s\<lparr> rids := insert r (rids s) \<rparr>)))"
  by (auto simp: frame_def ref_def)

text \<open>
  A step of \<open>t\<close> leaves every row that \<open>t\<close> has not locked for writing alone: what the row refers to,
  its tuple, and the slot that holds it.
\<close>

lemma conc_step_frame:
  assumes "few T" "schema_laws S tsz csz proper" "conc_inv S n tsz csz T s"
    and "conc_step S n pl tsz proper t s lbl s'"
  shows "frame t s s'"
proof -
  note ok = conc_invD(6) [OF assms(3), of t]
  note lock = frame_set_lock [OF assms(1,3)]
  from assms(4) show ?thesis
  proof cases
    case (client r l)
    have "frame t (set_held t r None s) (set_lock r l (set_held t r None s))"
      using client assms(1,3) by (intro frame_set_lock inv_set_held) auto
    then show ?thesis
      using client by (auto simp: frame_def wholds_def)
  next
    case put_ok then show ?thesis by (intro frame_put [OF assms(1-3)])
  next
    case (claim_ok j k i c spur u c')
    then have "node_rid (slots s i) = U32_MAX"
      by (auto simp: atomic_simps split: if_splits)
    then show ?thesis
      using claim_ok conc_invD(2) [OF assms(3)] by (auto intro!: frame_goto frame_set_slot)
  next
    case (swap j i c)
    then show ?thesis
      using ok by (auto intro!: frame_goto frame_set_slot simp: own_slot_def writes_wholds simp flip: Rid_eq_iff)
  next
    case (fill j i)
    then show ?thesis
      using ok by (auto intro!: frame_goto frame_set_slot simp: own_slot_def searching_def writes_wholds simp flip: Rid_eq_iff)
  qed (use ok in \<open>auto intro!: lock frame_goto frame_set_held frame_touch frame_touch_hit frame_refl frame_insert_row
      frame_set_tuple frame_set_slot intro: writes_wholds simp: searching_def evicted_ok_def\<close>)
qed


text \<open>The steps on slots and the silent ones.\<close>

lemma refines_silent:
  assumes "conc_inv S n tsz csz T s" "conc_inv S n tsz csz T s'" "frame t s s'" "rids s' = rids s" "locks s' = locks s"
    and "\<And>r i. r \<in> rids s \<Longrightarrow> ref s r = Slot i \<Longrightarrow> node_val (slots s' i) = node_val (slots s i)"
    and "tuples s' = tuples s" "\<And>r. inserts (cpcs s' t) r = inserts (cpcs s t) r"
    and "\<And>r. evicted_of s' (cpcs s' t) r = evicted_of s (cpcs s t) r"
  shows "cspec_step (conc_abs S s) Tau (conc_abs S s')"
  using assms(4-9)
  by (intro refines_tau [OF assms(1-5)] own_val_cong) (simp_all add: ref_def)

lemma inserts_simps [simp]:
  "\<not> inserts Rest r"
  "job_of p = Some j \<Longrightarrow> inserts p r \<longleftrightarrow> j_row j = r \<and> j_tuple j \<noteq> None"
  by (simp_all add: inserts_def)

lemma evicted_of_simps [simp]:
  "evictee s p = None \<Longrightarrow> evicted_of s p r = None"
  "evictee s p = Some (c, b) \<Longrightarrow> evicted_of s p r = (if c = r then Some b else None)"
  by (simp_all add: evicted_of_def)

lemma refines_swap:
  assumes "conc_inv S n tsz csz T s" "conc_inv S n tsz csz T s'" "frame t s s'"
    and "cpcs s t = Claimed j i \<and> ev = None \<or> (\<exists>c. cpcs s t = Swap j i c \<and> ev = Some (slots s i))"
    and s': "s' = goto t (Filled j i ev) (set_slot i (node_new (j_item j) (j_row j)) s)"
  shows "cspec_step (conc_abs S s) Tau (conc_abs S s')"
proof -
  have "\<exists>c. node_rid (slots s i) = as_u32 c \<and> ref s c = Row c"
    using conc_invD(6) [OF assms(1), of t] assms(4) by (auto simp: own_slot_def searching_def)
  then have other: "k \<noteq> i" if "r \<in> rids s" "ref s r = Slot k" for r k
    using row_slot(2) [OF assms(1) that] that(2) by (metis Rid_eq_iff oid_ref.distinct(1))
  have "clock_rid (slots s i) = c" if "cpcs s t = Swap j i c" for c
    using conc_invD(6) [OF assms(1), of t] that by (simp add: own_slot_def clock_rid_eq)
  then have "evicted_of s' (Filled j i ev) r = evicted_of s (cpcs s t) r" for r
    using assms(4) by auto
  moreover have "inserts (cpcs s t) r = inserts (Filled j i ev) r" for r
    using assms(4) by auto
  ultimately show ?thesis
    using other s' by (intro refines_silent [OF assms(1-3)]) auto
qed

lemma refines_back:
  assumes "conc_inv S n tsz csz T s" "conc_inv S n tsz csz T s'" "frame t s s'" "cpcs s t = Back j i (Some old)"
    "c = clock_rid old" "s' = goto t (Release j i c) (set_tuple c (write_back S (node_val old) (tuples s c)) s)"
  shows "cspec_step (conc_abs S s) Tau (conc_abs S s')"
proof (rule refines_tau [OF assms(1-3)])
  have ok: "writes s t c" "c \<noteq> j_row j" "ref s c = Row c"
    using conc_invD(6) [OF assms(1), of t] assms(4,5) by (simp_all add: evicted_ok_def)
  show "own_val S s' (wholds s t r) (cpcs s' t) r = own_val S s (wholds s t r) (cpcs s t) r" for r
  proof (cases "r = c")
    case True
    then show ?thesis
      using ok assms(4-6) writes_wholds(1) [OF ok(1)] by (simp add: own_val_def logical_def)
  next
    case False
    then show ?thesis
      using assms(4-6) by (intro own_val_cong) auto
  qed
qed (use assms(6) in simp_all)

lemma refines_detach:
  assumes "few T" "t \<in> T" "conc_inv S n tsz csz T s" "conc_inv S n tsz csz T s'" "frame t s s'"
    "cpcs s t = Detaching j i c" "lock_step {t} (locks s c) l" "s' = goto t (Swap j i c) (set_lock c l s)"
  shows "cspec_step (conc_abs S s) (Lock_Op t c) (conc_abs S s')"
proof -
  obtain v where ok: "c \<in> rids s" "pcs (locks s c) t = Storing_Rid c v" "ref s c = Slot i" "c \<noteq> j_row j"
    using conc_invD(6) [OF assms(3), of t] assms(6) by auto
  have l: "pcs l t = Writing" "oid_ref_of (cell l) = Row c"
    using lock_one_storing [OF assms(7)] lock_one_ref [OF assms(1) conc_invD(1) [OF assms(3) ok(1)] assms(7)] ok(2)
    by simp_all
  have "own_val S s' (wholds s' t r) (cpcs s' t) r = own_val S s (wholds s t r) (cpcs s t) r" for r
  proof (cases "r = c")
    case True
    then show ?thesis
      using ok l assms(6,8) by (simp add: own_val_def wholds_def)
  next
    case False
    then show ?thesis
      using assms(6,8) by (intro own_val_cong) (auto simp: wholds_def)
  qed
  then show ?thesis
    using assms(8) by (intro refines_lock [OF assms(1-3) ok(1) assms(7,4,5)]) simp_all
qed

lemma refines_link:
  assumes "few T" "t \<in> T" "conc_inv S n tsz csz T s" "conc_inv S n tsz csz T s'" "frame t s s'"
    "cpcs s t = Linking j i ev" "lock_step {t} (locks s (j_row j)) l"
    "s' = goto t (Linked j i ev) (set_lock (j_row j) l s)" "\<And>x. length x = tsz \<Longrightarrow> write_back S (to_cached S x) x = x"
  shows "cspec_step (conc_abs S s) (Lock_Op t (j_row j)) (conc_abs S s')"
proof -
  obtain v where ok: "j_row j \<in> rids s" "pcs (locks s (j_row j)) t = Storing_Index (of_nat i) v" "job_data S tsz csz s j"
      "ref s (j_row j) = Row (j_row j)" "node_val (slots s i) = j_item j" "evicted_ok csz s t j ev"
    using conc_invD(6) [OF assms(3), of t] assms(6) by auto
  have ref: "ref s' (j_row j) = Slot i" "pcs l t = Writing"
    using conc_invD(6) [OF assms(4), of t] assms(8) by (simp_all add: writes_def)
  have ev: "evicted_of s (Linked j i ev) r = evicted_of s (Linking j i ev) r" for r
    by (cases ev) simp_all
  have none: "evicted_of s (Linking j i ev) (j_row j) = None"
    using ok(6) by (cases ev) (simp_all add: evicted_ok_def)
  have "own_val S s' (wholds s' t r) (cpcs s' t) r = own_val S s (wholds s t r) (cpcs s t) r" for r
  proof (cases "r = j_row j")
    case True
    then show ?thesis
      using ok ref assms(6,8) none assms(9) [OF conc_invD(4) [OF assms(3)], of "j_row j"]
      by (simp add: own_val_def wholds_def logical_def job_data_def)
  next
    case False
    then show ?thesis
      using assms(6,8) ev by (intro own_val_cong) (auto simp: wholds_def)
  qed
  then show ?thesis
    using assms(8) by (intro refines_lock [OF assms(1-3) ok(1) assms(7,4,5)]) simp_all
qed


text \<open>The visible steps.\<close>

lemma resting_val:
  assumes "few T" "conc_inv S n tsz csz T s" "cpcs s t = Rest" "held s t r = Some (query, q)"
  shows "c_val (conc_abs S s) r = Some (logical S (cached_item s r) (tuples s r))"
    and "t \<in> fst (c_guards (conc_abs S s) r) \<or> snd (c_guards (conc_abs S s) r) = Some t"
    and "pcs (locks s r) t = Writing \<Longrightarrow> c_guards (conc_abs S s) r = ({}, Some t)"
  using resting_row [OF assms] owner_guards [OF assms(2), of t r] reader_guards(2) [OF assms(1,2), of r t]
  by (auto simp: conc_abs_def conc_val_def conc_guards_def guarded_def wholds_def)

lemma refines_get:
  assumes "few T" "schema_laws S tsz csz proper" "conc_inv S n tsz csz T s" "cpcs s t = Rest"
    "held s t r = Some (query, q)" "f \<in> set query" "proper f"
  shows "cspec_step (conc_abs S s) (Read_Field t r f (conc_get S q f s)) (conc_abs S s)"
proof -
  obtain v where "conc_get S q f s = Inr v"
    "load_bytes (field_off f) (field_size f) (logical S (cached_item s r) (tuples s r)) = Some v"
    using conc_get_ok [OF assms(1,3-5,2,6,7)] by blast
  then show ?thesis
    using resting_val(1,2) [OF assms(1,3-5)] by (simp add: spec_read)
qed

text \<open>A step by which the value of a single row changes.\<close>

lemma conc_abs_update:
  assumes inv: "conc_inv S n tsz csz T s" and inv': "conc_inv S n tsz csz T s'" and fr: "frame t s s'"
    and "rids s' = rids s" "locks s' = locks s" "r \<in> rids s" "wholds s t r"
    and "own_val S s' True (cpcs s' t) r = Some x"
    and "\<And>y. y \<noteq> r \<Longrightarrow> y \<in> rids s \<Longrightarrow> \<forall>u. u \<noteq> t \<longrightarrow> \<not> wholds s u y \<Longrightarrow>
      own_val S s' (wholds s t y) (cpcs s' t) y = own_val S s (wholds s t y) (cpcs s t) y"
  shows "conc_abs S s' = (conc_abs S s)\<lparr> c_val := (c_val (conc_abs S s))(r \<mapsto> x) \<rparr>"
proof -
  have w: "wholds s' = wholds s"
    using assms(5) by (simp add: wholds_def fun_eq_iff)
  have "\<not> wholds s' u r" if "u \<noteq> t" for u
    using wholds_excl [OF inv assms(7,6) that] assms(6) w by (simp add: guarded_def wholds_def)
  then have "conc_val S s' r = Some x"
    using conc_val_own [OF inv', of r t] assms(4,6-8) w by simp
  moreover have "conc_val S s' y = conc_val S s y" if "y \<noteq> r" for y
    using conc_val_frame [OF inv inv' fr, of y] assms(4) assms(9) [OF that] w
    by (cases "y \<in> rids s") (simp_all add: conc_val_def)
  ultimately show ?thesis
    using assms(4,5) by (auto simp: conc_abs_def conc_guards_def fun_eq_iff)
qed

lemma refines_put:
  assumes "few T" "schema_laws S tsz csz proper" "conc_inv S n tsz csz T s" "cpcs s t = Rest"
    and "held s t r = Some (query, q)" "pcs (locks s r) t = Writing" "f \<in> set query" "proper f"
    and "length v = field_size f" "conc_put S q f v s = Inr s'"
  shows "cspec_step (conc_abs S s) (Write_Field t r f v None) (conc_abs S s')"
proof -
  note inv' = inv_put [OF assms] and fr = frame_put [OF assms] and rest = resting_row [OF assms(1,3-5)]
  have w: "wholds s t r"
    using assms(6) by (simp add: wholds_def)
  have "\<exists>x. store_bytes (field_off f) v (logical S (cached_item s r) (tuples s r)) = Some x
    \<and> conc_abs S s' = (conc_abs S s)\<lparr> c_val := (c_val (conc_abs S s))(r \<mapsto> x) \<rparr>"
    using assms(1,3-5,2,7-9)
  proof (cases rule: conc_put_cases)
    case (item i b)
    then have s': "s' = set_slot i ((slots s i)\<lparr> node_val := b \<rparr>) s"
      using assms(10) by simp
    have only: "y = r" if "y \<in> rids s" "ref s y = Slot i" for y
      using row_slot(2) [OF assms(3) that] row_slot(2) [OF assms(3) rest(1) item(1)] by (simp add: Rid_eq_iff)
    have "conc_abs S s' = (conc_abs S s)\<lparr> c_val := (c_val (conc_abs S s))(r \<mapsto> logical S (Some b) (tuples s r)) \<rparr>"
      using s' item(1) assms(4) only
      by (intro conc_abs_update [OF assms(3) inv' fr _ _ rest(1) w] own_val_cong) (auto simp: own_val_def)
    then show ?thesis using item(4) by blast
  next
    case (row b)
    then have s': "s' = set_tuple r b s"
      using assms(10) by simp
    have "conc_abs S s' = (conc_abs S s)\<lparr> c_val := (c_val (conc_abs S s))(r \<mapsto> logical S (cached_item s r) b) \<rparr>"
      using s' assms(4) rest(2)
      by (intro conc_abs_update [OF assms(3) inv' fr _ _ rest(1) w] own_val_cong)
        (auto simp: own_val_def split: oid_ref.splits)
    then show ?thesis using row(3) by blast
  qed
  then show ?thesis
    using spec_write [OF resting_val(1) [OF assms(1,3-5)] resting_val(3) [OF assms(1,3-6)]] by auto
qed

lemma refines_new:
  assumes "few T" "conc_inv S n tsz csz T s" "conc_inv S n tsz csz T s'" "frame t s s'" "cpcs s t = Finish j y"
    "j_tuple j = Some x" "s' = goto t Rest (set_tuple (j_row j) x s)"
    "\<And>x. length x = tsz \<Longrightarrow> write_back S (to_cached S x) x = x"
  shows "cspec_step (conc_abs S s) (New_Row t (j_row j) x) (conc_abs S s')"
proof -
  have ok: "writes s t (j_row j)" "j_item j = to_cached S x" "length x = tsz"
      "\<And>i. ref s (j_row j) = Slot i \<Longrightarrow> node_val (slots s i) = to_cached S x"
    using conc_invD(6) [OF assms(2), of t] assms(5,6) by (simp_all add: job_data_def)
  note w = writes_wholds(1,2) [OF ok(1)]
  have "own_val S s' True (cpcs s' t) (j_row j) = Some x"
    using assms(7,8) ok(3,4) by (simp add: own_val_def logical_def split: oid_ref.splits)
  then have eq: "conc_abs S s' = (conc_abs S s)\<lparr> c_val := (c_val (conc_abs S s))(j_row j \<mapsto> x) \<rparr>"
    using assms(5,7) by (intro conc_abs_update [OF assms(2-4) _ _ w(2,1)] own_val_cong) auto
  have g: "guards (locks s (j_row j)) = ({}, Some t)"
    by (rule owner_guards [OF assms(2) w])
  then have "inserting s (j_row j)"
    using assms(5,6) by (simp add: inserting_def)
  then show ?thesis
    unfolding eq using g w by (intro spec_new) (simp_all add: conc_abs_def conc_val_def conc_guards_def)
qed

lemma refines_insert_row:
  assumes inv: "conc_inv S n tsz csz T s" and inv': "conc_inv S n tsz csz T s'" and fr: "frame t s s'"
    and "cpcs s t = Rest" "r \<notin> rids s"
    and s': "s' = goto t (Probing (Job r y (Some x)) pl)
      (set_lock r \<lparr> cell = c, pcs = (\<lambda>_. Idle)(t := Writing) \<rparr> (s\<lparr> rids := insert r (rids s) \<rparr>))"
  shows "cspec_step (conc_abs S s) (Lock_Op t r) (conc_abs S s')"
proof -
  have g: "guards (locks s' r) = ({}, Some t)"
    using s' by (auto simp: guards_def reading_def writing_def)
  then have new: "conc_val S s' r = None"
    using s' by (simp add: conc_val_def inserting_def)
  have "conc_val S s' k = conc_val S s k" for k
  proof (cases "k \<in> rids s")
    case True
    then have "k \<noteq> r"
      using assms(5) by blast
    then show ?thesis
      using s' assms(4)
      by (intro conc_val_frame [OF inv inv' fr True] own_val_cong) (auto simp: wholds_def ref_def)
  next
    case False
    then show ?thesis
      using new s' by (cases "k = r") (simp_all add: conc_val_def)
  qed
  then have "conc_val S s' = conc_val S s" by blast
  moreover have "conc_guards s' = (conc_guards s)(r := ({}, Some t))"
    using g s' by (auto simp: conc_guards_def fun_eq_iff)
  moreover have "guard_step t (c_guards (conc_abs S s) r) ({}, Some t)"
    using assms(5) by (simp add: conc_abs_def conc_guards_def guard_write)
  ultimately show ?thesis
    using spec_lock [of t "conc_abs S s" r "({}, Some t)"] by (simp add: conc_abs_def)
qed


lemma refines_client:
  assumes few: "few T" and t: "t \<in> T" and inv: "conc_inv S n tsz csz T s" and inv': "conc_inv S n tsz csz T s'"
    and fr: "frame t s s'" and "cpcs s t = Rest" "r \<in> rids s" "lock_step {t} (locks s r) l"
    and s': "s' = set_lock r l (set_held t r None s)"
  shows "cspec_step (conc_abs S s) (Lock_Op t r) (conc_abs S s')"
proof (rule refines_plain [OF few t inv assms(7,8) inv' _ fr])
  show "s' = goto t Rest (set_lock r l (s\<lparr> held := (held s)(t := (held s t)(r := None)) \<rparr>))"
    using assms(6) s' by (simp add: goto_same set_held_def)
qed (use rest_no_store [OF inv assms(6,7)] assms(6) in simp_all)

lemma refines_lock_op:
  assumes few: "few T" and laws: "schema_laws S tsz csz proper" and n: "n \<le> 4294967296"
    and inv: "conc_inv S n tsz csz T s" and t: "t \<in> T" and step: "conc_step S n pl tsz proper t s lbl s'"
    and lbl: "lbl = Lock_Op u x"
  shows "cspec_step (conc_abs S s) lbl (conc_abs S s')"
proof -
  note inv' = conc_inv_step [OF few laws n inv t step] and fr = conc_step_frame [OF few laws inv step]
  note ok = conc_invD(6) [OF inv, of t] and wbc = schema_laws.write_back_to_cached [OF laws]
  have plain: "lbl = Lock_Op t c \<Longrightarrow> s' = goto t p (set_lock c l s) \<Longrightarrow> c \<in> rids s \<Longrightarrow> lock_step {t} (locks s c) l \<Longrightarrow>
      pending_store (pcs (locks s c) t) = None \<Longrightarrow> (\<And>r. inserts p r = inserts (cpcs s t) r) \<Longrightarrow>
      (\<And>r. evicted_of s p r = evicted_of s (cpcs s t) r) \<Longrightarrow>
      holds_write (pcs l t) = wholds s t c \<or> \<not> inserts (cpcs s t) c \<and> evicted_of s (cpcs s t) c = None \<Longrightarrow>
      ?thesis" for p c l
    using refines_plain [OF few t inv _ _ inv' _ fr, of c l p "held s"] by simp
  from step show ?thesis
  proof cases
    case client show ?thesis unfolding client(1) by (rule refines_client [OF few t inv inv' fr client(3-5,2)])
  next
    case insert_row show ?thesis unfolding insert_row(1) by (rule refines_insert_row [OF inv inv' fr insert_row(3,5,2)])
  next
    case evict_call then show ?thesis using ok by (intro plain [OF evict_call(1,2)]) (simp_all add: wholds_def)
  next
    case try_ok then show ?thesis using ok by (intro plain [OF try_ok(1,2)]) auto
  next
    case try_err then show ?thesis using ok by (intro plain [OF try_err(1,2)]) auto
  next
    case unlock then show ?thesis using ok by (intro plain [OF unlock(1,2)]) (auto simp: writes_def)
  next
    case detach_call then show ?thesis using ok by (intro plain [OF detach_call(1,2)]) (auto simp: writes_def)
  next
    case detach_end show ?thesis unfolding detach_end(1) by (rule refines_detach [OF few t inv inv' fr detach_end(3,4,2)])
  next
    case (link_call j i ev l v)
    moreover have "evicted_of s (Linking j i ev) r = evicted_of s (Filled j i ev) r" for r
      by (cases ev) simp_all
    ultimately show ?thesis
      using ok by (intro plain [OF link_call(1,2)]) (simp_all add: searching_def writes_def wholds_def)
  next
    case link_end show ?thesis unfolding link_end(1) by (rule refines_link [OF few t inv inv' fr link_end(3,4,2) wbc])
  next
    case release then show ?thesis using ok by (intro plain [OF release(1,2)]) (auto simp: writes_def)
  qed (use lbl in simp_all)
qed

lemma conc_step_refines:
  assumes few: "few T" and laws: "schema_laws S tsz csz proper" and n: "n \<le> 4294967296"
    and inv: "conc_inv S n tsz csz T s" and t: "t \<in> T" and step: "conc_step S n pl tsz proper t s lbl s'"
  shows "cspec_step (conc_abs S s) lbl (conc_abs S s')"
proof (cases "\<exists>u x. lbl = Lock_Op u x")
  case True
  then show ?thesis using refines_lock_op [OF assms] by blast
next
  case False
  note inv' = conc_inv_step [OF few laws n inv t step] and fr = conc_step_frame [OF few laws inv step]
  note ok = conc_invD(6) [OF inv, of t] and wbc = schema_laws.write_back_to_cached [OF laws]
  have silent: "lbl = Tau \<Longrightarrow> rids s' = rids s \<Longrightarrow> locks s' = locks s \<Longrightarrow>
      (\<And>r i. r \<in> rids s \<Longrightarrow> ref s r = Slot i \<Longrightarrow> node_val (slots s' i) = node_val (slots s i)) \<Longrightarrow>
      tuples s' = tuples s \<Longrightarrow> (\<And>r. inserts (cpcs s' t) r = inserts (cpcs s t) r) \<Longrightarrow>
      (\<And>r. evicted_of s' (cpcs s' t) r = evicted_of s (cpcs s t) r) \<Longrightarrow> ?thesis"
    by (simp add: refines_silent [OF inv inv' fr])
  from step show ?thesis
  proof cases
    case get_field then show ?thesis by (simp add: refines_get [OF few laws inv])
  next
    case put_ok then show ?thesis by (simp add: refines_put [OF few laws inv])
  next
    case put_err then show ?thesis
      using conc_put_cases [OF few inv put_err(3,4) laws put_err(6-8)] by (metis sum.distinct(1))
  next
    case swap show ?thesis unfolding swap(1) by (rule refines_swap [OF inv inv' fr _ swap(2)]) (simp add: swap)
  next
    case fill show ?thesis unfolding fill(1) by (rule refines_swap [OF inv inv' fr _ fill(2)]) (simp add: fill)
  next
    case (touch_new j i ev draw)
    moreover have "evicted_of x (Back j i ev) r = evicted_of x (Linked j i ev) r"
      "evicted_of (touch b i s) (Linked j i ev) r = evicted_of s (Linked j i ev) r" for x r b
      by (cases ev; simp)+
    ultimately show ?thesis
      by (intro silent [OF touch_new(1)]) simp_all
  next
    case back_some show ?thesis unfolding back_some(1) by (rule refines_back [OF inv inv' fr back_some(3,4,2)])
  next
    case finish_insert show ?thesis unfolding finish_insert(1) by (rule refines_new [OF few inv inv' fr finish_insert(3,4,2) wbc])
  qed ((rule silent; (assumption | (simp; fail))) | (use False in \<open>simp; fail\<close>))+
qed


section \<open>Correctness of the concurrent cache\<close>

lemma conc_abs_init: "conc_init tsz s \<Longrightarrow> conc_abs S s = cspec_empty"
  by (simp add: conc_init_def conc_abs_def cspec_empty_def conc_val_def conc_guards_def fun_eq_iff)

lemma conc_run_refines:
  assumes "few T" "schema_laws S tsz csz proper" "n \<le> 4294967296" "conc_init tsz s0"
    and "conc_run S n pl tsz proper T s0 ls s"
  shows "cspec_run ls (conc_abs S s)"
  using assms(5)
proof induction
  case run_start
  show ?case by (simp add: conc_abs_init [OF assms(4)] spec_start)
next
  case (run_step ls s' t lbl s'')
  then show ?case
    using conc_inv_run [OF assms(1-4) run_step(1)] by (blast intro: spec_step conc_step_refines [OF assms(1-3)])
qed

text \<open>Who is about to access the item of a slot, or a tuple, with ordinary loads and stores.\<close>

definition borrows :: "conc \<Rightarrow> tid \<Rightarrow> Rid \<Rightarrow> (nat, Rid) QueryValue \<Rightarrow> bool" where
  "borrows s t r q \<longleftrightarrow> cpcs s t = Rest \<and> (\<exists>query. held s t r = Some (query, q))"

definition writes_item :: "conc \<Rightarrow> tid \<Rightarrow> nat \<Rightarrow> bool" where
  "writes_item s t i \<longleftrightarrow> (\<exists>j. cpcs s t = Claimed j i) \<or> (\<exists>j c. cpcs s t = Swap j i c)
     \<or> (\<exists>r q. borrows s t r q \<and> pcs (locks s r) t = Writing \<and> qv_field q = Some i)"

definition reads_item :: "conc \<Rightarrow> tid \<Rightarrow> nat \<Rightarrow> bool" where
  "reads_item s t i \<longleftrightarrow> (\<exists>j c. cpcs s t = Swap j i c) \<or> (\<exists>r q. borrows s t r q \<and> qv_field q = Some i)"

definition writes_tuple :: "conc \<Rightarrow> tid \<Rightarrow> Rid \<Rightarrow> bool" where
  "writes_tuple s t r \<longleftrightarrow> (\<exists>j i old. cpcs s t = Back j i (Some old) \<and> clock_rid old = r)
     \<or> (\<exists>j x y. cpcs s t = Finish j y \<and> j_tuple j = Some x \<and> j_row j = r)
     \<or> (\<exists>r' q. borrows s t r' q \<and> pcs (locks s r') t = Writing \<and> qv_tuple q = Some r)"

definition reads_tuple :: "conc \<Rightarrow> tid \<Rightarrow> Rid \<Rightarrow> bool" where
  "reads_tuple s t r \<longleftrightarrow> (\<exists>r' q. borrows s t r' q \<and> qv_tuple q = Some r)
     \<or> cpcs s t = Rest \<and> r \<in> rids s \<and> pcs (locks s r) t = Writing \<and> ref s r = Row r"

lemma borrows_guard:
  assumes "conc_inv S n tsz csz T s" "borrows s t r q"
  shows "guarded s t r" "qv_field q = Some i \<Longrightarrow> node_rid (slots s i) = as_u32 r" "qv_tuple q = Some r' \<Longrightarrow> r' = r"
proof -
  obtain query where "r \<in> rids s" "pcs (locks s r) t \<in> {Reading, Writing}" "q = the_value S query (ref s r) r"
    using conc_invD(7) [OF assms(1), of t] assms(2) by (auto simp: borrows_def held_fine_def)
  then show "guarded s t r" "qv_field q = Some i \<Longrightarrow> node_rid (slots s i) = as_u32 r" "qv_tuple q = Some r' \<Longrightarrow> r' = r"
    using row_slot(2) [OF assms(1)] row_row [OF assms(1)]
    by (auto simp: guarded_def the_value_def new_value_def split: oid_ref.splits if_splits)
qed

lemma borrows_owner:
  assumes "conc_inv S n tsz csz T s" "borrows s t r q" "pcs (locks s r) t = Writing"
  shows "wholds s t r" "r \<in> rids s"
  using borrows_guard(1) [OF assms(1,2)] assms(3) by (simp_all add: wholds_def guarded_def)

lemma writes_item_owner:
  assumes "conc_inv S n tsz csz T s" "writes_item s t i"
  shows "\<exists>r. wholds s t r \<and> r \<in> rids s \<and> node_rid (slots s i) = as_u32 r"
proof -
  note ok = conc_invD(6) [OF assms(1), of t]
  from assms(2) consider (claim) j where "cpcs s t = Claimed j i" | (swap) j c where "cpcs s t = Swap j i c"
    | (field) r q where "borrows s t r q" "pcs (locks s r) t = Writing" "qv_field q = Some i"
    by (auto simp: writes_item_def)
  then show ?thesis
  proof cases
    case claim
    then show ?thesis
      using ok by (intro exI [of _ "j_row j"]) (simp add: own_slot_def searching_def writes_def wholds_def)
  next
    case swap
    then show ?thesis
      using ok by (intro exI [of _ c]) (simp add: own_slot_def writes_def wholds_def)
  next
    case field
    then show ?thesis
      using borrows_owner [OF assms(1) field(1,2)] borrows_guard(2) [OF assms(1) field(1,3)] by blast
  qed
qed

lemma reads_item_guard:
  assumes "conc_inv S n tsz csz T s" "reads_item s t i"
  shows "\<exists>r. guarded s t r \<and> node_rid (slots s i) = as_u32 r"
proof -
  from assms(2) consider (swap) j c where "cpcs s t = Swap j i c" | (field) r q where "borrows s t r q" "qv_field q = Some i"
    by (auto simp: reads_item_def)
  then show ?thesis
  proof cases
    case swap
    then show ?thesis
      using conc_invD(6) [OF assms(1), of t] by (intro exI [of _ c]) (simp add: own_slot_def writes_wholds)
  next
    case field
    then show ?thesis
      using borrows_guard(1,2) [OF assms(1)] by blast
  qed
qed

lemma writes_tuple_owner:
  assumes "conc_inv S n tsz csz T s" "writes_tuple s t r"
  shows "wholds s t r" "r \<in> rids s"
proof -
  note ok = conc_invD(6) [OF assms(1), of t]
  from assms(2) consider (wb) j i old where "cpcs s t = Back j i (Some old)" "clock_rid old = r"
    | (new) j y where "cpcs s t = Finish j y" "j_row j = r"
    | (field) r' q where "borrows s t r' q" "pcs (locks s r') t = Writing" "qv_tuple q = Some r"
    by (auto simp: writes_tuple_def)
  then have "wholds s t r \<and> r \<in> rids s"
  proof cases
    case wb
    then show ?thesis using ok by (auto simp: evicted_ok_def writes_def wholds_def)
  next
    case new
    then show ?thesis using ok by (auto simp: writes_def wholds_def)
  next
    case field
    then show ?thesis
      using borrows_owner [OF assms(1) field(1,2)] borrows_guard(3) [OF assms(1) field(1,3)] by simp
  qed
  then show "wholds s t r" "r \<in> rids s" by simp_all
qed

lemma reads_tuple_guard:
  assumes "conc_inv S n tsz csz T s" "reads_tuple s t r"
  shows "guarded s t r"
proof (cases "\<exists>r' q. borrows s t r' q \<and> qv_tuple q = Some r")
  case True
  then show ?thesis using borrows_guard(1,3) [OF assms(1)] by blast
next
  case False
  then show ?thesis using assms(2) by (auto simp: reads_tuple_def guarded_def)
qed

text \<open>How many accesses of its own a thread needs at most to finish what it is doing.\<close>

fun rank :: "cpc \<Rightarrow> nat" where
  "rank Rest = 0"
| "rank (Finish j x) = 1"
| "rank (Release j i c) = 2"
| "rank (Back j i ev) = 3"
| "rank (Linked j i ev) = 4"
| "rank (Linking j i ev) = 5"
| "rank (Filled j i ev) = 6"
| "rank (Swap j i c) = 7"
| "rank (Claimed j i) = 7"
| "rank (Detaching j i c) = 8"
| "rank (Detach j i c) = 9"
| "rank (Probing j k) = 10 + 6 * k"
| "rank (Unlock j k c) = 11 + 6 * k"
| "rank (Clearing j k i m) = 11 + 6 * k"
| "rank (Validate j k i c) = 12 + 6 * k"
| "rank (Trying j k i c) = 13 + 6 * k"
| "rank (Evict j k i c) = 14 + 6 * k"
| "rank (Seen j k i c) = 15 + 6 * k"

lemma rank_decreases: "conc_step S n pl tsz proper t s lbl s' \<Longrightarrow> cpcs s t \<noteq> Rest \<Longrightarrow> rank (cpcs s' t) < rank (cpcs s t)"
  by (erule conc_step.cases) simp_all

lemma conc_put_cpcs: "conc_put S q f v s = Inr s' \<Longrightarrow> cpcs s' = cpcs s"
  by (auto simp: conc_put_def split: sum.splits place.splits option.splits)

lemma rank_start: "conc_step S n pl tsz proper t s lbl s' \<Longrightarrow> cpcs s t = Rest \<Longrightarrow> rank (cpcs s' t) \<le> 10 + 6 * pl"
  by (erule conc_step.cases) (simp_all add: conc_put_cpcs)

lemma rank_others: "conc_step S n pl tsz proper t s lbl s' \<Longrightarrow> u \<noteq> t \<Longrightarrow> cpcs s' u = cpcs s u"
  by (erule conc_step.cases) (simp_all add: conc_put_cpcs)

lemma rank_bound:
  assumes "conc_init tsz s0" "conc_run S n pl tsz proper T s0 ls s"
  shows "rank (cpcs s u) \<le> 10 + 6 * pl"
  using assms(2)
proof induction
  case run_start
  show ?case using assms(1) by (simp add: conc_init_def)
next
  case (run_step ls s' t lbl s'')
  show ?case
  proof (cases "u = t")
    case True
    then show ?thesis
      using rank_decreases [OF run_step(3)] rank_start [OF run_step(3)] run_step.IH by (cases "cpcs s' t = Rest") force+
  qed (use rank_others [OF run_step(3)] run_step.IH in simp)
qed


text \<open>
  A thread in a call is in the middle of at most one lock operation, that of its own next access, so
  its next access is always possible.
\<close>

fun busy :: "cpc \<Rightarrow> Rid \<Rightarrow> bool" where
  "busy (Trying j k i c) r = (r = c)"
| "busy p r = stores p r"

definition calm :: "conc \<Rightarrow> tid \<Rightarrow> bool" where
  "calm s t \<longleftrightarrow> cpcs s t = Rest \<or> (\<forall>r\<in>rids s. pcs (locks s r) t \<in> {Idle, Reading, Writing} \<or> busy (cpcs s t) r)"

lemma calm_goto:
  "calm s t \<Longrightarrow> cpcs s t \<noteq> Rest \<Longrightarrow> (\<And>r. busy (cpcs s t) r \<Longrightarrow> busy p r) \<Longrightarrow> rids s' = rids s \<Longrightarrow> locks s' = locks s \<Longrightarrow>
     calm (goto t p s') t"
  by (auto simp: calm_def)

lemma calm_lock:
  "calm s t \<Longrightarrow> cpcs s t \<noteq> Rest \<Longrightarrow> (\<And>r. busy (cpcs s t) r \<Longrightarrow> r = c) \<Longrightarrow>
     pcs l t \<in> {Idle, Reading, Writing} \<or> busy p c \<Longrightarrow> calm (goto t p (set_lock c l s)) t"
  by (auto simp: calm_def)

lemma calm_step:
  assumes few: "few T" and laws: "schema_laws S tsz csz proper" and inv: "conc_inv S n tsz csz T s"
    and "calm s u" and step: "conc_step S n pl tsz proper t s lbl s'"
  shows "calm s' u"
proof (cases "u = t")
  case False
  note fr = conc_step_frame [OF few laws inv step]
  show ?thesis
    using assms(4) frameD(2,4,5) [OF fr False] unfolding calm_def by (metis insertCI)
next
  case True
  note ok = conc_invD(6) [OF inv, of t] and c = assms(4) [unfolded True]
  from step have "calm s' t"
  proof cases
    case (detach_end j i c l)
    then have "pcs l t = Writing"
      using ok lock_one_storing [OF detach_end(4)] by auto
    then show ?thesis unfolding detach_end(2) by (intro calm_lock [OF c]) (simp_all add: detach_end(3))
  next
    case (link_end j i ev l)
    then have "pcs l t = Writing"
      using ok lock_one_storing [OF link_end(4)] by auto
    then show ?thesis unfolding link_end(2) by (intro calm_lock [OF c]) (simp_all add: link_end(3))
  next
    case put_ok then show ?thesis using conc_put_cpcs [OF put_ok(8)] by (simp add: calm_def)
  qed (use c in \<open>auto simp: calm_def conc_settled_def\<close>)
  then show ?thesis using True by simp
qed

lemma calm_run:
  assumes "few T" "schema_laws S tsz csz proper" "n \<le> 4294967296" "conc_init tsz s0"
    and "conc_run S n pl tsz proper T s0 ls s"
  shows "calm s u"
  using assms(5)
proof induction
  case run_start
  show ?case using assms(4) by (simp add: conc_init_def calm_def)
next
  case (run_step ls s' t lbl s'')
  then show ?case using calm_step [OF assms(1,2) conc_inv_run [OF assms(1-4)]] by blast
qed


lemma lock_op_possible:
  assumes "lock_inv T (locks s c)" "few T"
  shows "pcs (locks s c) t = Idle \<Longrightarrow> \<exists>l v. lock_step {t} (locks s c) l \<and> pcs l t = Try_Write v"
    "pcs (locks s c) t = Writing \<Longrightarrow> \<exists>l. lock_step {t} (locks s c) l \<and> pcs l t = Idle"
    "pcs (locks s c) t = Writing \<Longrightarrow> \<exists>l v. lock_step {t} (locks s c) l \<and> pcs l t = Storing_Rid x v"
    "pcs (locks s c) t = Writing \<Longrightarrow> y < 4294967296 \<Longrightarrow> \<exists>l v. lock_step {t} (locks s c) l \<and> pcs l t = Storing_Index y v"
    "pending_store (pcs (locks s c) t) \<noteq> None \<Longrightarrow> \<exists>l. lock_step {t} (locks s c) l"
    "pcs (locks s c) t = Try_Write v \<Longrightarrow> \<exists>l. lock_step {t} (locks s c) l \<and> pcs l t \<in> {Writing, Idle}"
    "pcs (locks s c) t \<in> {Reading, Writing} \<Longrightarrow> \<exists>e w. try_write spur (cell (locks s c)) (cell (locks s c)) = (Inl e, w)"
proof -
  let ?l = "locks s c"
  show "\<exists>l v. lock_step {t} ?l l \<and> pcs l t = Try_Write v" if "pcs ?l t = Idle"
    using call_try_write [of t "{t}" ?l] that by fastforce
  show "\<exists>l. lock_step {t} ?l l \<and> pcs l t = Idle" if "pcs ?l t = Writing"
    using drop_write [of t "{t}" ?l] that by fastforce
  show "\<exists>l v. lock_step {t} ?l l \<and> pcs l t = Storing_Rid x v" if "pcs ?l t = Writing"
    using call_store_rid [of t "{t}" ?l x] that by fastforce
  show "\<exists>l v. lock_step {t} ?l l \<and> pcs l t = Storing_Index y v" if "pcs ?l t = Writing" "y < 4294967296"
    using call_store_index [of t "{t}" ?l y] that by fastforce
  show "\<exists>l. lock_step {t} ?l l" if "pending_store (pcs ?l t) \<noteq> None"
    using that end_store_rid [of t "{t}" ?l] end_store_index [of t "{t}" ?l] by (cases "pcs ?l t") fastforce+
  show "\<exists>l. lock_step {t} ?l l \<and> pcs l t \<in> {Writing, Idle}" if "pcs ?l t = Try_Write v"
  proof (cases "try_write False v (cell ?l)")
    case (Pair z w)
    then show ?thesis
      using try_write_ok [of t "{t}" ?l v False _ w] try_write_err [of t "{t}" ?l v False _ w] that
      by (cases z) fastforce+
  qed
  show "\<exists>e w. try_write spur (cell ?l) (cell ?l) = (Inl e, w)" if "pcs ?l t \<in> {Reading, Writing}"
  proof -
    have "lock_byte (cell ?l) \<noteq> 0"
      using that inv_writer(3) [OF assms(1), of t] inv_reader(3) [OF assms(2,1), of t] by auto
    then show ?thesis by (simp add: try_write_eq)
  qed
qed

lemma exchange_cases:
  "\<exists>u w. compare_exchange_weak spur x y z = (Inl u, w) \<or> compare_exchange_weak spur x y z = (Inr u, w)"
  by (metis sumE surj_pair)

lemma clear_cases: "\<exists>m'. clear_if_set m m = (True, m') \<or> clear_if_set m m = (False, m')"
  by (metis (full_types) surj_pair)

lemma search_possible:
  assumes few: "few T" and inv: "conc_inv S n tsz csz T s" and "0 < n" and calm: "calm s t" and "10 \<le> rank (cpcs s t)"
  shows "\<exists>lbl s'. conc_step S n pl tsz proper t s lbl s'"
proof -
  note ok = conc_invD(6) [OF inv, of t]
  note possible = lock_op_possible [OF conc_invD(1) [OF inv] few]
  show ?thesis
  proof (cases "cpcs s t")
    case (Probing j k)
    then show ?thesis
      using assms(3) by (cases k) (blast intro: give_up next_slot)+
  next
    case (Seen j k i c)
    then show ?thesis
      using exchange_cases [of False "node_rid (slots s i)" c "as_u32 (j_row j)"] clear_cases [of "node_meta (slots s i)"]
      by (cases "c = U32_MAX") (blast intro: claim_ok claim_err referenced unreferenced)+
  next
    case (Clearing j k i m) then show ?thesis by (blast intro: clear_store)
  next
    case (Evict j k i c)
    then have "c \<in> rids s" "pcs (locks s c) t \<in> {Idle, Reading, Writing}"
      using ok calm by (auto simp: calm_def)
    then show ?thesis
      using Evict possible(1,7) [of c t] by (cases "pcs (locks s c) t = Idle") (blast intro: evict_call evict_own)+
  next
    case (Trying j k i c)
    then obtain v where "c \<in> rids s" "pcs (locks s c) t = Try_Write v"
      using ok by auto
    then show ?thesis using Trying possible(6) by (blast intro: try_ok try_err)
  next
    case (Validate j k i c)
    then show ?thesis
      using exchange_cases [of False "node_rid (slots s i)" "as_u32 c" "as_u32 c"] by (blast intro: valid_ok valid_err)
  next
    case (Unlock j k c)
    then show ?thesis using ok possible(2) [of c t] by (auto simp: writes_def intro: unlock)
  qed (use assms(5) in simp_all)
qed

lemma replace_possible:
  assumes few: "few T" and inv: "conc_inv S n tsz csz T s" and n: "n \<le> 4294967296"
    and "0 < rank (cpcs s t)" "rank (cpcs s t) < 10"
  shows "\<exists>lbl s'. conc_step S n pl tsz proper t s lbl s'"
proof -
  note ok = conc_invD(6) [OF inv, of t]
  note possible = lock_op_possible [OF conc_invD(1) [OF inv] few]
  show ?thesis
  proof (cases "cpcs s t")
    case (Detach j i c)
    then show ?thesis using ok possible(3) [of c t] by (fastforce simp: writes_def intro: detach_call)
  next
    case (Detaching j i c)
    then show ?thesis using ok possible(5) [of c t] by (fastforce intro: detach_end)
  next
    case (Swap j i c) then show ?thesis by (blast intro: swap)
  next
    case (Claimed j i) then show ?thesis by (blast intro: fill)
  next
    case (Filled j i ev)
    have "(of_nat i :: usize) < 4294967296"
      using ok Filled n by (simp add: own_slot_def word_less_nat_alt unat_of_nat take_bit_nat_eq_self_iff)
    then show ?thesis
      using Filled ok possible(4) [of "j_row j" t "of_nat i"] by (fastforce simp: searching_def writes_def intro: link_call)
  next
    case (Linking j i ev)
    then show ?thesis using ok possible(5) [of "j_row j" t] by (fastforce intro: link_end)
  next
    case (Linked j i ev) then show ?thesis by (blast intro: touch_new)
  next
    case (Back j i ev) then show ?thesis by (cases ev) (blast intro: back_none back_some)+
  next
    case (Release j i c)
    then show ?thesis using ok possible(2) [of c t] by (auto simp: writes_def intro: release)
  next
    case (Finish j x) then show ?thesis by (cases "j_tuple j") (blast intro: finish_promote finish_insert)+
  qed (use assms(4,5) in simp_all)
qed

text \<open>
  Thread \<open>t\<close> is back from its call after at most \<open>k\<close> more accesses of its own: whatever the other
  threads do in between, its next access is possible, and whatever its outcome, \<open>k - 1\<close> more are
  enough.
\<close>

primrec returns_within ::
  "Schema \<Rightarrow> nat \<Rightarrow> nat \<Rightarrow> nat \<Rightarrow> (Field \<Rightarrow> bool) \<Rightarrow> tid set \<Rightarrow> tid \<Rightarrow> nat \<Rightarrow> conc \<Rightarrow> bool" where
  "returns_within S n pl tsz proper T t 0 s \<longleftrightarrow> cpcs s t = Rest"
| "returns_within S n pl tsz proper T t (Suc k) s \<longleftrightarrow> cpcs s t = Rest
     \<or> (\<forall>ls s1. conc_run S n pl tsz proper (T - {t}) s ls s1 \<longrightarrow>
          (\<exists>lbl s2. conc_step S n pl tsz proper t s1 lbl s2)
          \<and> (\<forall>lbl s2. conc_step S n pl tsz proper t s1 lbl s2 \<longrightarrow> returns_within S n pl tsz proper T t k s2))"

lemma conc_run_sub: "conc_run S n pl tsz proper T' s ls s' \<Longrightarrow> T' \<subseteq> T \<Longrightarrow> conc_run S n pl tsz proper T s ls s'"
  by (induction rule: conc_run.induct) (auto intro: conc_run.intros)

lemma conc_run_others: "conc_run S n pl tsz proper (T - {t}) s ls s' \<Longrightarrow> cpcs s' t = cpcs s t"
  by (induction rule: conc_run.induct) (simp, metis DiffD2 rank_others singletonI)

lemma conc_run_append:
  "conc_run S n pl tsz proper T s1 ls2 s2 \<Longrightarrow> conc_run S n pl tsz proper T s ls1 s1 \<Longrightarrow>
     conc_run S n pl tsz proper T s (ls1 @ ls2) s2"
  by (induction rule: conc_run.induct) (auto intro: run_step simp flip: append_assoc)

lemma returns_within_rank:
  assumes few: "few T" and laws: "schema_laws S tsz csz proper" and n: "0 < n" "n \<le> 4294967296"
    and init: "conc_init tsz s0" and t: "t \<in> T"
  shows "conc_run S n pl tsz proper T s0 ls s \<Longrightarrow> rank (cpcs s t) \<le> k \<Longrightarrow> returns_within S n pl tsz proper T t k s"
proof (induction k arbitrary: ls s)
  case 0
  then show ?case by (cases "cpcs s t") simp_all
next
  case (Suc k)
  have "(\<exists>lbl s2. conc_step S n pl tsz proper t s1 lbl s2)
      \<and> (\<forall>lbl s2. conc_step S n pl tsz proper t s1 lbl s2 \<longrightarrow> returns_within S n pl tsz proper T t k s2)"
    if busy: "cpcs s t \<noteq> Rest" and "conc_run S n pl tsz proper (T - {t}) s ks s1" for ks s1
  proof -
    have run: "conc_run S n pl tsz proper T s0 (ls @ ks) s1"
      using conc_run_append [OF conc_run_sub [OF that(2)] Suc.prems(1)] by blast
    have pc: "cpcs s1 t = cpcs s t"
      by (rule conc_run_others [OF that(2)])
    note inv = conc_inv_run [OF few laws n(2) init run]
    have "0 < rank (cpcs s1 t)"
      using busy pc by (cases "cpcs s t") simp_all
    then have "\<exists>lbl s2. conc_step S n pl tsz proper t s1 lbl s2"
      using search_possible [OF few inv n(1) calm_run [OF few laws n(2) init run]] replace_possible [OF few inv n(2)]
      by (meson not_le)
    moreover have "returns_within S n pl tsz proper T t k s2" if "conc_step S n pl tsz proper t s1 lbl s2" for lbl s2
      using rank_decreases [OF that] busy pc Suc.prems(2) by (intro Suc.IH [OF run_step [OF run t that]]) simp
    ultimately show ?thesis by blast
  qed
  then show ?case by auto
qed


subsection \<open>A sample run\<close>

text \<open>Thread 1 inserts row 7 and gets the empty slot 0.\<close>

definition sample_tuple :: bytes where
  "sample_tuple = replicate 128 1"

definition sample_start :: conc where
  "sample_start = \<lparr> rids = {}, locks = (\<lambda>r. init_sys r),
     slots = (\<lambda>_. \<lparr> node_rid = U32_MAX, node_meta = 0, node_val = replicate 32 0 \<rparr>),
     tuples = (\<lambda>_. replicate 128 0), held = (\<lambda>_ _. None), cpcs = (\<lambda>_. Rest) \<rparr>"

abbreviation sample_schema :: Schema where
  "sample_schema \<equiv> item_schema TEST_FIELDS"

abbreviation sample_proper :: "Field \<Rightarrow> bool" where
  "sample_proper \<equiv> \<lambda>f. f \<in> word_field ` {..<16}"

definition sample_job :: job where
  "sample_job = Job (from_u32 7) (to_cached sample_schema sample_tuple) (Some sample_tuple)"

definition sample_word :: LockedOid where
  "sample_word = from_rid (from_u32 7) OR LOCK_WRITER"

definition sample_lock :: lock_sys where
  "sample_lock = \<lparr> cell = sample_word, pcs = (\<lambda>_. Idle)(1 := Writing) \<rparr>"

definition sample_begun :: conc where
  "sample_begun = goto 1 (Probing sample_job 2) (set_lock (from_u32 7) sample_lock (sample_start\<lparr> rids := {from_u32 7} \<rparr>))"

definition sample_seen :: conc where
  "sample_seen = goto 1 (Seen sample_job 1 0 U32_MAX) sample_begun"

definition sample_claimed :: conc where
  "sample_claimed = goto 1 (Claimed sample_job 0) (set_slot 0 ((slots sample_seen 0)\<lparr> node_rid := 7 \<rparr>) sample_seen)"

definition sample_filled :: conc where
  "sample_filled = goto 1 (Filled sample_job 0 None)
     (set_slot 0 (node_new (j_item sample_job) (j_row sample_job)) sample_claimed)"

definition sample_linking :: conc where
  "sample_linking = goto 1 (Linking sample_job 0 None)
     (set_lock (j_row sample_job) (go sample_lock 1 (Storing_Index (of_nat 0) sample_word) sample_word) sample_filled)"

definition sample_linked :: conc where
  "sample_linked = goto 1 (Linked sample_job 0 None)
     (set_lock (j_row sample_job) (go (locks sample_linking (j_row sample_job)) 1 Writing (store_index (of_nat 0) sample_word))
       sample_linking)"

lemmas conc_sample_defs = sample_start_def sample_begun_def sample_seen_def sample_claimed_def sample_filled_def
  sample_linking_def sample_linked_def sample_job_def sample_lock_def

lemma sample_init: "conc_init 128 sample_start"
  by (simp add: conc_init_def sample_start_def)

lemma sample_laws: "schema_laws sample_schema 128 32 sample_proper"
  using test_schema_laws by (simp add: TEST_FIELDS_def)

abbreviation sample_step :: "conc \<Rightarrow> label \<Rightarrow> conc \<Rightarrow> bool" where
  "sample_step \<equiv> conc_step sample_schema 4 2 128 sample_proper 1"

lemma sample_step_begun: "sample_step sample_start (Lock_Op 1 (from_u32 7)) sample_begun"
  using insert_row [of sample_start 1 "from_u32 7" sample_tuple 128 sample_schema 4 2 sample_proper]
  by (simp add: conc_sample_defs sample_word_def conc_settled_def from_u32_def U32_MAX_def sample_tuple_def)

lemma sample_step_seen: "sample_step sample_begun Tau sample_seen"
  using next_slot [of sample_begun 1 sample_job 1 0 4 sample_schema 2 128 sample_proper]
  by (simp add: conc_sample_defs numeral_2_eq_2)

lemma sample_step_claimed: "sample_step sample_seen Tau sample_claimed"
  using claim_ok [of sample_seen 1 sample_job 1 0 U32_MAX False U32_MAX 7 sample_schema 4 2 128 sample_proper]
  by (simp add: conc_sample_defs atomic_simps from_u32_def)

lemma sample_step_filled: "sample_step sample_claimed Tau sample_filled"
  using fill [of sample_claimed 1 sample_job 0 sample_schema 4 2 128 sample_proper]
  by (simp add: sample_claimed_def sample_filled_def)

lemma sample_step_linking: "sample_step sample_filled (Lock_Op 1 (from_u32 7)) sample_linking"
  using link_call [of sample_filled 1 sample_job 0 None
      "go sample_lock 1 (Storing_Index (of_nat 0) sample_word) sample_word" sample_word sample_schema 4 2 128 sample_proper]
    call_store_index [of 1 "{1}" sample_lock 0]
  by (simp add: conc_sample_defs)

lemma sample_step_linked: "sample_step sample_linking (Lock_Op 1 (from_u32 7)) sample_linked"
  using link_end [of sample_linking 1 sample_job 0 None _ sample_schema 4 2 128 sample_proper,
      OF _ end_store_index [of 1 "{1}" _ 0 sample_word]]
  by (simp add: sample_linked_def) (simp add: conc_sample_defs)


definition sample_done :: conc where
  "sample_done = goto 1 Rest (set_tuple (j_row sample_job) sample_tuple
     (goto 1 (Finish sample_job (Slot 0)) (goto 1 (Back sample_job 0 None) sample_linked)))"

lemma sample_job_parts: "j_row sample_job = from_u32 7" "j_tuple sample_job = Some sample_tuple"
  by (simp_all add: sample_job_def)

abbreviation sample_run :: "label list \<Rightarrow> conc \<Rightarrow> bool" where
  "sample_run \<equiv> conc_run sample_schema 4 2 128 sample_proper {1, 2} sample_start"

lemma sample_begun_run: "sample_run [Lock_Op 1 (from_u32 7)] sample_begun"
  using run_step [OF run_start _ sample_step_begun, of "{1, 2}"] by simp

lemma sample_claimed_run: "sample_run [Lock_Op 1 (from_u32 7), Tau, Tau] sample_claimed"
  using run_step [OF run_step [OF sample_begun_run _ sample_step_seen] _ sample_step_claimed] by simp

lemma sample_linked_run:
  "sample_run [Lock_Op 1 (from_u32 7), Tau, Tau, Tau, Lock_Op 1 (from_u32 7), Lock_Op 1 (from_u32 7)] sample_linked"
  using run_step [OF run_step [OF run_step [OF sample_claimed_run _ sample_step_filled] _ sample_step_linking]
      _ sample_step_linked] by simp

lemma sample_done_run:
  "sample_run [Lock_Op 1 (from_u32 7), Tau, Tau, Tau, Lock_Op 1 (from_u32 7), Lock_Op 1 (from_u32 7), Tau, Tau,
     New_Row 1 (from_u32 7) sample_tuple] sample_done"
proof -
  let ?b = "goto 1 (Back sample_job 0 None) sample_linked" and ?f = "goto 1 (Finish sample_job (Slot 0))"
  have b: "sample_step sample_linked Tau ?b"
    using touch_new [of sample_linked 1 sample_job 0 None sample_schema 4 2 128 sample_proper False]
    by (simp add: sample_linked_def touch_def)
  have f: "sample_step ?b Tau (?f ?b)"
    using back_none [of ?b 1 sample_job 0 sample_schema 4 2 128 sample_proper] by simp
  have d: "sample_step (?f ?b) (New_Row 1 (from_u32 7) sample_tuple) sample_done"
    using finish_insert [of "?f ?b" 1 sample_job "Slot 0" sample_tuple sample_schema 4 2 128 sample_proper]
    by (simp add: sample_done_def sample_job_parts)
  show ?thesis
    using run_step [OF run_step [OF run_step [OF sample_linked_run _ b] _ f] _ d] by simp
qed

text \<open>
  C4: the concurrent cache implements rows with a value and a reader-writer lock. Whatever the
  threads do, in whatever order their single accesses come, what the run shows (locks taken and
  released, fields read and written with their bytes, rows inserted) is a run of the abstract
  system, in which caching, promotion, eviction and write-back do not exist; in particular a
  field read under a guard yields the bytes last written and no access fails.
\<close>

theorem concurrent_cache_refines:
  assumes "finite T" and "card T < 128" and "schema_laws S tsz csz proper" and "n \<le> 2 ^ 32"
    and "conc_init tsz s0" and "conc_run S n pl tsz proper T s0 ls s"
  shows "cspec_run ls (conc_abs S s)"
  using conc_run_refines [OF _ assms(3) _ assms(5,6)] assms(1,2,4) by (simp add: few_def)

theorem concurrent_cache_refines_witness:
  "cspec_run [Lock_Op 1 (from_u32 7), Tau, Tau, Tau, Lock_Op 1 (from_u32 7), Lock_Op 1 (from_u32 7), Tau, Tau,
     New_Row 1 (from_u32 7) sample_tuple] (conc_abs (item_schema TEST_FIELDS) sample_done)"
  using concurrent_cache_refines [OF _ _ sample_laws _ sample_init sample_done_run] by simp

text \<open>
  C5: the plain (non-atomic) accesses to cached items and tuples never race: while a thread may
  write the item of a slot, or a tuple, no other thread may read or write it. The clock hand, the
  reference bits and the row ids of the slots, which all threads access, are atomic in the code.
\<close>

theorem concurrent_race_free:
  assumes "finite T" and "card T < 128" and "schema_laws S tsz csz proper" and "n \<le> 2 ^ 32"
    and "conc_init tsz s0" and "conc_run S n pl tsz proper T s0 ls s" and "u \<noteq> t"
  shows "(writes_item s t i \<longrightarrow> \<not> writes_item s u i \<and> \<not> reads_item s u i)
    \<and> (writes_tuple s t r \<longrightarrow> \<not> writes_tuple s u r \<and> \<not> reads_tuple s u r)"
proof -
  have inv: "conc_inv S n tsz csz T s"
    using conc_inv_run [OF _ assms(3) _ assms(5,6)] assms(1,2,4) by (simp add: few_def)
  note excl = wholds_excl [OF inv _ _ assms(7)]
  have guard: "guarded s u x" if "wholds s u x" "x \<in> rids s" for x
    using that by (simp add: guarded_def wholds_def)
  have "\<not> writes_item s u i \<and> \<not> reads_item s u i" if "writes_item s t i"
    using writes_item_owner [OF inv that] writes_item_owner [OF inv, of u i] reads_item_guard [OF inv, of u i]
      excl guard by (metis Rid_eq_iff)
  moreover have "\<not> writes_tuple s u r \<and> \<not> reads_tuple s u r" if "writes_tuple s t r"
    using writes_tuple_owner [OF inv that] writes_tuple_owner [OF inv, of u r] reads_tuple_guard [OF inv, of u r]
      excl guard by blast
  ultimately show ?thesis by blast
qed

theorem concurrent_race_free_witness:
  "writes_item sample_claimed 1 0 \<and> \<not> writes_item sample_claimed 2 0 \<and> \<not> reads_item sample_claimed 2 0"
proof -
  have "writes_item sample_claimed 1 0"
    by (simp add: writes_item_def sample_claimed_def)
  then show ?thesis
    using concurrent_race_free [OF _ _ sample_laws _ sample_init sample_claimed_run, of 2 1 0] by simp
qed



end
