(* ===== verification/Executor.thy ===== *)
theory Executor
  imports Heap_Array
begin

text \<open>
  \<^verbatim>\<open>src/async_task\<close>: futures, the single-task executor \<^verbatim>\<open>block_on\<close> and the batch executor. A future is a
  state with a poll function; the waker does nothing and has no counterpart. Loops that may run
  forever return \<^const>\<open>None\<close> when they do.
\<close>

section \<open>Definitions\<close>

datatype 'o Poll = Ready 'o | Pending

text \<open>The futures of \<^verbatim>\<open>prefetcher.rs\<close> and \<^verbatim>\<open>task_switcher.rs\<close>; prefetching itself has no effect.\<close>

record Prefetcher =
  is_first_poll :: bool

definition fetch_ptr_n :: "addr \<Rightarrow> nat \<Rightarrow> Prefetcher" where
  "fetch_ptr_n ptr sz = \<lparr> is_first_poll = True \<rparr>"

definition fetch :: "addr \<Rightarrow> nat \<Rightarrow> Prefetcher" where
  "fetch reference sz = fetch_ptr_n reference sz"

definition prefetcher_poll :: "Prefetcher \<Rightarrow> unit Poll \<times> Prefetcher" where
  "prefetcher_poll p = (if is_first_poll p then (Pending, p\<lparr> is_first_poll := False \<rparr>) else (Ready (), p))"

record 'a PrefetchRef =
  pref_value :: 'a
  fetched :: bool

definition prefetch_ref_new :: "'a \<Rightarrow> 'a PrefetchRef" where
  "prefetch_ref_new r = \<lparr> pref_value = r, fetched = False \<rparr>"

definition prefetch_ref_poll :: "'a PrefetchRef \<Rightarrow> 'a Poll \<times> 'a PrefetchRef" where
  "prefetch_ref_poll p = (if \<not> fetched p then (Pending, p\<lparr> fetched := True \<rparr>) else (Ready (pref_value p), p))"

record DummySwitcher =
  remaining :: nat

definition switcher_new :: "nat \<Rightarrow> DummySwitcher" where
  "switcher_new n = \<lparr> remaining = n \<rparr>"

definition switcher_poll :: "DummySwitcher \<Rightarrow> unit Poll \<times> DummySwitcher" where
  "switcher_poll d = (if remaining d = 0 then (Ready (), d) else (Pending, d\<lparr> remaining := remaining d - 1 \<rparr>))"

partial_function (option) block_on :: "('f \<Rightarrow> 'o Poll \<times> 'f) \<Rightarrow> 'f \<Rightarrow> 'o option" where
  "block_on poll task =
     (case poll task of (Ready out, _) \<Rightarrow> Some out | (Pending, task1) \<Rightarrow> block_on poll task1)"

record 'f Executor =
  task_queue :: "'f option list"

definition executor_new :: "nat \<Rightarrow> 'f Executor" where
  "executor_new N = \<lparr> task_queue = replicate N None \<rparr>"

fun spawn_loop :: "nat \<Rightarrow> nat \<Rightarrow> 'f \<Rightarrow> 'f option list \<Rightarrow> 'f option list option" where
  "spawn_loop i 0 task q = None"
| "spawn_loop i (Suc n) task q = (if q ! i = None then Some (q[i := Some task]) else spawn_loop (i + 1) n task q)"

text \<open>\<^verbatim>\<open>spawn\<close> takes the first free place; without one it panics.\<close>

definition spawn :: "'f \<Rightarrow> 'f Executor \<Rightarrow> 'f Executor outcome" where
  "spawn task E =
     (case spawn_loop 0 (length (task_queue E)) task (task_queue E) of
        Some q \<Rightarrow> Done (E\<lparr> task_queue := q \<rparr>) | None \<Rightarrow> Panic)"

text \<open>
  The loop of \<^verbatim>\<open>run_ready_tasks\<close>. The counter of ready tasks has 8 bits; \<open>output\<close> holds the values written
  so far, \<^const>\<open>None\<close> for memory that is still uninitialised. An index beyond the queue panics.
\<close>

definition poll_at :: "('f \<Rightarrow> 'o Poll \<times> 'f) \<Rightarrow> nat \<Rightarrow> u8 \<Rightarrow> 'f option list \<Rightarrow> 'o option list
    \<Rightarrow> u8 \<times> 'f option list \<times> 'o option list" where
  "poll_at poll pos ready q out =
     (case q ! pos of
        None \<Rightarrow> (ready, q, out)
      | Some task \<Rightarrow>
          (case poll task of
             (Ready v, _) \<Rightarrow> (ready + 1, q[pos := None], out[pos := Some v])
           | (Pending, task1) \<Rightarrow> (ready, q[pos := Some task1], out)))"

partial_function (option) run_loop ::
  "('f \<Rightarrow> 'o Poll \<times> 'f) \<Rightarrow> nat \<Rightarrow> nat \<Rightarrow> u8 \<Rightarrow> 'f option list \<Rightarrow> 'o option list \<Rightarrow> ('o option list \<times> 'f option list) outcome option"
  where
  "run_loop poll N pos ready q out =
     (if \<not> pos < length q then Some Panic
      else
        let (ready1, q1, out1) = poll_at poll pos ready q out
        in if ready1 = of_nat N then Some (Done (out1, q1))
           else run_loop poll N ((pos + 1) mod N) ready1 q1 out1)"

definition run_ready_tasks :: "('f \<Rightarrow> 'o Poll \<times> 'f) \<Rightarrow> 'f Executor \<Rightarrow> ('o option list \<times> 'f Executor) outcome option" where
  "run_ready_tasks poll E =
     (let N = length (task_queue E)
      in case run_loop poll N 0 0 (task_queue E) (replicate N None) of
           None \<Rightarrow> None
         | Some (Done (out, q)) \<Rightarrow> Some (Done (out, E\<lparr> task_queue := q \<rparr>))
         | Some (Fail e) \<Rightarrow> Some (Fail e)
         | Some Panic \<Rightarrow> Some Panic)"

section \<open>Futures that complete\<close>

locale completing =
  fixes poll :: "'f \<Rightarrow> 'o Poll \<times> 'f" and rank :: "'f \<Rightarrow> nat"
  assumes rank_less: "poll f = (Pending, f') \<Longrightarrow> rank f' < rank f"
begin

lemma block_on_returns: "\<exists>v. block_on poll f = Some v"
proof (induction "rank f" arbitrary: f rule: less_induct)
  case less
  obtain x f' where p: "poll f = (x, f')"
    by (cases "poll f")
  show ?case
  proof (cases x)
    case (Ready v)
    then show ?thesis using p by (subst block_on.simps) simp
  next
    case Pending
    then show ?thesis
      using p less [of f'] rank_less [of f f'] by (subst block_on.simps) simp
  qed
qed

end

interpretation prefetcher: completing prefetcher_poll "\<lambda>p. if is_first_poll p then 1 else 0"
  by unfold_locales (auto simp: prefetcher_poll_def split: if_splits)

interpretation prefetch_ref: completing prefetch_ref_poll "\<lambda>p. if fetched p then 0 else 1"
  by unfold_locales (auto simp: prefetch_ref_poll_def split: if_splits)

interpretation switcher: completing switcher_poll remaining
  by unfold_locales (auto simp: switcher_poll_def split: if_splits)

lemma block_on_simps:
  "poll f = (Ready v, f') \<Longrightarrow> block_on poll f = Some v"
  "poll f = (Pending, f') \<Longrightarrow> block_on poll f = block_on poll f'"
  by (subst block_on.simps, simp)+

section \<open>The batch executor\<close>

definition live :: "'f option list \<Rightarrow> nat" where
  "live q = length (filter (\<lambda>x. x \<noteq> None) q)"

definition work :: "('f \<Rightarrow> nat) \<Rightarrow> 'f option list \<Rightarrow> nat" where
  "work rank q = sum_list (map (\<lambda>x. case x of None \<Rightarrow> 0 | Some f \<Rightarrow> Suc (rank f)) q)"

text \<open>A place is still running towards the output of its task, or has that output.\<close>

definition on_track :: "('f \<Rightarrow> 'o Poll \<times> 'f) \<Rightarrow> 'f list \<Rightarrow> 'f option list \<Rightarrow> 'o option list \<Rightarrow> bool" where
  "on_track poll fs q out \<longleftrightarrow> length q = length fs \<and> length out = length fs
     \<and> (\<forall>i<length fs. case q ! i of None \<Rightarrow> out ! i = block_on poll (fs ! i) | Some f \<Rightarrow> block_on poll f = block_on poll (fs ! i))"

lemma live_update_None: "i < length q \<Longrightarrow> q ! i \<noteq> None \<Longrightarrow> Suc (live (q[i := None])) = live q"
  unfolding live_def
proof (induction q arbitrary: i)
  case (Cons x q)
  then show ?case by (cases i) auto
qed simp

lemma live_update_Some: "i < length q \<Longrightarrow> q ! i \<noteq> None \<Longrightarrow> live (q[i := Some f]) = live q"
  unfolding live_def
proof (induction q arbitrary: i)
  case (Cons x q)
  then show ?case by (cases i) auto
qed simp

lemma live_le: "live q \<le> length q"
  by (simp add: live_def)

lemma work_update:
  "i < length q \<Longrightarrow> q ! i = Some f \<Longrightarrow>
     (case x of None \<Rightarrow> 0 | Some f \<Rightarrow> Suc (rank f)) < Suc (rank f) \<Longrightarrow> work rank (q[i := x]) < work rank q"
  unfolding work_def
proof (induction q arbitrary: i)
  case (Cons y q)
  then show ?case by (cases i) auto
qed simp

lemma live_zero: "live q = 0 \<Longrightarrow> i < length q \<Longrightarrow> q ! i = None"
  by (auto simp: live_def filter_empty_conv)

lemma live_pos: "0 < live q \<Longrightarrow> \<exists>i<length q. q ! i \<noteq> None"
proof -
  assume "0 < live q"
  then obtain x where "x \<in> set q" "x \<noteq> None"
    by (auto simp: live_def filter_empty_conv)
  then show ?thesis
    by (auto simp: in_set_conv_nth)
qed

text \<open>One poll keeps the tasks on track, and the counter with the live tasks.\<close>

lemma poll_at_track:
  assumes track: "on_track poll fs q out" and pos: "pos < length fs"
    and count: "unat ready + live q = N" "N < 256"
    and step: "poll_at poll pos ready q out = (ready1, q1, out1)"
  shows "on_track poll fs q1 out1" "unat ready1 + live q1 = N"
proof -
  note t = track [unfolded on_track_def]
  consider (empty) "q ! pos = None" | (finished) f v f' where "q ! pos = Some f" "poll f = (Ready v, f')"
    | (more) f f' where "q ! pos = Some f" "poll f = (Pending, f')"
    by (metis option.exhaust Poll.exhaust surj_pair)
  then have "on_track poll fs q1 out1 \<and> unat ready1 + live q1 = N"
  proof cases
    case empty
    then show ?thesis
      using step track count by (simp add: poll_at_def)
  next
    case finished
    have r: "ready1 = ready + 1" "q1 = q[pos := None]" "out1 = out[pos := Some v]"
      using step finished by (simp_all add: poll_at_def)
    have l: "Suc (live q1) = live q"
      using live_update_None [of pos q] t pos finished by (simp add: r)
    then have "unat (ready + 1) = unat ready + 1"
      using count by (simp add: unat_word_ariths)
    then have "unat ready1 + live q1 = N"
      using l count r by simp
    moreover have "block_on poll (fs ! pos) = Some v"
      using t pos finished block_on_simps(1) [of poll f v f'] by force
    then have "on_track poll fs q1 out1"
      using t pos by (auto simp: on_track_def r nth_list_update split: option.splits)
    ultimately show ?thesis by simp
  next
    case more
    have r: "ready1 = ready" "q1 = q[pos := Some f']" "out1 = out"
      using step more by (simp_all add: poll_at_def)
    have "unat ready1 + live q1 = N"
      using live_update_Some [of pos q f'] t pos more count by (simp add: r)
    moreover have "block_on poll f' = block_on poll (fs ! pos)"
      using t pos more block_on_simps(2) [of poll f f'] by force
    then have "on_track poll fs q1 out1"
      using t pos by (auto simp: on_track_def r nth_list_update split: option.splits)
    ultimately show ?thesis by simp
  qed
  then show "on_track poll fs q1 out1" "unat ready1 + live q1 = N"
    by simp_all
qed

lemma run_loop_skip:
  assumes "pos < N" "length q = N" "ready \<noteq> of_nat N"
  shows "(\<forall>j<k. q ! ((pos + j) mod N) = None) \<Longrightarrow> run_loop poll N pos ready q out = run_loop poll N ((pos + k) mod N) ready q out"
proof (induction k)
  case (Suc k)
  let ?p = "(pos + k) mod N"
  have "q ! ?p = None" "?p < length q"
    using Suc.prems assms by auto
  then have "run_loop poll N ?p ready q out = run_loop poll N ((?p + 1) mod N) ready q out"
    using assms(3) by (subst run_loop.simps) (simp add: poll_at_def)
  then show ?case
    using Suc by (simp add: mod_Suc_eq)
qed (use assms(1) in simp)

lemma next_live:
  assumes "0 < live q" "length q = N" "pos < N"
  obtains k where "q ! ((pos + k) mod N) \<noteq> None" "\<forall>j<k. q ! ((pos + j) mod N) = None"
proof -
  obtain i where i: "i < N" "q ! i \<noteq> None"
    using live_pos [OF assms(1)] assms(2) by blast
  have "(pos + (i + N - pos)) mod N = i"
    using i(1) assms(3) by simp
  then have ex: "\<exists>k. q ! ((pos + k) mod N) \<noteq> None"
    using i(2) by metis
  show ?thesis
    using that [of "LEAST k. q ! ((pos + k) mod N) \<noteq> None"] LeastI_ex [OF ex] not_less_Least by blast
qed

lemma on_track_done:
  assumes "on_track poll fs q out" "live q = 0"
  shows "out = map (block_on poll) fs" "q = replicate (length fs) None"
  using assms live_zero [OF assms(2)] by (auto simp: on_track_def intro!: nth_equalityI)

context completing
begin

lemma poll_at_work:
  assumes "pos < length q" "q ! pos \<noteq> None" "poll_at poll pos ready q out = (ready1, q1, out1)"
  shows "work rank q1 < work rank q"
proof -
  obtain f where f: "q ! pos = Some f"
    using assms(2) by blast
  obtain x f' where x: "poll f = (x, f')"
    by (cases "poll f")
  show ?thesis
  proof (cases x)
    case (Ready v)
    then show ?thesis
      using assms(3) f x work_update [OF assms(1) f, where x = None] by (simp add: poll_at_def)
  next
    case Pending
    then show ?thesis
      using assms(3) f x rank_less [of f f'] work_update [OF assms(1) f, where x = "Some f'"] by (simp add: poll_at_def)
  qed
qed

lemma run_loop_returns:
  assumes N: "N = length fs" "N < 256"
  shows "on_track poll fs q out \<Longrightarrow> unat ready + live q = N \<Longrightarrow> 0 < live q \<Longrightarrow> pos < N \<Longrightarrow>
    run_loop poll N pos ready q out = Some (Done (map (block_on poll) fs, replicate N None))"
proof (induction "work rank q" arbitrary: q out ready pos rule: less_induct)
  case less
  note track = less.prems(1)
  have len: "length q = N"
    using track N(1) by (simp add: on_track_def)
  have u: "unat (of_nat N :: u8) = N"
    using N(2) by (simp add: unsigned_of_nat take_bit_eq_mod)
  obtain k where k: "q ! ((pos + k) mod N) \<noteq> None" "\<forall>j<k. q ! ((pos + j) mod N) = None"
    using next_live [OF less.prems(3) len less.prems(4)] by blast
  let ?p = "(pos + k) mod N"
  have "ready \<noteq> of_nat N"
    using u less.prems(2,3) by auto
  note skip = run_loop_skip [OF less.prems(4) len this k(2), of poll out]
  have p: "?p < N"
    using less.prems(4) by simp
  obtain ready1 q1 out1 where s: "poll_at poll ?p ready q out = (ready1, q1, out1)"
    by (cases "poll_at poll ?p ready q out")
  have t: "on_track poll fs q1 out1" "unat ready1 + live q1 = N"
    using poll_at_track [OF track _ less.prems(2) N(2) s] p N(1) by simp_all
  have "work rank q1 < work rank q"
    using poll_at_work [OF _ k(1) s] p len by simp
  note IH = less.hyps [OF this t]
  have "run_loop poll N ?p ready q out = (if ready1 = of_nat N then Some (Done (out1, q1)) else run_loop poll N ((?p + 1) mod N) ready1 q1 out1)"
    using p len s by (subst run_loop.simps) simp
  also have "\<dots> = Some (Done (map (block_on poll) fs, replicate N None))"
  proof (cases "ready1 = of_nat N")
    case True
    then have "live q1 = 0"
      using t(2) u by simp
    then show ?thesis
      using True on_track_done [OF t(1)] N(1) by simp
  next
    case False
    then have "0 < live q1"
      using t(2) word_unat_eq_iff [of ready1 "of_nat N"] u by auto
    then show ?thesis
      using False IH [of "(?p + 1) mod N"] p by simp
  qed
  finally show ?case
    using skip by simp
qed

end

text \<open>Without enough tasks the counter never gets to its goal.\<close>

lemma poll_at_count:
  assumes "pos < length q" "unat ready + live q < 255" "poll_at poll pos ready q out = (ready1, q1, out1)"
  shows "unat ready1 + live q1 = unat ready + live q" "length q1 = length q"
proof -
  consider (empty) "q ! pos = None" | (finished) f v f' where "q ! pos = Some f" "poll f = (Ready v, f')"
    | (more) f f' where "q ! pos = Some f" "poll f = (Pending, f')"
    by (metis option.exhaust Poll.exhaust surj_pair)
  then have "unat ready1 + live q1 = unat ready + live q \<and> length q1 = length q"
  proof cases
    case finished
    then have "Suc (live (q[pos := None])) = live q" "unat (ready + 1) = unat ready + 1"
      using live_update_None [OF assms(1)] assms(2) by (simp_all add: unat_word_ariths)
    then show ?thesis
      using assms(3) finished by (auto simp: poll_at_def)
  next
    case more
    then show ?thesis
      using assms(3) live_update_Some [OF assms(1)] by (auto simp: poll_at_def)
  qed (use assms(3) in \<open>simp add: poll_at_def\<close>)
  then show "unat ready1 + live q1 = unat ready + live q" "length q1 = length q"
    by simp_all
qed

lemma run_loop_stuck:
  assumes "run_loop poll N pos ready q out = Some r"
  shows "\<not> (unat ready + live q < N \<and> N < 256 \<and> length q = N \<and> pos < N)"
proof (rule run_loop.raw_induct [where P = "\<lambda>poll N pos ready q out r. \<not> (unat ready + live q < N \<and> N < 256 \<and> length q = N \<and> pos < N)",
      OF _ assms])
  fix loop poll N pos ready q out r
  assume IH: "\<And>poll N pos ready q out r. loop poll N pos ready q out = Some r \<Longrightarrow>
      \<not> (unat ready + live q < N \<and> N < 256 \<and> length q = N \<and> pos < N)"
    and run: "(if \<not> pos < length q then Some Panic
      else let (ready1, q1, out1) = poll_at poll pos ready q out
        in if ready1 = of_nat N then Some (Done (out1, q1)) else loop poll N ((pos + 1) mod N) ready1 q1 out1) = Some r"
  show "\<not> (unat ready + live q < N \<and> N < 256 \<and> length q = N \<and> pos < N)"
  proof
    assume h: "unat ready + live q < N \<and> N < 256 \<and> length q = N \<and> pos < N"
    obtain ready1 q1 out1 where s: "poll_at poll pos ready q out = (ready1, q1, out1)"
      by (cases "poll_at poll pos ready q out")
    have c: "unat ready1 + live q1 = unat ready + live q" "length q1 = length q"
      using poll_at_count [OF _ _ s] h by simp_all
    have "ready1 \<noteq> of_nat N"
      using c(1) h by (auto simp: unsigned_of_nat take_bit_eq_mod)
    then have "loop poll N ((pos + 1) mod N) ready1 q1 out1 = Some r"
      using run s h by simp
    from IH [OF this] show False
      using c h by simp
  qed
qed

fun spawn_all :: "'f list \<Rightarrow> 'f Executor \<Rightarrow> 'f Executor outcome" where
  "spawn_all [] E = Done E"
| "spawn_all (f # fs) E = (case spawn f E of Done E1 \<Rightarrow> spawn_all fs E1 | x \<Rightarrow> x)"

lemma spawn_loop_first:
  "spawn_loop (length xs) (length ys) task (map Some xs @ ys) =
     (case ys of [] \<Rightarrow> None | y # zs \<Rightarrow> if y = None then Some (map Some xs @ Some task # zs) else spawn_loop (length xs + 1) (length zs) task (map Some xs @ ys))"
  by (cases ys) (simp_all add: nth_append list_update_append)

lemma spawn_loop_full: "spawn_loop i n task q = None" if "\<forall>j<n. q ! (i + j) \<noteq> None"
  using that
proof (induction n arbitrary: i)
  case (Suc n)
  have "q ! i \<noteq> None"
    using Suc.prems by force
  moreover have "spawn_loop (i + 1) n task q = None"
    using Suc.prems by (intro Suc.IH) force
  ultimately show ?case by simp
qed simp

lemma spawn_loop_skip:
  "i + n = length xs + length ys \<Longrightarrow> i \<le> length xs \<Longrightarrow>
     spawn_loop i n task (map Some xs @ ys) = spawn_loop (length xs) (length ys) task (map Some xs @ ys)"
proof (induction n arbitrary: i)
  case (Suc n)
  show ?case
  proof (cases "i = length xs")
    case False
    then have "i < length xs"
      using Suc.prems(2) by simp
    then show ?thesis
      using Suc.IH [of "i + 1"] Suc.prems by (simp add: nth_append)
  qed (use Suc.prems in simp)
qed auto

lemma spawn_next:
  "spawn f \<lparr> task_queue = map Some xs @ replicate (Suc n) None \<rparr> = Done \<lparr> task_queue = map Some (xs @ [f]) @ replicate n None \<rparr>"
  "spawn f \<lparr> task_queue = map Some xs \<rparr> = Panic"
  using spawn_loop_skip [of 0 "length xs + Suc n" xs "replicate (Suc n) None" f]
    spawn_loop_first [of xs "replicate (Suc n) None" f] spawn_loop_full [of "length xs" "map Some xs" 0 f]
  by (simp_all add: spawn_def)

lemma spawn_all_queue:
  "spawn_all fs \<lparr> task_queue = map Some xs @ replicate (length fs + n) None \<rparr> = Done \<lparr> task_queue = map Some (xs @ fs) @ replicate n None \<rparr>"
proof (induction fs arbitrary: xs)
  case (Cons f fs)
  have "spawn f \<lparr> task_queue = map Some xs @ replicate (length (f # fs) + n) None \<rparr>
      = Done \<lparr> task_queue = map Some (xs @ [f]) @ replicate (length fs + n) None \<rparr>"
    using spawn_next(1) [of f xs "length fs + n"] by simp
  then show ?case
    using Cons.IH [of "xs @ [f]"] by (simp del: map_append)
qed simp

lemma full_executor:
  assumes "completing poll rank" and "0 < length fs" and "length fs < 256"
  shows "\<exists>E. spawn_all fs (executor_new (length fs)) = Done E \<and> spawn f E = Panic
    \<and> run_ready_tasks poll E = Some (Done (map (block_on poll) fs, executor_new (length fs)))
    \<and> None \<notin> set (map (block_on poll) fs)"
proof -
  let ?E = "\<lparr> task_queue = map Some fs \<rparr>"
  have live: "live (map Some fs) = length fs"
    by (simp add: live_def filter_map o_def)
  have "run_loop poll (length fs) 0 0 (map Some fs) (replicate (length fs) None)
      = Some (Done (map (block_on poll) fs, replicate (length fs) None))"
    using completing.run_loop_returns [OF assms(1) refl assms(3), of "map Some fs" "replicate (length fs) None" 0 0] assms(2) live
    by (simp add: on_track_def)
  then have "run_ready_tasks poll ?E = Some (Done (map (block_on poll) fs, executor_new (length fs)))"
    by (simp add: run_ready_tasks_def executor_new_def)
  moreover have "spawn_all fs (executor_new (length fs)) = Done ?E"
    using spawn_all_queue [of fs "[]" 0] by (simp add: executor_new_def)
  moreover have "None \<notin> set (map (block_on poll) fs)"
  proof
    assume "None \<in> set (map (block_on poll) fs)"
    then obtain f where "None = block_on poll f"
      unfolding list.set_map by (elim imageE)
    from this [symmetric] completing.block_on_returns [OF assms(1), of f] show False
      by simp
  qed
  ultimately show ?thesis
    using spawn_next(2) [of f fs] by (intro exI [of _ ?E] conjI)
qed

lemma idle_executor:
  assumes "None \<in> set (task_queue E)" and "length (task_queue E) < 256"
  shows "run_ready_tasks poll E = None"
proof -
  let ?q = "task_queue E" and ?N = "length (task_queue E)"
  have "live ?q < ?N"
    using assms(1) length_filter_less [of None ?q "\<lambda>x. x \<noteq> None"] by (simp add: live_def)
  moreover have "0 < ?N"
    using assms(1) by auto
  ultimately have "run_loop poll ?N 0 0 ?q (replicate ?N None) = None"
    using run_loop_stuck [of poll ?N 0 0 ?q "replicate ?N None"] assms(2) by fastforce
  then show ?thesis
    by (simp add: run_ready_tasks_def)
qed

section \<open>Properties\<close>

text \<open>
  C16: the batch executor computes what running each task alone computes. Spawning as many
  tasks as the executor has places (between 1 and 255) fills it, one more spawn panics, and if each
  task completes after finitely many polls, the round-robin run returns, with the output of task
  \<open>i\<close> at position \<open>i\<close> equal to what \<^verbatim>\<open>block_on\<close> returns for it, and an empty queue.
\<close>

theorem executor_runs_all:
  assumes "completing poll rank" and "0 < length fs" and "length fs < 256"
  shows "\<exists>E. spawn_all fs (executor_new (length fs)) = Done E \<and> spawn f E = Panic
    \<and> run_ready_tasks poll E = Some (Done (map (block_on poll) fs, executor_new (length fs)))
    \<and> None \<notin> set (map (block_on poll) fs)"
  by (rule full_executor [OF assms])

theorem executor_runs_all_witness:
  "\<exists>E. spawn_all [switcher_new 2, switcher_new 0, switcher_new 1] (executor_new 3) = Done E
     \<and> run_ready_tasks switcher_poll E = Some (Done ([Some (), Some (), Some ()], executor_new 3))"
proof -
  have "block_on switcher_poll (switcher_new n) = Some ()" for n
    using switcher.block_on_returns [of "switcher_new n"] by auto
  with executor_runs_all [OF switcher.completing_axioms, of "[switcher_new 2, switcher_new 0, switcher_new 1]" "switcher_new 0"]
  show ?thesis by (auto simp: numeral_3_eq_3)
qed

text \<open>
  The batch executor hangs when it is not full. With a free place in the queue (and fewer than 256
  places) \<^verbatim>\<open>run_ready_tasks\<close> never returns, whatever the tasks do: it waits for as many outputs as
  there are places.
\<close>

theorem executor_idle_hangs:
  assumes "None \<in> set (task_queue E)" and "length (task_queue E) < 256"
  shows "run_ready_tasks poll E = None"
  by (rule idle_executor [OF assms])

theorem executor_idle_hangs_witness:
  "None \<in> set (task_queue \<lparr> task_queue = [Some (switcher_new 0), None] \<rparr>)
   \<and> run_ready_tasks switcher_poll \<lparr> task_queue = [Some (switcher_new 0), None] \<rparr> = None"
  using executor_idle_hangs [of "\<lparr> task_queue = [Some (switcher_new 0), None] \<rparr>" switcher_poll] by simp

text \<open>
  C35: the counter of ready tasks is too narrow for 256 places. There \<^verbatim>\<open>N as u8\<close> is 0: when the first task
  is not ready at its first poll, the run returns at once, with every output uninitialised.
\<close>

theorem executor_counter_wraps:
  assumes "length fs = 256" and "poll (fs ! 0) = (Pending, f')"
  shows "run_ready_tasks poll \<lparr> task_queue = map Some fs \<rparr>
    = Some (Done (replicate 256 None, \<lparr> task_queue = (map Some fs)[0 := Some f'] \<rparr>))"
proof -
  have "poll_at poll 0 0 (map Some fs) (replicate 256 None) = (0, (map Some fs)[0 := Some f'], replicate 256 None)"
    using assms by (simp add: poll_at_def nth_map)
  then have "run_loop poll 256 0 0 (map Some fs) (replicate 256 None)
      = Some (Done (replicate 256 None, (map Some fs)[0 := Some f']))"
    using assms(1) by (subst run_loop.simps) simp
  then show ?thesis
    using assms(1) by (simp add: run_ready_tasks_def)
qed

theorem executor_counter_wraps_witness:
  "length (replicate 256 (switcher_new 1)) = 256
   \<and> run_ready_tasks switcher_poll \<lparr> task_queue = map Some (replicate 256 (switcher_new 1)) \<rparr>
     = Some (Done (replicate 256 None, \<lparr> task_queue = (map Some (replicate 256 (switcher_new 1)))[0 := Some (switcher_new 0)] \<rparr>))"
  using executor_counter_wraps [of "replicate 256 (switcher_new 1)" switcher_poll "switcher_new 0"]
  by (simp add: switcher_poll_def switcher_new_def)

end
