(* ===== verification/Traversal.thy ===== *)
theory Traversal
  imports Executor "HOL-Library.Multiset"
begin

text \<open>
  \<^verbatim>\<open>src/async_task/test_utils.rs\<close>, \<^verbatim>\<open>tests.rs\<close> and \<^verbatim>\<open>benches.rs\<close>: the pointer-chasing workload of the executor. An
  array list is a random cycle through all its cells; it is walked by a plain loop and by tasks that
  yield at every cell, and both must add up the same numbers. The tasks are the state machines of the
  \<^verbatim>\<open>async\<close> functions: a poll runs from one await to the next.
\<close>

section \<open>Definitions\<close>

definition GROUP_SIZE :: nat where "GROUP_SIZE = 8"

record Cell =
  next_index :: u64
  cell_padding :: "u64 list"

definition cell_new :: "u64 \<Rightarrow> Cell" where
  "cell_new next_idx = \<lparr> next_index = next_idx, cell_padding = replicate 7 0 \<rparr>"

definition cell_set :: "u64 \<Rightarrow> Cell \<Rightarrow> Cell" where
  "cell_set value c = c\<lparr> next_index := value \<rparr>"

definition cell_get :: "Cell \<Rightarrow> u64" where
  "cell_get c = next_index c"

type_synonym ArrayList = "Cell list"

text \<open>
  \<^verbatim>\<open>ArrayList::new\<close>; \<open>shuffle\<close> stands for the shuffle of the \<^verbatim>\<open>rand\<close> crate. A size of 0 panics (the capacity
  \<^verbatim>\<open>array_size - 1\<close> underflows), and so does an index beyond the list.
\<close>

fun link_cells :: "nat \<Rightarrow> u64 list \<Rightarrow> ArrayList \<Rightarrow> ArrayList outcome" where
  "link_cells pre_idx [] cells = Done cells"
| "link_cells pre_idx (elem # rest) cells =
     (if pre_idx < length cells
      then link_cells (unat elem) rest (cells[pre_idx := cell_set elem (cells ! pre_idx)])
      else Panic)"

definition array_list_new :: "(u64 list \<Rightarrow> u64 list) \<Rightarrow> nat \<Rightarrow> ArrayList outcome" where
  "array_list_new shuffle array_size =
     (if array_size = 0 then Panic
      else link_cells 0 (shuffle (map of_nat [1..<array_size])) (replicate array_size (cell_new 0)))"

definition ground_truth_sum :: "ArrayList \<Rightarrow> u64" where
  "ground_truth_sum cells = ((of_nat (length cells) - 1) * of_nat (length cells)) div 2"

text \<open>\<^verbatim>\<open>simple_traverse\<close>: as many hops as the list has cells.\<close>

fun simple_walk :: "ArrayList \<Rightarrow> nat \<Rightarrow> nat \<Rightarrow> u64 \<Rightarrow> u64 outcome" where
  "simple_walk cells 0 pre_idx acc = Done acc"
| "simple_walk cells (Suc k) pre_idx acc =
     (if pre_idx < length cells
      then let value = cell_get (cells ! pre_idx) in simple_walk cells k (unat value) (acc + value)
      else Panic)"

fun traverse_lists :: "ArrayList list \<Rightarrow> u64 \<Rightarrow> u64 outcome" where
  "traverse_lists [] acc = Done acc"
| "traverse_lists (w # ws) acc =
     (case simple_walk w (length w) 0 acc of Done s \<Rightarrow> traverse_lists ws s | Fail e \<Rightarrow> Fail e | Panic \<Rightarrow> Panic)"

definition simple_traverse :: "ArrayList list \<Rightarrow> u64 outcome" where
  "simple_traverse workloads = traverse_lists workloads 0"

text \<open>
  \<^verbatim>\<open>traverse_one\<close>: a task that has not been polled, one that awaits its prefetch with \<open>k\<close> more hops after
  this one, and one that has returned. A panic is the output \<^const>\<open>Panic\<close>.
\<close>

datatype traverse_task =
    Traverse_New ArrayList
  | Traverse_Await ArrayList nat nat u64 Prefetcher
  | Traverse_Done

definition fetch_ptr :: "addr \<Rightarrow> Prefetcher" where
  "fetch_ptr addr = \<lparr> is_first_poll = True \<rparr>"

fun traverse_from :: "ArrayList \<Rightarrow> nat \<Rightarrow> nat \<Rightarrow> u64 \<Rightarrow> u64 outcome Poll \<times> traverse_task" where
  "traverse_from cells 0 pre_idx acc = (Ready (Done acc), Traverse_Done)"
| "traverse_from cells (Suc k) pre_idx acc =
     (if pre_idx < length cells then
        case prefetcher_poll (fetch_ptr (64 * pre_idx)) of
          (Pending, p) \<Rightarrow> (Pending, Traverse_Await cells k pre_idx acc p)
        | (Ready _, p) \<Rightarrow>
            let value = cell_get (cells ! pre_idx) in traverse_from cells k (unat value) (acc + value)
      else (Ready Panic, Traverse_Done))"

fun traverse_poll :: "traverse_task \<Rightarrow> u64 outcome Poll \<times> traverse_task" where
  "traverse_poll (Traverse_New cells) = traverse_from cells (length cells) 0 0"
| "traverse_poll (Traverse_Await cells k pre_idx acc p) =
     (case prefetcher_poll p of
        (Pending, p1) \<Rightarrow> (Pending, Traverse_Await cells k pre_idx acc p1)
      | (Ready _, p1) \<Rightarrow>
          if pre_idx < length cells then
            let value = cell_get (cells ! pre_idx) in traverse_from cells k (unat value) (acc + value)
          else (Ready Panic, Traverse_Done))"
| "traverse_poll Traverse_Done = (Ready Panic, Traverse_Done)"

text \<open>\<^verbatim>\<open>async_traverse\<close>: the sum of the outputs; \<^const>\<open>None\<close> when the executor never returns.\<close>

fun sum_outputs :: "u64 outcome option list \<Rightarrow> u64 outcome" where
  "sum_outputs [] = Done 0"
| "sum_outputs (Some (Done v) # outs) =
     (case sum_outputs outs of Done s \<Rightarrow> Done (v + s) | Fail e \<Rightarrow> Fail e | Panic \<Rightarrow> Panic)"
| "sum_outputs (_ # outs) = Panic"

definition async_traverse :: "ArrayList list \<Rightarrow> u64 outcome option" where
  "async_traverse workloads =
     (case spawn_all (map Traverse_New workloads) (executor_new GROUP_SIZE) of
        Done E \<Rightarrow>
          (case run_ready_tasks traverse_poll E of
             None \<Rightarrow> None
           | Some (Done (outs, _)) \<Rightarrow> Some (sum_outputs outs)
           | Some (Fail e) \<Rightarrow> Some (Fail e)
           | Some Panic \<Rightarrow> Some Panic)
      | Fail e \<Rightarrow> Some (Fail e)
      | Panic \<Rightarrow> Some Panic)"

text \<open>\<^verbatim>\<open>SimpleFuture\<close>, \<^verbatim>\<open>simple_yield\<close> and \<^verbatim>\<open>stackful_yield\<close> of the benchmarks.\<close>

record SimpleFuture =
  simple_first :: bool

definition simple_future_new :: SimpleFuture where
  "simple_future_new = \<lparr> simple_first = True \<rparr>"

definition simple_future_poll :: "SimpleFuture \<Rightarrow> usize Poll \<times> SimpleFuture" where
  "simple_future_poll f = (if simple_first f then (Pending, f\<lparr> simple_first := False \<rparr>) else (Ready 1, f))"

text \<open>The loop of both tasks, with \<open>extra\<close> added at the end.\<close>

datatype yield_task =
    Yield_New nat usize
  | Yield_Await nat usize SimpleFuture usize

fun yield_from :: "nat \<Rightarrow> usize \<Rightarrow> usize \<Rightarrow> usize Poll \<times> yield_task" where
  "yield_from 0 acc extra = (Ready (acc + extra), Yield_New 0 extra)"
| "yield_from (Suc k) acc extra =
     (case simple_future_poll simple_future_new of
        (Pending, f) \<Rightarrow> (Pending, Yield_Await k acc f extra)
      | (Ready v, f) \<Rightarrow> yield_from k (acc + v) extra)"

fun yield_poll :: "yield_task \<Rightarrow> usize Poll \<times> yield_task" where
  "yield_poll (Yield_New k extra) = yield_from k 0 extra"
| "yield_poll (Yield_Await k acc f extra) =
     (case simple_future_poll f of
        (Pending, f1) \<Rightarrow> (Pending, Yield_Await k acc f1 extra)
      | (Ready v, f1) \<Rightarrow> yield_from k (acc + v) extra)"

definition simple_yield :: yield_task where
  "simple_yield = Yield_New 10000 0"

definition stackful_yield :: yield_task where
  "stackful_yield = Yield_New 10000 (sum_list (replicate 32 42))"

definition switch_bench :: "yield_task \<Rightarrow> (usize option list \<times> yield_task Executor) outcome option" where
  "switch_bench task =
     (case spawn_all (replicate GROUP_SIZE task) (executor_new GROUP_SIZE) of
        Done E \<Rightarrow> run_ready_tasks yield_poll E | Fail e \<Rightarrow> Some (Fail e) | Panic \<Rightarrow> Some Panic)"

text \<open>
  The workloads of the tests and of the benchmark, one shuffle per list, and the assertions made
  on them.
\<close>

fun new_workloads :: "(u64 list \<Rightarrow> u64 list) list \<Rightarrow> nat \<Rightarrow> ArrayList list outcome" where
  "new_workloads [] array_size = Done []"
| "new_workloads (sh # shs) array_size =
     (case array_list_new sh array_size of
        Done w \<Rightarrow> (case new_workloads shs array_size of Done ws \<Rightarrow> Done (w # ws) | Fail e \<Rightarrow> Fail e | Panic \<Rightarrow> Panic)
      | Fail e \<Rightarrow> Fail e
      | Panic \<Rightarrow> Panic)"

definition simple_traverse_is_correct :: "(u64 list \<Rightarrow> u64 list) list \<Rightarrow> unit outcome" where
  "simple_traverse_is_correct shfs =
     (case new_workloads shfs 1024 of
        Done ws \<Rightarrow> if simple_traverse ws = Done (sum_list (map ground_truth_sum ws)) then Done () else Panic
      | Fail e \<Rightarrow> Fail e
      | Panic \<Rightarrow> Panic)"

definition async_yield_same_as_simple :: "(u64 list \<Rightarrow> u64 list) list \<Rightarrow> unit outcome option" where
  "async_yield_same_as_simple shfs =
     (case new_workloads shfs 1024 of
        Done ws \<Rightarrow>
          (case (simple_traverse ws, async_traverse ws) of
             (Done sync_sum, Some (Done async_sum)) \<Rightarrow> Some (if sync_sum = async_sum then Done () else Panic)
           | (_, None) \<Rightarrow> None
           | _ \<Rightarrow> Some Panic)
      | Fail e \<Rightarrow> Some (Fail e)
      | Panic \<Rightarrow> Some Panic)"

definition linked_list_bench :: "(u64 list \<Rightarrow> u64 list) list \<Rightarrow> unit outcome option" where
  "linked_list_bench shfs =
     (case new_workloads shfs (1024 * 1024) of
        Done ws \<Rightarrow>
          let gt_sum = ground_truth_sum (ws ! 0) * of_nat GROUP_SIZE
          in (case async_traverse ws of
                Some (Done s) \<Rightarrow> Some (if s = gt_sum \<and> simple_traverse ws = Done gt_sum then Done () else Panic)
              | Some _ \<Rightarrow> Some Panic
              | None \<Rightarrow> None)
      | Fail e \<Rightarrow> Some (Fail e)
      | Panic \<Rightarrow> Some Panic)"

section \<open>The cycle\<close>

text \<open>From cell \<open>i\<close> the list goes through \<open>vs\<close> and then to cell 0.\<close>

fun follows :: "ArrayList \<Rightarrow> nat \<Rightarrow> u64 list \<Rightarrow> bool" where
  "follows cells i [] \<longleftrightarrow> i < length cells \<and> cell_get (cells ! i) = 0"
| "follows cells i (v # vs) \<longleftrightarrow> i < length cells \<and> cell_get (cells ! i) = v \<and> follows cells (unat v) vs"

lemma follows_update: "j \<notin> set (i # map unat vs) \<Longrightarrow> follows (cells[j := c]) i vs = follows cells i vs"
  by (induction vs arbitrary: i) auto

lemma link_cells_frame:
  assumes "link_cells pre vs cells = Done cells'"
  shows "length cells' = length cells" "j \<notin> set (pre # map unat vs) \<Longrightarrow> cells' ! j = cells ! j"
  using assms by (induction vs arbitrary: pre cells) (auto split: if_splits)

lemma link_cells_follows:
  assumes "distinct (pre # map unat vs)" "\<forall>i\<in>set (pre # map unat vs). i < length cells \<and> cell_get (cells ! i) = 0"
  shows "\<exists>cells'. link_cells pre vs cells = Done cells' \<and> follows cells' pre vs \<and> length cells' = length cells"
  using assms
proof (induction vs arbitrary: pre cells)
  case (Cons v vs)
  let ?c = "cells[pre := cell_set v (cells ! pre)]"
  have "\<forall>i\<in>set (unat v # map unat vs). i < length ?c \<and> cell_get (?c ! i) = 0"
    using Cons.prems by (auto simp: nth_list_update)
  then obtain cells' where c: "link_cells (unat v) vs ?c = Done cells'" "follows cells' (unat v) vs" "length cells' = length cells"
    using Cons.IH [of "unat v" ?c] Cons.prems(1) by auto
  moreover have "cells' ! pre = ?c ! pre"
    using link_cells_frame(2) [OF c(1), of pre] Cons.prems(1) by simp
  ultimately show ?case
    using Cons.prems by (simp add: cell_get_def cell_set_def)
qed simp

lemma simple_walk_follows:
  "follows cells i vs \<Longrightarrow> simple_walk cells (Suc (length vs)) i acc = Done (acc + sum_list vs)"
  by (induction vs arbitrary: i acc) (auto simp: Let_def add.assoc)

lemma sum_of_nats: "sum_list (map (of_nat :: nat \<Rightarrow> u64) [1..<n]) = of_nat (sum_list [1..<n])"
  by (induction n) auto

lemma gauss: "2 * sum_list [1..<n] = (n - 1) * n"
  by (induction n) (auto simp: algebra_simps)


lemma array_list_new_cycle:
  assumes "mset (shuffle (map of_nat [1..<n])) = mset (map of_nat [1..<n])" "0 < n" "n \<le> 2 ^ 64"
  obtains cells vs where "array_list_new shuffle n = Done cells" "length cells = n" "follows cells 0 vs"
    "Suc (length vs) = n" "sum_list vs = of_nat (sum_list [1..<n])"
proof -
  let ?vs = "shuffle (map of_nat [1..<n])"
  have unat: "map unat (map of_nat [1..<n] :: u64 list) = [1..<n]"
    using assms(3) unfolding map_map by (intro map_idI) (simp add: unat_of_nat take_bit_nat_eq_self_iff)
  have m: "mset (map unat ?vs) = mset [1..<n]"
    using assms(1) unat by (metis mset_map)
  then have "distinct (0 # map unat ?vs)" "set (map unat ?vs) = {1..<n}"
    using mset_eq_imp_distinct_iff [OF m] mset_eq_setD [OF m] by auto
  then obtain cells where "link_cells 0 ?vs (replicate n (cell_new 0)) = Done cells" "follows cells 0 ?vs" "length cells = n"
    using link_cells_follows [of 0 ?vs "replicate n (cell_new 0)"] assms(2) by (auto simp: cell_get_def cell_new_def)
  moreover have "length ?vs = n - 1" "sum_list ?vs = of_nat (sum_list [1..<n])"
    using assms(1) mset_eq_length [OF assms(1)] sum_of_nats [of n] by (simp_all flip: sum_mset_sum_list)
  ultimately show ?thesis
    using that [of cells ?vs] assms(2) by (simp add: array_list_new_def)
qed

lemma ground_truth_gauss:
  assumes "(length cells - 1) * length cells < 2 ^ 64" "0 < length cells"
  shows "ground_truth_sum cells = of_nat (sum_list [1..<length cells])"
proof -
  let ?n = "length cells"
  have "(of_nat ?n - 1) * of_nat ?n = (of_nat ((?n - 1) * ?n) :: u64)"
    using assms(2) by (cases "length cells") (simp_all add: algebra_simps)
  then have "unat ((of_nat ?n - 1) * of_nat ?n :: u64) = 2 * sum_list [1..<?n]"
    using assms(1) gauss [of ?n] by (simp add: unat_of_nat take_bit_nat_eq_self_iff del: of_nat_mult)
  then have "unat (ground_truth_sum cells) = sum_list [1..<?n]"
    by (simp add: ground_truth_sum_def unat_div_distrib)
  then show ?thesis
    by (metis of_nat_unat ucast_id)
qed

section \<open>The tasks\<close>

fun traverse_rank :: "traverse_task \<Rightarrow> nat" where
  "traverse_rank (Traverse_New cells) = 2 * length cells + 2"
| "traverse_rank (Traverse_Await cells k i acc p) = 2 * k + (if is_first_poll p then 2 else 1)"
| "traverse_rank Traverse_Done = 0"

lemma traverse_from_pending: "traverse_from cells k i acc = (Pending, f) \<Longrightarrow> traverse_rank f < 2 * k"
  by (cases k) (auto simp: prefetcher_poll_def fetch_ptr_def split: if_splits)

interpretation traverse: completing traverse_poll traverse_rank
proof unfold_locales
  fix f f'
  assume "traverse_poll f = (Pending, f')"
  then show "traverse_rank f' < traverse_rank f"
    using traverse_from_pending
    by (cases f) (fastforce simp: prefetcher_poll_def Let_def split: if_splits)+
qed

text \<open>A task computes what the loop computes.\<close>

lemma block_on_traverse_from:
  "block_on traverse_poll f0 = block_on traverse_poll f0 \<Longrightarrow>
   (case traverse_from cells k i acc of (Ready v, _) \<Rightarrow> Some v | (Pending, f) \<Rightarrow> block_on traverse_poll f)
     = Some (simple_walk cells k i acc)"
proof (induction k arbitrary: i acc)
  case (Suc k)
  show ?case
  proof (cases "i < length cells")
    case True
    let ?v = "cell_get (cells ! i)"
    have "block_on traverse_poll (Traverse_Await cells k i acc \<lparr> is_first_poll = False \<rparr>)
        = (case traverse_from cells k (unat ?v) (acc + ?v) of (Ready v, _) \<Rightarrow> Some v | (Pending, f) \<Rightarrow> block_on traverse_poll f)"
      using True by (subst block_on.simps) (simp add: prefetcher_poll_def Let_def)
    then show ?thesis
      using True Suc by (simp add: prefetcher_poll_def fetch_ptr_def Let_def)
  qed simp
qed simp

lemma block_on_traverse: "block_on traverse_poll (Traverse_New cells) = Some (simple_walk cells (length cells) 0 0)"
  by (subst block_on.simps) (simp add: block_on_traverse_from)

fun yield_rank :: "yield_task \<Rightarrow> nat" where
  "yield_rank (Yield_New k x) = 2 * k + 2"
| "yield_rank (Yield_Await k acc f x) = 2 * k + (if simple_first f then 2 else 1)"

lemma yield_from_pending: "yield_from k acc x = (Pending, f) \<Longrightarrow> yield_rank f < 2 * k"
  by (cases k) (auto simp: simple_future_poll_def simple_future_new_def)

interpretation yield: completing yield_poll yield_rank
proof unfold_locales
  fix f f'
  assume "yield_poll f = (Pending, f')"
  then show "yield_rank f' < yield_rank f"
    using yield_from_pending by (cases f) (fastforce simp: simple_future_poll_def split: if_splits)+
qed

lemma block_on_yield_from:
  "(case yield_from k acc x of (Ready v, _) \<Rightarrow> Some v | (Pending, f) \<Rightarrow> block_on yield_poll f) = Some (acc + of_nat k + x)"
proof (induction k arbitrary: acc)
  case (Suc k)
  have "block_on yield_poll (Yield_Await k acc \<lparr> simple_first = False \<rparr> x)
      = (case yield_from k (acc + 1) x of (Ready v, _) \<Rightarrow> Some v | (Pending, f) \<Rightarrow> block_on yield_poll f)"
    by (subst block_on.simps) (simp add: simple_future_poll_def)
  then show ?case
    using Suc [of "acc + 1"] by (simp add: simple_future_poll_def simple_future_new_def algebra_simps)
qed simp

lemma block_on_yield: "block_on yield_poll (Yield_New k x) = Some (of_nat k + x)"
  by (subst block_on.simps) (simp add: block_on_yield_from)

section \<open>Both traversals\<close>

lemma simple_walk_add: "simple_walk cells k i 0 = Done v \<Longrightarrow> simple_walk cells k i acc = Done (acc + v)"
proof -
  have "simple_walk cells k i (a + b) = (case simple_walk cells k i b of Done v \<Rightarrow> Done (a + v) | Fail e \<Rightarrow> Fail e | Panic \<Rightarrow> Panic)" for a b
    by (induction k arbitrary: i b) (auto simp: Let_def add.assoc)
  from this [of acc 0] show "simple_walk cells k i 0 = Done v \<Longrightarrow> simple_walk cells k i acc = Done (acc + v)"
    by simp
qed

lemma traverse_lists_walks:
  "list_all2 (\<lambda>w v. simple_walk w (length w) 0 0 = Done v) ws vs \<Longrightarrow> traverse_lists ws acc = Done (acc + sum_list vs)"
  by (induction arbitrary: acc rule: list_all2_induct) (simp_all add: simple_walk_add add.assoc)

lemma sum_outputs_walks:
  "list_all2 (\<lambda>w v. simple_walk w (length w) 0 0 = Done v) ws vs \<Longrightarrow>
     sum_outputs (map (block_on traverse_poll) (map Traverse_New ws)) = Done (sum_list vs)"
  by (induction rule: list_all2_induct) (simp_all add: block_on_traverse)


lemma async_traverse_group:
  assumes "list_all2 (\<lambda>w v. simple_walk w (length w) 0 0 = Done v) ws vs" "length ws = GROUP_SIZE"
  shows "async_traverse ws = Some (Done (sum_list vs))"
proof -
  let ?fs = "map Traverse_New ws"
  have "0 < length ?fs" "length ?fs < 256"
    using assms(2) by (simp_all add: GROUP_SIZE_def)
  from full_executor [OF traverse.completing_axioms this, of Traverse_Done] obtain E where
    "spawn_all ?fs (executor_new GROUP_SIZE) = Done E"
    "run_ready_tasks traverse_poll E = Some (Done (map (block_on traverse_poll) ?fs, executor_new GROUP_SIZE))"
    using assms(2) by auto
  then show ?thesis
    using sum_outputs_walks [OF assms(1)] by (simp add: async_traverse_def)
qed

lemma async_traverse_few: "length ws < GROUP_SIZE \<Longrightarrow> async_traverse ws = None"
proof -
  assume "length ws < GROUP_SIZE"
  then obtain k where k: "GROUP_SIZE = length (map Traverse_New ws) + Suc k"
    by (metis add_Suc_right length_map less_imp_Suc_add)
  let ?E = "\<lparr> task_queue = map Some (map Traverse_New ws) @ replicate (Suc k) None \<rparr>"
  have "spawn_all (map Traverse_New ws) (executor_new GROUP_SIZE) = Done ?E"
    using spawn_all_queue [of "map Traverse_New ws" "[]" "Suc k"] unfolding k [symmetric] by (simp add: executor_new_def)
  moreover have "run_ready_tasks traverse_poll ?E = None"
    using k by (intro idle_executor) (simp_all add: GROUP_SIZE_def)
  ultimately show ?thesis by (simp add: async_traverse_def)
qed

lemma spawn_all_append:
  "spawn_all (fs @ gs) E = (case spawn_all fs E of Done E1 \<Rightarrow> spawn_all gs E1 | Fail e \<Rightarrow> Fail e | Panic \<Rightarrow> Panic)"
  by (induction fs arbitrary: E) (auto split: outcome.splits)

lemma async_traverse_many:
  assumes "GROUP_SIZE < length ws"
  shows "async_traverse ws = Some Panic"
proof -
  obtain xs y ys where ws: "ws = xs @ y # ys" "length xs = GROUP_SIZE"
    using id_take_nth_drop [OF assms] assms by (metis length_take less_imp_le min.absorb2)
  have "spawn_all (map Traverse_New xs) (executor_new GROUP_SIZE) = Done \<lparr> task_queue = map Some (map Traverse_New xs) \<rparr>"
    using spawn_all_queue [of "map Traverse_New xs" "[]" 0] ws(2) by (simp add: executor_new_def)
  then have "spawn_all (map Traverse_New ws) (executor_new GROUP_SIZE) = Panic"
    using spawn_next(2) [of "Traverse_New y" "map Traverse_New xs"] ws(1) by (simp add: spawn_all_append)
  then show ?thesis by (simp add: async_traverse_def)
qed

definition list_of :: "(u64 list \<Rightarrow> u64 list) \<Rightarrow> nat \<Rightarrow> ArrayList \<Rightarrow> bool" where
  "list_of shuffle n w \<longleftrightarrow> (\<forall>xs. mset (shuffle xs) = mset xs) \<and> (n - 1) * n < 2 ^ 64 \<and> array_list_new shuffle n = Done w"

lemma size_bound: "(n - 1) * n < m \<Longrightarrow> 1 < m \<Longrightarrow> n \<le> m"
  for n m :: nat
proof (cases "n \<le> 1")
  case False
  then have "1 * n \<le> (n - 1) * n"
    by (intro mult_le_mono1) simp
  then show "(n - 1) * n < m \<Longrightarrow> 1 < m \<Longrightarrow> n \<le> m"
    unfolding mult_1 by (meson le_trans less_imp_le)
qed simp

lemma list_of_walk:
  assumes "list_of shuffle n w"
  shows "simple_walk w (length w) 0 0 = Done (ground_truth_sum w)"
proof -
  have n: "0 < n"
    using assms by (cases n) (simp_all add: list_of_def array_list_new_def)
  have "(n - 1) * n < 2 ^ 64"
    using assms by (simp add: list_of_def)
  then have "n \<le> 2 ^ 64"
    by (rule size_bound) simp
  moreover have "mset (shuffle (map of_nat [1..<n])) = mset (map of_nat [1..<n])"
    using assms unfolding list_of_def by blast
  ultimately obtain cells vs where vs: "array_list_new shuffle n = Done cells" "length cells = n" "follows cells 0 vs"
      "Suc (length vs) = n" "sum_list vs = of_nat (sum_list [1..<n])"
    using array_list_new_cycle n by blast
  moreover have "cells = w"
    using vs(1) assms by (simp add: list_of_def)
  ultimately have vs: "length w = n" "follows w 0 vs" "Suc (length vs) = n" "sum_list vs = of_nat (sum_list [1..<n])"
    by simp_all
  show ?thesis
    using simple_walk_follows [OF vs(2), of 0] ground_truth_gauss [of w] \<open>(n - 1) * n < 2 ^ 64\<close> n vs by simp
qed

lemma lists_traverse:
  assumes "\<forall>w\<in>set ws. \<exists>shuffle n. list_of shuffle n w"
  shows "simple_traverse ws = Done (sum_list (map ground_truth_sum ws))"
    and "length ws = GROUP_SIZE \<Longrightarrow> async_traverse ws = Some (Done (sum_list (map ground_truth_sum ws)))"
proof -
  have walks: "list_all2 (\<lambda>w v. simple_walk w (length w) 0 0 = Done v) ws (map ground_truth_sum ws)"
    using assms list_of_walk by (auto simp: list.rel_map intro!: list.rel_refl_strong)
  show "simple_traverse ws = Done (sum_list (map ground_truth_sum ws))"
    using traverse_lists_walks [OF walks, of 0] by (simp add: simple_traverse_def)
  show "length ws = GROUP_SIZE \<Longrightarrow> async_traverse ws = Some (Done (sum_list (map ground_truth_sum ws)))"
    using async_traverse_group [OF walks] .
qed

lemma list_of_length: "list_of shuffle n w \<Longrightarrow> 0 < n \<Longrightarrow> length w = n"
  using link_cells_frame(1) by (auto simp: list_of_def array_list_new_def)

lemma new_workloads_lists:
  assumes "\<forall>sh\<in>set shfs. \<forall>xs. mset (sh xs) = mset xs" "0 < n" "(n - 1) * n < 2 ^ 64"
  shows "\<exists>ws. new_workloads shfs n = Done ws \<and> length ws = length shfs
    \<and> (\<forall>w\<in>set ws. (\<exists>sh. list_of sh n w) \<and> length w = n)"
  using assms(1)
proof (induction shfs)
  case (Cons sh shs)
  have "n \<le> 2 ^ 64"
    by (rule size_bound [OF assms(3)]) simp
  then obtain w where "array_list_new sh n = Done w"
    using Cons.prems array_list_new_cycle [of sh n] assms(2) by auto
  moreover from this have "list_of sh n w"
    using Cons.prems assms(3) by (simp add: list_of_def)
  ultimately show ?case
    using Cons list_of_length [of sh n w] assms(2) by auto
qed simp

text \<open>The assertions of the two tests and of the benchmark hold for every choice of the shuffles.\<close>

lemma test_assertions:
  assumes "\<forall>sh\<in>set shfs. \<forall>xs. mset (sh xs) = mset xs" "length shfs = GROUP_SIZE"
  shows "simple_traverse_is_correct shfs = Done ()" "async_yield_same_as_simple shfs = Some (Done ())"
    "linked_list_bench shfs = Some (Done ())"
proof -
  obtain ws where ws: "new_workloads shfs 1024 = Done ws" "length ws = GROUP_SIZE" "\<forall>w\<in>set ws. (\<exists>sh. list_of sh 1024 w) \<and> length w = 1024"
    using new_workloads_lists [OF assms(1), of 1024] assms(2) by auto
  then have "\<forall>w\<in>set ws. \<exists>sh n. list_of sh n w"
    by blast
  note sums = lists_traverse [OF this]
  show "simple_traverse_is_correct shfs = Done ()" "async_yield_same_as_simple shfs = Some (Done ())"
    using ws(1) sums ws(2)
    by (simp_all add: simple_traverse_is_correct_def async_yield_same_as_simple_def)
  obtain ws where ws: "new_workloads shfs (1024 * 1024) = Done ws" "length ws = GROUP_SIZE"
      "\<forall>w\<in>set ws. (\<exists>sh. list_of sh (1024 * 1024) w) \<and> length w = 1024 * 1024"
    using new_workloads_lists [OF assms(1), of "1024 * 1024"] assms(2) by auto
  have "ground_truth_sum w = ground_truth_sum (ws ! 0)" if "w \<in> set ws" for w
    using ws(3) that ws(2) by (simp add: ground_truth_sum_def GROUP_SIZE_def)
  then have "map ground_truth_sum ws = replicate GROUP_SIZE (ground_truth_sum (ws ! 0))"
    using ws(2) by (intro replicate_eqI) auto
  then have "sum_list (map ground_truth_sum ws) = ground_truth_sum (ws ! 0) * of_nat GROUP_SIZE"
    by (simp add: sum_list_replicate mult.commute)
  moreover have "\<forall>w\<in>set ws. \<exists>sh n. list_of sh n w"
    using ws(3) by blast
  ultimately show "linked_list_bench shfs = Some (Done ())"
    using ws(1,2) lists_traverse [of ws] by (simp add: linked_list_bench_def)
qed

section \<open>Properties\<close>

text \<open>
  C17: the yielding traversal gives the sum of the plain one, and both give the expected sum: for
  array lists of any sizes without overflow in the formula, built from any shuffles that
  permute their argument, the plain loop returns the sum of the expected sums, and with eight lists
  so does the batch executor, with no panic and no endless loop. With fewer lists the executor
  never returns, with more the ninth spawn panics.
\<close>

theorem traversals_agree:
  assumes "\<forall>w\<in>set ws. \<exists>shuffle n. (\<forall>xs. mset (shuffle xs) = mset xs) \<and> (n - 1) * n < 2 ^ 64
    \<and> array_list_new shuffle n = Done w"
  shows "simple_traverse ws = Done (sum_list (map ground_truth_sum ws))
    \<and> async_traverse ws = (if length ws < GROUP_SIZE then None
        else if length ws = GROUP_SIZE then Some (Done (sum_list (map ground_truth_sum ws))) else Some Panic)"
  using lists_traverse [of ws] async_traverse_few [of ws] async_traverse_many [of ws] assms by (simp add: list_of_def)

definition sample_list :: ArrayList where
  "sample_list = [cell_new 3, cell_new 0, cell_new 1, cell_new 2]"

theorem traversals_agree_witness:
  "array_list_new rev 4 = Done sample_list
   \<and> simple_traverse (replicate 8 sample_list) = Done 48 \<and> async_traverse (replicate 8 sample_list) = Some (Done 48)"
proof -
  let ?ws = "replicate 8 sample_list"
  have new: "array_list_new rev 4 = Done sample_list"
    by code_simp
  then have "\<exists>shuffle n. (\<forall>xs. mset (shuffle xs) = mset xs) \<and> (n - 1) * n < 2 ^ 64 \<and> array_list_new shuffle n = Done sample_list"
    by (intro exI [of _ rev] exI [of _ 4]) simp
  then have all: "\<forall>w\<in>set ?ws. \<exists>shuffle n. (\<forall>xs. mset (shuffle xs) = mset xs) \<and> (n - 1) * n < 2 ^ 64
      \<and> array_list_new shuffle n = Done w"
    by (simp only: set_replicate_conv_if if_False zero_neq_numeral [symmetric] ball_simps)
  have "ground_truth_sum sample_list = 6"
    by code_simp
  then have "sum_list (map ground_truth_sum ?ws) = 48" "length ?ws = GROUP_SIZE"
    by (simp_all add: sum_list_replicate GROUP_SIZE_def)
  then show ?thesis
    using new traversals_agree [OF all] by (simp only: less_irrefl if_False if_True simp_thms)
qed

text \<open>The tasks of the switching benchmark.\<close>

lemma switch_bench_returns:
  "switch_bench simple_yield = Some (Done (replicate 8 (Some 10000), executor_new 8))"
  "switch_bench stackful_yield = Some (Done (replicate 8 (Some 11344), executor_new 8))"
proof -
  have "switch_bench task = Some (Done (replicate 8 (block_on yield_poll task), executor_new 8))" for task
    using full_executor [OF yield.completing_axioms, of "replicate 8 task" task]
    by (auto simp: switch_bench_def GROUP_SIZE_def)
  moreover have "block_on yield_poll simple_yield = Some 10000" "block_on yield_poll stackful_yield = Some 11344"
    by (simp_all add: simple_yield_def stackful_yield_def block_on_yield sum_list_replicate)
  ultimately show "switch_bench simple_yield = Some (Done (replicate 8 (Some 10000), executor_new 8))"
    "switch_bench stackful_yield = Some (Done (replicate 8 (Some 11344), executor_new 8))"
    by simp_all
qed

end
