(* ===== verification/Tuples.thy ===== *)
theory Tuples
  imports Item_Schema
begin

text \<open>
  Tuples: the implementation of the \<^verbatim>\<open>Tuple\<close> trait that \<^verbatim>\<open>src/macro_utils/src/tuple.rs\<close> generates for a
  struct, and the hand-written one of \<^verbatim>\<open>TestItem\<close> in \<^verbatim>\<open>src/utils/test_gen.rs\<close>, with its generators and
  queries. A tuple is its memory image; a pointer into it is a byte offset. The main fact relates
  the two ways to apply an update query, to a whole tuple and to a cached item.
\<close>

section \<open>The derived trait\<close>

text \<open>\<^verbatim>\<open>FieldsValue\<close>: one pointer per field of a query; \<^const>\<open>None\<close> is the failed debug assertion.\<close>

record FieldsValue =
  values_data :: "nat list"

definition fields_value_new :: "nat list \<Rightarrow> FieldsValue" where
  "fields_value_new vals = \<lparr> values_data = vals \<rparr>"

definition fields_value_get :: "FieldsValue \<Rightarrow> nat \<Rightarrow> nat option" where
  "fields_value_get v idx = (if idx < length (values_data v) then Some (values_data v ! idx) else None)"

definition tuple_to_query_values :: "FieldsMeta \<Rightarrow> FieldsValue" where
  "tuple_to_query_values query = fields_value_new (map field_off query)"

text \<open>\<^verbatim>\<open>offset\<close> and \<^verbatim>\<open>offset_mut\<close>, with their debug assertion.\<close>

definition tuple_offset :: "bytes \<Rightarrow> nat \<Rightarrow> nat option" where
  "tuple_offset t off = (if off < length t then Some off else None)"

text \<open>\<^verbatim>\<open>update\<close>: \<^const>\<open>None\<close> is a failed assertion or an access beyond the tuple or the data.\<close>

fun tuple_update_loop :: "bytes \<Rightarrow> (Field \<times> nat) list \<Rightarrow> bytes \<Rightarrow> bytes option" where
  "tuple_update_loop data [] t = Some t"
| "tuple_update_loop data ((idx, val) # rest) t =
     Option.bind (tuple_offset t (field_off idx)) (\<lambda>ptr.
       Option.bind (load_bytes val (field_size idx) data) (\<lambda>bs.
         Option.bind (store_bytes ptr bs t) (tuple_update_loop data rest)))"

definition tuple_update :: "bytes \<Rightarrow> UpdateQuery \<Rightarrow> bytes option" where
  "tuple_update t q = tuple_update_loop (query_data q) (query_items q) t"

section \<open>Test items\<close>

text \<open>A machine word in memory, least significant byte first.\<close>

definition word_bytes :: "usize \<Rightarrow> bytes" where
  "word_bytes w = map (\<lambda>i. ucast (drop_bit (8 * i) w)) [0..<8]"

definition item_of_words :: "usize list \<Rightarrow> bytes" where
  "item_of_words ws = concat (map word_bytes ws)"

definition from_fixed :: "nat \<Rightarrow> usize \<Rightarrow> bytes" where
  "from_fixed tz val = item_of_words (replicate tz val)"

definition from_increasing :: "nat \<Rightarrow> usize \<Rightarrow> bytes" where
  "from_increasing tz base = item_of_words (map (\<lambda>i. base + of_nat i) [0..<tz])"

text \<open>\<^verbatim>\<open>build_query\<close> asserts that there are fewer fields than words; the offsets are computed at 16 bits.\<close>

definition build_query :: "nat \<Rightarrow> u16 list \<Rightarrow> FieldsMeta option" where
  "build_query tz fs = (if length fs < tz then Some (map (\<lambda>v. Field (v * 8) (v * 8 + 8)) fs) else None)"

definition read_field :: "nat \<Rightarrow> bytes \<Rightarrow> Field \<Rightarrow> bytes option" where
  "read_field n t f = load_bytes (field_off f) n t"

text \<open>\<^verbatim>\<open>usize::from\<close> a test item is its first word.\<close>

definition item_to_usize :: "bytes \<Rightarrow> usize" where
  "item_to_usize t = item_key t"

fun test_update_loop :: "bytes \<Rightarrow> (Field \<times> nat) list \<Rightarrow> bytes \<Rightarrow> bytes option" where
  "test_update_loop data [] t = Some t"
| "test_update_loop data ((idx, val) # rest) t =
     (if field_size idx = 8 then
        Option.bind (load_bytes val 8 data) (\<lambda>bs.
          Option.bind (store_bytes (field_off idx) bs t) (test_update_loop data rest))
      else None)"

definition test_update :: "bytes \<Rightarrow> UpdateQuery \<Rightarrow> bytes option" where
  "test_update t q = test_update_loop (query_data q) (query_items q) t"

definition test_to_query_values :: "FieldsMeta \<Rightarrow> FieldsValue" where
  "test_to_query_values query = fields_value_new (map field_off query)"

definition schema_from_range :: "(u16 \<times> u16) list \<Rightarrow> Field list" where
  "schema_from_range ranges = map (\<lambda>(a, b). Field a b) ranges"

text \<open>\<^verbatim>\<open>value_compare\<close>: do the words of the query agree with those of a tuple.\<close>

fun value_compare ::
  "('f \<Rightarrow> bytes) \<Rightarrow> ('t \<Rightarrow> bytes) \<Rightarrow> Schema \<Rightarrow> ('f, 't) QueryValue \<Rightarrow> FieldsMeta \<Rightarrow> bytes \<Rightarrow> (access_error + bool)" where
  "value_compare df dt S vals [] t = Inr True"
| "value_compare df dt S vals (q # query) t =
     (case read_field 8 t q of
        None \<Rightarrow> Inl Out_Of_Bounds
      | Some gt_val \<Rightarrow>
          (case get_value df dt S vals q 8 of
             Inl e \<Rightarrow> Inl e
           | Inr qy_val \<Rightarrow> if gt_val \<noteq> qy_val then Inr False else value_compare df dt S vals query t))"

section \<open>Updates\<close>

text \<open>
  The items of an update that the cached part does not hold.
\<close>

definition uncached_items :: "(Field \<Rightarrow> Field option) \<Rightarrow> (Field \<times> nat) list \<Rightarrow> (Field \<times> nat) list" where
  "uncached_items tcf items = filter (\<lambda>(f, v). tcf f = None) items"

definition good_items :: "(Field \<Rightarrow> bool) \<Rightarrow> bytes \<Rightarrow> (Field \<times> nat) list \<Rightarrow> bool" where
  "good_items proper data items \<longleftrightarrow> (\<forall>(f, v)\<in>set items. proper f \<and> 0 < field_size f \<and> v + field_size f \<le> length data)"

context schema_laws
begin

lemma update_items_commute:
  assumes "good_items proper data items" "length t = tuple_size" "length c = cached_size"
  shows "\<exists>c' t'. update_loop (to_cached_field S) data items c = Some c' \<and> length c' = cached_size
    \<and> tuple_update_loop data (uncached_items (to_cached_field S) items) t = Some t' \<and> length t' = tuple_size
    \<and> tuple_update_loop data items (write_back S c t) = Some (write_back S c' t')"
  using assms
proof (induction items arbitrary: t c)
  case Nil
  then show ?case by (simp add: uncached_items_def)
next
  case (Cons x items)
  obtain f v where x: "x = (f, v)" by (cases x)
  have f: "proper f" "0 < field_size f" "v + field_size f \<le> length data" and rest: "good_items proper data items"
    using Cons.prems(1) x by (auto simp: good_items_def)
  obtain bs where bs: "load_bytes v (field_size f) data = Some bs" "length bs = field_size f"
    using f(3) by (auto simp: load_bytes_def)
  note wl = write_back_length [OF Cons.prems(2,3)]
  have off: "field_off f < tuple_size"
    using proper_in [OF f(1)] f(2) by simp
  show ?case
  proof (cases "to_cached_field S f")
    case None
    obtain t1 where t1: "store_bytes (field_off f) bs t = Some t1" "length t1 = tuple_size"
      using proper_in [OF f(1)] Cons.prems(2) bs(2) store_bytes_total [of "field_off f" bs t] store_bytes_length by force
    then have "store_bytes (field_off f) bs (write_back S c t) = Some (write_back S c t1)"
      using store_uncached [OF f(1) None Cons.prems(2,3) bs(2)] by simp
    then show ?thesis
      using Cons.IH [OF rest t1(2) Cons.prems(3)] None x t1 bs(1) off Cons.prems(2) wl
      by (simp add: uncached_items_def tuple_offset_def)
  next
    case (Some g)
    note g = cached_in [OF f(1) Some]
    obtain c1 where c1: "store_bytes (field_off g) bs c = Some c1" "length c1 = cached_size"
      using g Cons.prems(3) bs(2) store_bytes_total [of "field_off g" bs c] store_bytes_length by force
    then have "store_bytes (field_off f) bs (write_back S c t) = Some (write_back S c1 t)"
      using store_cached [OF f(1) Some Cons.prems(2,3) bs(2)] by simp
    then show ?thesis
      using Cons.IH [OF rest Cons.prems(2) c1(2)] Some x c1 bs(1) off wl g
      by (simp add: uncached_items_def tuple_offset_def)
  qed
qed

lemma value_compare_logical:
  assumes "resolves S df dt q query c t" "\<And>b. c = Some b \<Longrightarrow> length b = cached_size" "length t = tuple_size"
    and "set fs \<subseteq> set query" "\<forall>f\<in>set fs. proper f \<and> field_size f = 8" "length x = tuple_size"
  shows "value_compare df dt S q fs x
    = Inr (\<forall>f\<in>set fs. load_bytes (field_off f) 8 x = load_bytes (field_off f) 8 (logical S c t))"
  using assms(4,5)
proof (induction fs)
  case (Cons f fs)
  have f: "f \<in> set query" "proper f" "field_size f = 8"
    using Cons.prems by simp_all
  obtain v where v: "get_value df dt S q f 8 = Inr v" "load_bytes (field_off f) 8 (logical S c t) = Some v"
    using get_value_logical [OF assms(1) f(1,2) assms(3,2)] f(3) by auto
  obtain y where "load_bytes (field_off f) 8 x = Some y"
    using proper_in [OF f(2)] f(3) assms(6) load_bytes_total [of "field_off f" 8 x] by auto
  then show ?case
    using Cons v by (simp add: read_field_def)
qed simp

end


text \<open>The hand-written update of test items and the update of their cached part are the derived ones on words.\<close>

lemma test_update_loop_derived:
  assumes "\<forall>(f, v)\<in>set items. field_size f = 8" "good_items proper data items"
    and "\<And>f. proper f \<Longrightarrow> field_off f + field_size f \<le> length t"
  shows "test_update_loop data items t = tuple_update_loop data items t"
  using assms
proof (induction items arbitrary: t)
  case (Cons x items)
  obtain f v where x: "x = (f, v)" by (cases x)
  have "proper f" "field_size f = 8"
    using Cons.prems(1,2) x by (auto simp: good_items_def)
  then have "field_off f < length t"
    using Cons.prems(3) [of f] by simp
  moreover have "test_update_loop data items t1 = tuple_update_loop data items t1" if "length t1 = length t" for t1
    using Cons.prems by (intro Cons.IH) (auto simp: good_items_def that)
  ultimately show ?case
    using \<open>field_size f = 8\<close> x store_bytes_length
    by (auto simp: tuple_offset_def split: Option.bind_split)
qed simp

lemma item_update_loop_default:
  assumes "\<forall>(f, v)\<in>set items. field_size f = 8" "length flds < 8192" "length c = 8 * length flds"
  shows "item_update_loop flds data items c = update_loop (item_to_cached_field flds) data items c"
  using assms(1,3)
proof (induction items arbitrary: c)
  case (Cons x items)
  obtain f v where x: "x = (f, v)" by (cases x)
  show ?case
  proof (cases "position flds f")
    case None
    then show ?thesis using Cons x by (simp add: item_to_cached_field_def)
  next
    case (Some i)
    have i: "8 * i + 8 \<le> length c" "i < 8191"
      using position_Some [OF Some] Cons.prems(2) assms(2) by simp_all
    have g: "item_to_cached_field flds f = Some (word_field i)"
      using Some by (simp add: item_to_cached_field_def word_field_def)
    have st: "store_bytes (8 * i) bs c = Some (overwrite (8 * i) bs c)" "length (overwrite (8 * i) bs c) = length c"
      if "length bs = 8" for bs
      using that i(1) by (simp_all add: store_bytes_def overwrite_def)
    have "item_update_loop flds data ((f, v) # items) c
        = Option.bind (load_bytes v 8 data) (\<lambda>bs. item_update_loop flds data items (overwrite (8 * i) bs c))"
      using Cons.prems(1) x Some by simp
    also have "\<dots> = update_loop (item_to_cached_field flds) data ((f, v) # items) c"
      using st g i(2) Cons.IH [of "overwrite (8 * i) _ c"] Cons.prems
      by (auto simp: word_field_simps load_bytes_def split: Option.bind_split)
    finally show ?thesis using x by simp
  qed
qed simp

section \<open>Words in memory\<close>

lemma unat_byte: "unat (ucast (drop_bit k w) :: u8) = unat w div 2 ^ k mod 256"
  for w :: usize
  using unsigned_less [of w, where 'a = nat] by (simp add: unsigned_ucast_eq unsigned_drop_bit_eq take_bit_eq_mod flip: drop_bit_eq_div)


lemma bytes_value:
  assumes "n < 256 ^ k"
  shows "foldr (\<lambda>i acc. n div 2 ^ (8 * i) mod 256 + 256 * acc) [0..<k] 0 = (n :: nat)"
proof -
  have "foldr (\<lambda>i acc. n div 2 ^ (8 * i) mod 256 + 256 * acc) [j..<k] 0 = n div 256 ^ j" if "j \<le> k" for j
    using that
  proof (induction "k - j" arbitrary: j)
    case 0
    then show ?case using assms by simp
  next
    case (Suc d)
    then have "[j..<k] = j # [Suc j..<k]"
      by (simp add: upt_conv_Cons)
    moreover have "2 ^ (8 * j) = (256 :: nat) ^ j"
      by (simp add: power_mult)
    ultimately show ?case
      using Suc.hyps(1) [of "Suc j"] Suc.hyps(2) Suc.prems
        mod_mult_div_eq [of "n div 256 ^ j" 256] by (simp add: div_mult2_eq mult.commute [of 256])
  qed
  from this [of 0] show ?thesis by simp
qed

lemma word_bytes_value: "of_nat (foldr (\<lambda>b acc. unat b + 256 * acc) (word_bytes w) 0) = w"
proof -
  have "unat w < 256 ^ 8"
    using unsigned_less [of w] by simp
  then have "foldr (\<lambda>b acc. unat b + 256 * acc) (word_bytes w) 0 = unat w"
    using bytes_value [of "unat w" 8] by (simp add: word_bytes_def foldr_map o_def unat_byte)
  then show ?thesis by simp
qed

lemma word_bytes_length [simp]: "length (word_bytes w) = 8"
  by (simp add: word_bytes_def)

lemma item_of_words_length [simp]: "length (item_of_words ws) = 8 * length ws"
  by (induction ws) (simp_all add: item_of_words_def)

lemma item_of_words_word: "k < length ws \<Longrightarrow> word_at (8 * k) (item_of_words ws) = word_bytes (ws ! k)"
proof (induction ws arbitrary: k)
  case (Cons w ws)
  show ?case
  proof (cases k)
    case (Suc k')
    then have "word_at (8 * k) (item_of_words (w # ws)) = word_at (8 * k') (item_of_words ws)"
      by (simp add: item_of_words_def word_at_def)
    then show ?thesis using Cons Suc by simp
  qed (simp add: item_of_words_def word_at_def)
qed simp

lemma item_to_usize_first: "0 < length ws \<Longrightarrow> item_to_usize (item_of_words ws) = ws ! 0"
  using item_of_words_word [of 0 ws] by (simp add: item_to_usize_def item_key_def word_bytes_value)

text \<open>
  The key of a generated item, the fields of a built query, and the words that they read.
\<close>

lemma build_query_fields:
  assumes "build_query tz fs = Some q" "\<forall>v\<in>set fs. unat v < tz" "tz < 8192"
  shows "q = map (\<lambda>v. word_field (unat v)) fs"
proof -
  have "Field (v * 8) (v * 8 + 8) = word_field (unat v)" for v :: u16
    by (simp add: word_field_def from_span_def algebra_simps)
  then show ?thesis
    using assms(1) by (auto simp: build_query_def split: if_splits)
qed

lemma read_generated:
  assumes "k < length ws" "length ws < 8192"
  shows "read_field 8 (item_of_words ws) (word_field k) = Some (word_bytes (ws ! k))"
  using assms item_of_words_word [OF assms(1)]
  by (simp add: read_field_def word_field_simps load_bytes_def word_at_def)


section \<open>Properties\<close>

text \<open>
  C18: updating a row that is partly cached is updating the row. For every schema with the laws and
  every update query with data of the declared size on proper fields, updating the cached part with
  the default \<^verbatim>\<open>update_cached\<close> and the stored tuple with the remaining fields, and then writing the cached
  part back, gives the tuple that the derived \<^verbatim>\<open>update\<close> makes of the whole row; no assertion fails and
  no access is out of bounds. If every field of the query is cached, the stored tuple is not touched.
\<close>

theorem update_commutes:
  assumes "schema_laws S tsz csz proper" and "\<forall>f\<in>set (query_meta q). proper f \<and> 0 < field_size f"
    and "length (query_data q) = meta_size (query_meta q)" and "length t = tsz" and "length c = csz"
  shows "\<exists>c' t'. default_update_cached (to_cached_field S) c q = Some c'
    \<and> tuple_update_loop (query_data q) (uncached_items (to_cached_field S) (query_items q)) t = Some t'
    \<and> tuple_update (write_back S c t) q = Some (write_back S c' t')
    \<and> (matches S (query_meta q) \<longrightarrow> t' = t)"
proof -
  have good: "good_items proper (query_data q) (query_items q)"
    using assms(2) query_items_data [OF assms(3)] by (auto simp: good_items_def)
  obtain c' t' where u: "update_loop (to_cached_field S) (query_data q) (query_items q) c = Some c'"
      "tuple_update_loop (query_data q) (uncached_items (to_cached_field S) (query_items q)) t = Some t'"
      "tuple_update_loop (query_data q) (query_items q) (write_back S c t) = Some (write_back S c' t')"
    using schema_laws.update_items_commute [OF assms(1) good assms(4,5)] by blast
  have "t' = t" if "matches S (query_meta q)"
  proof -
    have "uncached_items (to_cached_field S) (query_items q) = []"
      using that query_items_data(1) [OF assms(3)] schema_laws.matches_iff [OF assms(1)]
      by (auto simp: uncached_items_def filter_empty_conv)
    then show ?thesis using u(2) by simp
  qed
  then show ?thesis
    using u by (auto simp: default_update_cached_def tuple_update_def)
qed

definition sample_update :: UpdateQuery where
  "sample_update = \<lparr> query_meta = [word_field 3, word_field 1], query_data = replicate 8 5 @ replicate 8 6 \<rparr>"

theorem update_commutes_witness:
  "\<exists>c' t'. default_update_cached (item_to_cached_field TEST_FIELDS) (replicate 32 0) sample_update = Some c'
    \<and> tuple_update (item_write_back TEST_FIELDS (replicate 32 0) (replicate 128 0)) sample_update
      = Some (item_write_back TEST_FIELDS c' t')"
proof -
  have sz: "field_size (word_field 3) = 8" "field_size (word_field 1) = 8"
    by (simp_all add: word_field_simps)
  have "schema_laws (item_schema TEST_FIELDS) 128 32 (\<lambda>f. f \<in> word_field ` {..<16})"
    using test_schema_laws by (simp add: TEST_FIELDS_def)
  moreover have "\<forall>f\<in>set (query_meta sample_update). f \<in> word_field ` {..<16} \<and> 0 < field_size f"
    by (auto simp: sample_update_def sz simp flip: One_nat_def)
  moreover have "length (query_data sample_update) = meta_size (query_meta sample_update)"
    by (simp add: sample_update_def meta_size_def sz sz(2) [unfolded One_nat_def])
  ultimately have "\<exists>c' t'. default_update_cached (to_cached_field (item_schema TEST_FIELDS)) (replicate 32 0) sample_update = Some c'
    \<and> tuple_update_loop (query_data sample_update)
        (uncached_items (to_cached_field (item_schema TEST_FIELDS)) (query_items sample_update)) (replicate 128 0) = Some t'
    \<and> tuple_update (write_back (item_schema TEST_FIELDS) (replicate 32 0) (replicate 128 0)) sample_update
      = Some (write_back (item_schema TEST_FIELDS) c' t')
    \<and> (matches (item_schema TEST_FIELDS) (query_meta sample_update) \<longrightarrow> t' = replicate 128 0)"
    by (rule update_commutes) simp_all
  then show ?thesis
    unfolding item_schema_simps by blast
qed

end
