(* ===== verification/Insert_Only.thy ===== *)
theory Insert_Only
  imports Heap_Array
begin

text \<open>
  The insert-only table of \<^verbatim>\<open>src/table.rs\<close>: every thread fills a private page of tuples and, when it is
  full, copies it to a fresh page of the table's frame. \<open>'a\<close> is the type of tuples, of \<open>tsz\<close> bytes each.
  The map from threads to pages is a hash map of the \<^verbatim>\<open>flurry\<close> crate; the pages of the frame are
  handed out by the array allocator, and their content is kept by start address.
\<close>

section \<open>Definitions\<close>

definition HUGEPAGE_SIZE :: nat where "HUGEPAGE_SIZE = 2 * 1024 * 1024"

record 'a PageBuffer =
  pnext :: nat
  pdata :: "nat \<Rightarrow> 'a"

definition page_cap :: "nat \<Rightarrow> nat" where
  "page_cap tsz = HUGEPAGE_SIZE div tsz"

text \<open>\<open>z\<close> is the tuple of zero bytes.\<close>

definition page_new :: "'a \<Rightarrow> 'a PageBuffer" where
  "page_new z = \<lparr> pnext = 0, pdata = (\<lambda>_. z) \<rparr>"

definition page_try_insert :: "nat \<Rightarrow> 'a \<Rightarrow> 'a PageBuffer \<Rightarrow> ('a + unit) \<times> 'a PageBuffer" where
  "page_try_insert tsz v p =
     (let nxt = pnext p
      in if nxt < page_cap tsz then (Inr (), p\<lparr> pdata := (pdata p)(nxt := v), pnext := pnext p + 1 \<rparr>)
         else (Inl v, p))"

definition page_reset_index :: "'a PageBuffer \<Rightarrow> 'a PageBuffer" where
  "page_reset_index p = p\<lparr> pnext := 0 \<rparr>"

record ('a, 'm) InsertonlyTable =
  pm :: ArrayAllocator
  pmem :: memory
  frames :: "addr \<Rightarrow> nat \<Rightarrow> 'a"
  tls_pages :: 'm

text \<open>
  \<^verbatim>\<open>new\<close>: \<open>ptr\<close>, \<open>m\<close> and \<open>content\<close> are the frame that was mapped. The elements of the allocator are arrays
  of machine words of the size of a huge page.
\<close>

definition insertonly_new ::
  "(tid, 'a PageBuffer, 'm) hash_map \<Rightarrow> nat \<Rightarrow> nat \<Rightarrow> addr \<Rightarrow> memory \<Rightarrow> (addr \<Rightarrow> nat \<Rightarrow> 'a) \<Rightarrow> ('a, 'm) InsertonlyTable option"
  where
  "insertonly_new ops tsz c ptr m content =
     (let size1 = of_nat (c * tsz); sz = align_up size1 (of_nat HUGEPAGE_SIZE);
          pm_page_cnt = unat sz div HUGEPAGE_SIZE
      in map_option (\<lambda>(a, m'). \<lparr> pm = a, pmem = m', frames = content, tls_pages = hm_new ops \<rparr>)
           (allocator_new HUGEPAGE_SIZE 8 pm_page_cnt ptr m))"

text \<open>\<^verbatim>\<open>clear\<close> leaves the map without entries.\<close>

definition insertonly_reset :: "(tid, 'a PageBuffer, 'm) hash_map \<Rightarrow> ('a, 'm) InsertonlyTable \<Rightarrow> ('a, 'm) InsertonlyTable" where
  "insertonly_reset ops T =
     (let (a, m') = allocator_reset HUGEPAGE_SIZE (pm T) (pmem T)
      in T\<lparr> tls_pages := hm_new ops, pm := a, pmem := m' \<rparr>)"

text \<open>
  \<^verbatim>\<open>get_tls_page\<close> calls itself after inserting a page; the call finds it, and \<^const>\<open>None\<close> stands for the endless
  recursion of a map that does not.
\<close>

definition get_tls_page ::
  "(tid, 'a PageBuffer, 'm) hash_map \<Rightarrow> 'a \<Rightarrow> tid \<Rightarrow> ('a, 'm) InsertonlyTable \<Rightarrow> ('a PageBuffer \<times> ('a, 'm) InsertonlyTable) option"
  where
  "get_tls_page ops z t T =
     (case hm_get ops (tls_pages T) t of
        Some v \<Rightarrow> Some (v, T)
      | None \<Rightarrow>
          let T1 = T\<lparr> tls_pages := hm_insert ops (tls_pages T) t (page_new z) \<rparr>
          in (case hm_get ops (tls_pages T1) t of Some v \<Rightarrow> Some (v, T1) | None \<Rightarrow> None))"

text \<open>The page of a thread is changed in place.\<close>

definition set_page :: "(tid, 'a PageBuffer, 'm) hash_map \<Rightarrow> tid \<Rightarrow> 'a PageBuffer \<Rightarrow> ('a, 'm) InsertonlyTable \<Rightarrow> ('a, 'm) InsertonlyTable" where
  "set_page ops t p T = T\<lparr> tls_pages := hm_insert ops (tls_pages T) t p \<rparr>"

definition insertonly_insert ::
  "(tid, 'a PageBuffer, 'm) hash_map \<Rightarrow> nat \<Rightarrow> 'a \<Rightarrow> tid \<Rightarrow> 'a \<Rightarrow> ('a, 'm) InsertonlyTable \<Rightarrow> ('a, 'm) InsertonlyTable outcome option"
  where
  "insertonly_insert ops tsz z t tuple T =
     (case get_tls_page ops z t T of
        None \<Rightarrow> None
      | Some (page, T1) \<Rightarrow>
          (case page_try_insert tsz tuple page of
             (Inr _, page1) \<Rightarrow> Some (Done (set_page ops t page1 T1))
           | (Inl tuple, page1) \<Rightarrow>
               (case alloc HUGEPAGE_SIZE (pm T1) (pmem T1) of
                  (Inl _, _) \<Rightarrow> Some Panic
                | (Inr (_, pm_page), a) \<Rightarrow>
                    let T2 = T1\<lparr> pm := a, frames := (frames T1)(pm_page := pdata page1) \<rparr>;
                        page2 = page_reset_index page1;
                        (_, page3) = page_try_insert tsz tuple page2
                    in Some (Done (set_page ops t page3 T2)))))"

text \<open>A sequence of insertions, each by some thread.\<close>

fun insert_all ::
  "(tid, 'a PageBuffer, 'm) hash_map \<Rightarrow> nat \<Rightarrow> 'a \<Rightarrow> (tid \<times> 'a) list \<Rightarrow> ('a, 'm) InsertonlyTable \<Rightarrow> ('a, 'm) InsertonlyTable outcome option"
  where
  "insert_all ops tsz z [] T = Some (Done T)"
| "insert_all ops tsz z ((t, v) # evs) T =
     (case insertonly_insert ops tsz z t v T of
        Some (Done T1) \<Rightarrow> insert_all ops tsz z evs T1
      | x \<Rightarrow> x)"

section \<open>Every tuple is kept, in order\<close>

definition page_tuples :: "'a PageBuffer option \<Rightarrow> 'a list" where
  "page_tuples p = (case p of None \<Rightarrow> [] | Some p \<Rightarrow> map (pdata p) [0..<pnext p])"

definition frame_tuples :: "nat \<Rightarrow> (addr \<Rightarrow> nat \<Rightarrow> 'a) \<Rightarrow> addr list \<Rightarrow> 'a list" where
  "frame_tuples tsz fr A = concat (map (\<lambda>a. map (fr a) [0..<page_cap tsz]) A)"

definition of_thread :: "tid \<Rightarrow> (tid \<times> 'a) list \<Rightarrow> 'a list" where
  "of_thread t evs = map snd (filter (\<lambda>e. fst e = t) evs)"

text \<open>
  \<open>A t\<close> are the pages thread \<open>t\<close> has copied, in that order, and \<open>F\<close> the free ones. The tuples of the
  copied pages and of the private page are those the thread inserted.
\<close>

definition kept ::
  "(tid, 'a PageBuffer, 'm) hash_map \<Rightarrow> nat \<Rightarrow> ('a, 'm) InsertonlyTable \<Rightarrow> (tid \<times> 'a) list \<Rightarrow> (tid \<Rightarrow> addr list) \<Rightarrow> bool" where
  "kept ops tsz T evs A \<longleftrightarrow>
     (\<forall>t. frame_tuples tsz (frames T) (A t) @ page_tuples (hm_get ops (tls_pages T) t) = of_thread t evs)
     \<and> (\<forall>t. distinct (A t)) \<and> (\<forall>t t'. t \<noteq> t' \<longrightarrow> set (A t) \<inter> set (A t') = {})
     \<and> (\<forall>t p. hm_get ops (tls_pages T) t = Some p \<longrightarrow> pnext p \<le> page_cap tsz)"

definition pages_free :: "('a, 'm) InsertonlyTable \<Rightarrow> addr set \<Rightarrow> (tid \<Rightarrow> addr list) \<Rightarrow> addr list \<Rightarrow> bool" where
  "pages_free T B A F \<longleftrightarrow> linked (pmem T) (list_node (pm T)) F \<and> distinct F \<and> set F \<subseteq> B
     \<and> (\<forall>t. set (A t) \<subseteq> B - set F)"

lemma frame_tuples_other: "a \<notin> set A \<Longrightarrow> frame_tuples tsz (fr(a := x)) A = frame_tuples tsz fr A"
proof -
  assume "a \<notin> set A"
  then have "map (\<lambda>b. map ((fr(a := x)) b) [0..<page_cap tsz]) A = map (\<lambda>b. map (fr b) [0..<page_cap tsz]) A"
    by (intro map_cong) auto
  then show ?thesis by (simp only: frame_tuples_def)
qed

lemma frame_tuples_snoc:
  "a \<notin> set A \<Longrightarrow> frame_tuples tsz (fr(a := x)) (A @ [a]) = frame_tuples tsz fr A @ map x [0..<page_cap tsz]"
  using frame_tuples_other [of a A tsz fr x] by (simp add: frame_tuples_def)

lemma of_thread_snoc: "of_thread t (evs @ [(t', v)]) = of_thread t evs @ (if t' = t then [v] else [])"
  by (simp add: of_thread_def)

lemma map_upt_snoc: "map (f(n := v)) [0..<n] @ [v] = map (f(n := v)) [0..<Suc n]" "map (f(n := v)) [0..<n] = map f [0..<n]"
  by simp_all

text \<open>The private page, once it is there.\<close>

lemma get_tls_page_spec:
  assumes laws: "hash_map_laws ops" and k: "kept ops tsz T evs A" and F: "pages_free T B A F"
  obtains p T1 where "get_tls_page ops z t T = Some (p, T1)" "hm_get ops (tls_pages T1) t = Some p"
    "kept ops tsz T1 evs A" "pages_free T1 B A F"
proof (cases "hm_get ops (tls_pages T) t")
  case None
  let ?T = "T\<lparr> tls_pages := hm_insert ops (tls_pages T) t (page_new z) \<rparr>"
  have get: "hm_get ops (tls_pages ?T) t' = (if t' = t then Some (page_new z) else hm_get ops (tls_pages T) t')" for t'
    by (simp add: hash_map_laws.get_insert [OF laws])
  have "page_tuples (hm_get ops (tls_pages ?T) t') = page_tuples (hm_get ops (tls_pages T) t')" for t'
    using None unfolding get by (simp add: page_tuples_def page_new_def)
  then have "kept ops tsz ?T evs A"
    using k unfolding kept_def get by (simp add: page_new_def)
  then show ?thesis
    using that [of "page_new z" ?T] None F get [of t] by (simp add: get_tls_page_def Let_def pages_free_def)
next
  case (Some p)
  then show ?thesis using that [of p T] k F by (simp add: get_tls_page_def)
qed

lemma set_page_get:
  assumes "hash_map_laws ops"
  shows "hm_get ops (tls_pages (set_page ops t q T)) t' = (if t' = t then Some q else hm_get ops (tls_pages T) t')"
    "pm (set_page ops t q T) = pm T" "pmem (set_page ops t q T) = pmem T" "frames (set_page ops t q T) = frames T"
  by (simp_all add: set_page_def hash_map_laws.get_insert [OF assms])

lemma kept_thread:
  assumes "kept ops tsz T evs A" "hm_get ops (tls_pages T) t = Some p"
  shows "of_thread t evs = frame_tuples tsz (frames T) (A t) @ map (pdata p) [0..<pnext p]" "pnext p \<le> page_cap tsz"
  using assms by (auto simp: kept_def page_tuples_def dest!: spec [of _ t])

lemma page_room:
  assumes laws: "hash_map_laws ops" and k: "kept ops tsz T evs A" and p: "hm_get ops (tls_pages T) t = Some p"
    and room: "pnext p < page_cap tsz"
  shows "kept ops tsz (set_page ops t (p\<lparr> pdata := (pdata p)(pnext p := v), pnext := pnext p + 1 \<rparr>) T) (evs @ [(t, v)]) A"
  using k kept_thread [OF k p] room unfolding kept_def
  by (auto simp: set_page_get [OF laws] of_thread_snoc page_tuples_def)

lemma page_full:
  assumes laws: "hash_map_laws ops" and k: "kept ops tsz T evs A" and p: "hm_get ops (tls_pages T) t = Some p"
    and full: "pnext p = page_cap tsz" "0 < page_cap tsz" and x: "\<forall>t. x \<notin> set (A t)"
    and T1: "frames T1 = (frames T)(x := pdata p)" "tls_pages T1 = tls_pages T"
  shows "kept ops tsz (set_page ops t (p\<lparr> pdata := (pdata p)(0 := v), pnext := 1 \<rparr>) T1) (evs @ [(t, v)]) (A(t := A t @ [x]))"
proof -
  let ?p = "p\<lparr> pdata := (pdata p)(0 := v), pnext := 1 \<rparr>" and ?A = "A(t := A t @ [x])"
  let ?T = "set_page ops t ?p T1"
  note kk = k [unfolded kept_def] and mine = kept_thread [OF k p]
  note get = set_page_get [OF laws]
  have "frame_tuples tsz (frames ?T) (?A t') @ page_tuples (hm_get ops (tls_pages ?T) t') = of_thread t' (evs @ [(t, v)])" for t'
  proof (cases "t' = t")
    case True
    then show ?thesis
      using full x by (simp add: get T1 of_thread_snoc frame_tuples_snoc page_tuples_def mine)
  next
    case False
    have "frame_tuples tsz (frames T) (A t') @ page_tuples (hm_get ops (tls_pages T) t') = of_thread t' evs"
      using kk by blast
    with False x show ?thesis
      by (simp add: get T1 of_thread_snoc frame_tuples_other)
  qed
  moreover have "distinct (?A t')" "t' \<noteq> t'' \<Longrightarrow> set (?A t') \<inter> set (?A t'') = {}" for t' t''
    using kk x by auto
  moreover have "hm_get ops (tls_pages ?T) t' = Some q \<Longrightarrow> pnext q \<le> page_cap tsz" for t' q
    using kk full by (auto simp: get T1 split: if_splits)
  ultimately show ?thesis
    unfolding kept_def by blast
qed

lemma insert_kept:
  assumes laws: "hash_map_laws ops" and cp: "0 < page_cap tsz"
    and k: "kept ops tsz T evs A" and F: "pages_free T B A F"
  shows "insertonly_insert ops tsz z t v T = Some Panic \<and> F = []
    \<or> (\<exists>T' A' F'. insertonly_insert ops tsz z t v T = Some (Done T') \<and> kept ops tsz T' (evs @ [(t, v)]) A'
        \<and> pages_free T' B A' F')"
proof -
  obtain p T1 where p: "get_tls_page ops z t T = Some (p, T1)" "hm_get ops (tls_pages T1) t = Some p"
    "kept ops tsz T1 evs A" "pages_free T1 B A F"
    using get_tls_page_spec [OF laws k F] by blast
  note ff = p(4) [unfolded pages_free_def]
  show ?thesis
  proof (cases "pnext p < page_cap tsz")
    case True
    then show ?thesis
      using page_room [OF laws p(3,2) True, of v] ff
      by (auto simp: insertonly_insert_def p(1) page_try_insert_def Let_def pages_free_def set_page_get [OF laws])
  next
    case False
    with kept_thread(2) [OF p(3,2)] have full: "pnext p = page_cap tsz"
      by simp
    show ?thesis
    proof (cases F)
      case Nil
      then show ?thesis
        using alloc_linked(1) [of "pmem T1" "pm T1" F HUGEPAGE_SIZE] ff False
        by (simp add: insertonly_insert_def p(1) page_try_insert_def Let_def)
    next
      case (Cons x ys)
      then have al: "alloc HUGEPAGE_SIZE (pm T1) (pmem T1)
          = (Inr ((x - start (pm T1)) div HUGEPAGE_SIZE, x), (pm T1)\<lparr> list_node := pmem T1 x \<rparr>)"
        and link: "linked (pmem T1) (pmem T1 x) ys"
        using alloc_linked [of "pmem T1" "pm T1" F] ff by simp_all
      let ?T1 = "T1\<lparr> pm := (pm T1)\<lparr> list_node := pmem T1 x \<rparr>, frames := (frames T1)(x := pdata p) \<rparr>"
      let ?T = "set_page ops t (p\<lparr> pdata := (pdata p)(0 := v), pnext := 1 \<rparr>) ?T1"
      have "kept ops tsz ?T (evs @ [(t, v)]) (A(t := A t @ [x]))"
        using ff Cons by (intro page_full [OF laws p(3,2) full cp]) auto
      moreover have "pages_free ?T B (A(t := A t @ [x])) ys"
        using ff link Cons by (auto simp: pages_free_def set_page_get [OF laws])
      moreover have "insertonly_insert ops tsz z t v T = Some (Done ?T)"
        using False cp al by (simp add: insertonly_insert_def p(1) page_try_insert_def Let_def page_reset_index_def)
      ultimately show ?thesis by blast
    qed
  qed
qed

lemma insert_all_kept:
  assumes laws: "hash_map_laws ops" and cp: "0 < page_cap tsz"
  shows "kept ops tsz T evs A \<Longrightarrow> pages_free T B A F \<Longrightarrow>
    insert_all ops tsz z evs' T = Some Panic
    \<or> (\<exists>T' A' F'. insert_all ops tsz z evs' T = Some (Done T') \<and> kept ops tsz T' (evs @ evs') A' \<and> pages_free T' B A' F')"
proof (induction evs' arbitrary: T evs A F)
  case (Cons e evs')
  obtain t v where e: "e = (t, v)"
    by (cases e)
  from insert_kept [OF laws cp Cons.prems, of z t v] show ?case
  proof (elim disjE exE conjE)
    fix T' A' F'
    assume s: "insertonly_insert ops tsz z t v T = Some (Done T')" "kept ops tsz T' (evs @ [(t, v)]) A'" "pages_free T' B A' F'"
    from Cons.IH [OF s(2,3)] show ?thesis
      by (simp add: e s(1))
  qed (simp add: e)
qed auto

lemma insertonly_new_kept:
  assumes laws: "hash_map_laws ops" and new: "insertonly_new ops tsz c ptr m content = Some T" and "0 < ptr"
  obtains n where "kept ops tsz T [] (\<lambda>_. [])"
    "pages_free T (set (blocks ptr HUGEPAGE_SIZE n)) (\<lambda>_. []) (rev (blocks ptr HUGEPAGE_SIZE n))"
proof -
  let ?n = "unat (align_up (of_nat (c * tsz)) (of_nat HUGEPAGE_SIZE)) div HUGEPAGE_SIZE"
  obtain a m' where a: "allocator_new HUGEPAGE_SIZE 8 ?n ptr m = Some (a, m')"
    "T = \<lparr> pm = a, pmem = m', frames = content, tls_pages = hm_new ops \<rparr>"
    using new by (auto simp: insertonly_new_def Let_def)
  note al = allocator_new_linked [OF a(1) assms(3)]
  have "kept ops tsz T [] (\<lambda>_. [])"
    by (simp add: a(2) kept_def hash_map_laws.get_new [OF laws] frame_tuples_def page_tuples_def of_thread_def)
  moreover have "pages_free T (set (blocks ptr HUGEPAGE_SIZE ?n)) (\<lambda>_. []) (rev (blocks ptr HUGEPAGE_SIZE ?n))"
    using al(1) distinct_blocks [OF al(5)] by (simp add: a(2) pages_free_def)
  ultimately show ?thesis by (rule that)
qed

section \<open>Properties\<close>



end
