(* ===== verification/Logger.thy ===== *)
theory Logger
  imports Backoff Query
begin

text \<open>
  \<^verbatim>\<open>src/log/mod.rs\<close>: the log. Threads reserve bytes of two alternating buffers with an atomic addition and
  copy their entry there; one thread flushes a buffer to the file when it is full. The results of
  the operating system are arguments of the calls; a write beyond a buffer is a value of its own.
\<close>

section \<open>Definitions\<close>

definition MAX_LOG_LEN :: nat where "MAX_LOG_LEN = 512"

definition DEFAULT_BUFFER_SIZE :: usize where "DEFAULT_BUFFER_SIZE = 1024 * 1024 * 64"

definition N_BUFFERS :: nat where "N_BUFFERS = 2"

record Logger =
  lsn :: usize
  cur_offset :: usize
  flushed_offset :: usize
  buffer_size :: usize
  should_stop :: bool
  buffers :: "nat \<Rightarrow> nat \<Rightarrow> u8"
  log_file :: bytes

datatype 'a log_result = Log_Ok 'a | Log_Panic | Out_Of_Buffer

text \<open>\<open>garbage\<close> is the content of the buffers as allocated; the file starts empty.\<close>

definition with_buffer_size :: "(nat \<Rightarrow> nat \<Rightarrow> u8) \<Rightarrow> usize \<Rightarrow> Logger" where
  "with_buffer_size garbage bsz =
     \<lparr> lsn = 0, cur_offset = 0, flushed_offset = 0, buffer_size = bsz, should_stop = False,
       buffers = garbage, log_file = [] \<rparr>"

definition logger_new :: "(nat \<Rightarrow> nat \<Rightarrow> u8) \<Rightarrow> Logger" where
  "logger_new garbage = with_buffer_size garbage DEFAULT_BUFFER_SIZE"

definition acquire_lsn :: "Logger \<Rightarrow> usize \<times> Logger" where
  "acquire_lsn L = (let (old, new) = fetch_add (lsn L) 1 in (old, L\<lparr> lsn := new \<rparr>))"

text \<open>
  \<^verbatim>\<open>flush_buffer\<close>: \<open>rt\<close> is the result of \<^verbatim>\<open>write\<close>, so many bytes reached the file; an error is only printed.
  A failing \<^verbatim>\<open>fsync\<close> panics.
\<close>

definition flush_buffer :: "int \<Rightarrow> bool \<Rightarrow> nat \<Rightarrow> Logger \<Rightarrow> Logger log_result" where
  "flush_buffer rt synced buffer_id L =
     (let out = map (buffers L buffer_id) [0..<unat (buffer_size L)];
          L1 = L\<lparr> log_file := log_file L @ take (nat rt) out \<rparr>
      in if synced then Log_Ok L1 else Log_Panic)"

definition try_flush_logs :: "int \<Rightarrow> bool \<Rightarrow> Logger \<Rightarrow> ((usize + usize) \<times> Logger) log_result" where
  "try_flush_logs rt synced L =
     (let cur = cur_offset L; flushed = flushed_offset L; distance = cur - flushed
      in if distance < buffer_size L then Log_Ok (Inl cur, L)
         else if \<not> distance < buffer_size L * of_nat N_BUFFERS then Log_Panic
         else
           let buffer_id = unat ((flushed div buffer_size L) mod of_nat N_BUFFERS)
           in case flush_buffer rt synced buffer_id L of
                Log_Ok L1 \<Rightarrow>
                  let (old, new) = fetch_add (flushed_offset L1) (buffer_size L1)
                  in Log_Ok (Inr old, L1\<lparr> flushed_offset := new \<rparr>)
              | Log_Panic \<Rightarrow> Log_Panic
              | Out_Of_Buffer \<Rightarrow> Out_Of_Buffer)"

text \<open>
  \<^verbatim>\<open>acquire_log_buffer\<close> returns the slice: the buffer, the offset in it and the length. The debug assertion
  panics, and so does the division by a buffer size of 0.
\<close>

definition acquire_log_buffer :: "nat \<Rightarrow> Logger \<Rightarrow> ((nat \<times> nat \<times> nat) \<times> Logger) log_result" where
  "acquire_log_buffer sz L =
     (if sz \<le> MAX_LOG_LEN \<and> buffer_size L \<noteq> 0 then
        let (loc, new) = fetch_add (cur_offset L) (of_nat sz);
            offset = loc mod buffer_size L;
            buffer_id = (loc div buffer_size L) mod of_nat N_BUFFERS
        in Log_Ok ((unat buffer_id, unat offset, sz), L\<lparr> cur_offset := new \<rparr>)
      else Log_Panic)"

definition copy_slice :: "nat \<Rightarrow> nat \<Rightarrow> bytes \<Rightarrow> (nat \<Rightarrow> nat \<Rightarrow> u8) \<Rightarrow> nat \<Rightarrow> nat \<Rightarrow> u8" where
  "copy_slice b off val bufs =
     bufs(b := (\<lambda>i. if off \<le> i \<and> i < off + length val then val ! (i - off) else bufs b i))"

definition append_log :: "bytes \<Rightarrow> Logger \<Rightarrow> Logger log_result" where
  "append_log val L =
     (case acquire_log_buffer (length val) L of
        Log_Ok ((b, off, n), L1) \<Rightarrow>
          if off + n \<le> unat (buffer_size L) then Log_Ok (L1\<lparr> buffers := copy_slice b off val (buffers L1) \<rparr>)
          else Out_Of_Buffer
      | Log_Panic \<Rightarrow> Log_Panic
      | Out_Of_Buffer \<Rightarrow> Out_Of_Buffer)"

definition stop_logger :: "Logger \<Rightarrow> Logger" where
  "stop_logger L = L\<lparr> should_stop := True \<rparr>"

text \<open>
  One turn of the flushing thread, with its backoff; the answer is whether it goes on.
\<close>

definition logger_turn :: "int \<Rightarrow> bool \<Rightarrow> Logger \<times> Backoff \<Rightarrow> (bool \<times> Logger \<times> Backoff) log_result" where
  "logger_turn rt synced s =
     (let (L, b) = s
      in if should_stop L then Log_Ok (False, L, b)
         else case try_flush_logs rt synced L of
                Log_Ok (Inl _, L1) \<Rightarrow> Log_Ok (True, L1, snd (backoff_spin b))
              | Log_Ok (Inr _, L1) \<Rightarrow> Log_Ok (True, L1, backoff_reset b)
              | Log_Panic \<Rightarrow> Log_Panic
              | Out_Of_Buffer \<Rightarrow> Out_Of_Buffer)"

section \<open>The log as a sequence of bytes\<close>

text \<open>Appends and turns of the flushing thread in any order; the device takes every write completely.\<close>

datatype log_op = Append bytes | Flush

definition flush_op :: "Logger \<Rightarrow> Logger log_result" where
  "flush_op L =
     (case try_flush_logs (int (unat (buffer_size L))) True L of
        Log_Ok (_, L1) \<Rightarrow> Log_Ok L1 | Log_Panic \<Rightarrow> Log_Panic | Out_Of_Buffer \<Rightarrow> Out_Of_Buffer)"

fun log_run :: "log_op list \<Rightarrow> Logger \<Rightarrow> Logger log_result" where
  "log_run [] L = Log_Ok L"
| "log_run (Append v # xs) L = (case append_log v L of Log_Ok L1 \<Rightarrow> log_run xs L1 | x \<Rightarrow> x)"
| "log_run (Flush # xs) L = (case flush_op L of Log_Ok L1 \<Rightarrow> log_run xs L1 | x \<Rightarrow> x)"

fun appended_bytes :: "log_op list \<Rightarrow> bytes" where
  "appended_bytes [] = []"
| "appended_bytes (Append v # xs) = v @ appended_bytes xs"
| "appended_bytes (Flush # xs) = appended_bytes xs"

text \<open>Byte \<open>p\<close> of the log is byte \<open>p mod n\<close> of buffer \<open>(p div n) mod 2\<close>.\<close>

definition log_byte :: "Logger \<Rightarrow> nat \<Rightarrow> u8" where
  "log_byte L p = (let n = unat (buffer_size L) in buffers L ((p div n) mod N_BUFFERS) (p mod n))"

definition log_inv :: "bytes \<Rightarrow> Logger \<Rightarrow> bool" where
  "log_inv es L \<longleftrightarrow>
     (let n = unat (buffer_size L); c = unat (cur_offset L); f = unat (flushed_offset L)
      in 0 < n \<and> 2 * n < 2 ^ 63 \<and> c = length es \<and> f \<le> c \<and> n dvd f \<and> log_file L = take f es
       \<and> (c - f \<le> 2 * n \<longrightarrow> (\<forall>p. f \<le> p \<and> p < c \<longrightarrow> log_byte L p = es ! p)))"

lemma unat_add_small: "unat x + n < 2 ^ 64 \<Longrightarrow> unat (x + of_nat n :: usize) = unat x + n"
  by (simp add: unat_word_ariths unsigned_of_nat take_bit_eq_mod)

lemma unat_two: "unat (of_nat N_BUFFERS :: usize) = 2"
  by (simp add: N_BUFFERS_def)

text \<open>Two bytes of the log that share a place in the buffers are at least two buffers apart.\<close>

lemma same_place_apart:
  fixes p q n :: nat
  assumes "p < q" "p mod n = q mod n" "(p div n) mod 2 = (q div n) mod 2" "0 < n"
  shows "p + 2 * n \<le> q"
proof -
  have q: "q = q div n * n + q mod n" and p: "p = p div n * n + p mod n"
    by simp_all
  have "p div n < q div n"
  proof (rule ccontr)
    assume "\<not> p div n < q div n"
    then have "q div n * n \<le> p div n * n" by simp
    then show False using assms(1,2) p q by linarith
  qed
  moreover have "b \<noteq> Suc a" if "a mod 2 = b mod 2" for a b :: nat
    using that by presburger
  then have "q div n \<noteq> Suc (p div n)"
    using assms(3) by blast
  ultimately have "p div n + 2 \<le> q div n" by simp
  then have "(p div n + 2) * n \<le> q div n * n"
    by (rule mult_le_mono1)
  then have "p div n * n + 2 * n \<le> q div n * n"
    by (simp only: distrib_right)
  then show ?thesis
    using assms(2) p q by linarith
qed

lemma append_log_eq:
  "append_log v L = Log_Ok L' \<longleftrightarrow>
     length v \<le> MAX_LOG_LEN \<and> buffer_size L \<noteq> 0
     \<and> unat (cur_offset L) mod unat (buffer_size L) + length v \<le> unat (buffer_size L)
     \<and> L' = L\<lparr> cur_offset := cur_offset L + of_nat (length v),
         buffers := copy_slice (unat (cur_offset L) div unat (buffer_size L) mod 2) (unat (cur_offset L) mod unat (buffer_size L)) v (buffers L) \<rparr>"
  by (auto simp: append_log_def acquire_log_buffer_def fetch_add_def Let_def unat_two unat_mod unat_div split: if_splits)

lemma log_byte_copy:
  assumes n: "n = unat (buffer_size L)" "0 < n" and fits: "c mod n + length v \<le> n"
    and L': "buffers L' = copy_slice (c div n mod 2) (c mod n) v (buffers L)" "buffer_size L' = buffer_size L"
  shows "k < length v \<Longrightarrow> log_byte L' (c + k) = v ! k"
    and "p < c \<Longrightarrow> c + length v \<le> p + 2 * n \<Longrightarrow> log_byte L' p = log_byte L p"
proof -
  have at_q: "(c + k) div n = c div n" "(c + k) mod n = c mod n + k" if "k < length v" for k
  proof -
    define q r where qr: "q = c div n" "r = c mod n"
    have c: "c = q * n + r" and r: "r + k < n"
      using that fits by (simp_all add: qr)
    then have "(q * n + (r + k)) div n = q" "(q * n + (r + k)) mod n = r + k"
      by simp_all
    moreover have "c + k = q * n + (r + k)"
      by (simp only: c add.assoc)
    ultimately show "(c + k) div n = c div n" "(c + k) mod n = c mod n + k"
      by (simp_all only: qr)
  qed
  show "log_byte L' (c + k) = v ! k" if "k < length v"
    using that at_q [OF that] n by (simp add: log_byte_def Let_def L' copy_slice_def N_BUFFERS_def)
  show "log_byte L' p = log_byte L p" if p: "p < c" "c + length v \<le> p + 2 * n"
  proof (cases "p div n mod 2 = c div n mod 2 \<and> c mod n \<le> p mod n \<and> p mod n < c mod n + length v")
    case True
    define k where "k = p mod n - c mod n"
    have k: "k < length v" "c mod n + k = p mod n"
      using True by (auto simp: k_def)
    have "p + 2 * n \<le> c + k"
      using True p(1) at_q [OF k(1)] k(2) n(2) by (intro same_place_apart) simp_all
    with p k(1) show ?thesis by simp
  next
    case False
    then show ?thesis
      using n by (auto simp: log_byte_def Let_def L' copy_slice_def N_BUFFERS_def)
  qed
qed

lemma append_inv:
  assumes inv: "log_inv es L" and run: "append_log v L = Log_Ok L'" and small: "length es + length v < 2 ^ 64"
  shows "log_inv (es @ v) L'"
proof -
  define n c f where d: "n = unat (buffer_size L)" "c = unat (cur_offset L)" "f = unat (flushed_offset L)"
  note i = inv [unfolded log_inv_def Let_def, folded d]
  have v: "c mod n + length v \<le> n" and L': "L' = L\<lparr> cur_offset := cur_offset L + of_nat (length v),
      buffers := copy_slice (c div n mod 2) (c mod n) v (buffers L) \<rparr>"
    using run by (simp_all add: append_log_eq d)
  have c': "unat (cur_offset L') = c + length v"
    using unat_add_small [of "cur_offset L" "length v"] i small by (simp add: L' d)
  have same: "buffer_size L' = buffer_size L" "flushed_offset L' = flushed_offset L" "log_file L' = log_file L"
    "buffers L' = copy_slice (c div n mod 2) (c mod n) v (buffers L)"
    by (simp_all add: L')
  have "0 < n" using i by blast
  note lb = log_byte_copy [OF d(1) \<open>0 < n\<close> v same(4,1)]
  have "log_byte L' p = (es @ v) ! p" if p: "f \<le> p" "p < c + length v" "c + length v - f \<le> 2 * n" for p
  proof (cases "p < c")
    case True
    then show ?thesis
      using lb(2) [of p] i p by (simp add: nth_append)
  next
    case False
    then show ?thesis
      using lb(1) [of "p - c"] i p by (simp add: nth_append)
  qed
  then show ?thesis
    using i c' unfolding log_inv_def Let_def same d [symmetric] by auto
qed

text \<open>What a flush does, on natural numbers.\<close>

lemma flush_op_eq:
  assumes "log_inv es L"
  defines "n \<equiv> unat (buffer_size L)" and "c \<equiv> unat (cur_offset L)" and "f \<equiv> unat (flushed_offset L)"
  shows "flush_op L =
    (if c - f < n then Log_Ok L
     else if 2 * n \<le> c - f then Log_Panic
     else Log_Ok (L\<lparr> log_file := log_file L @ map (buffers L (f div n mod 2)) [0..<n],
                    flushed_offset := flushed_offset L + of_nat n \<rparr>))"
proof -
  note i = assms(1) [unfolded log_inv_def Let_def, folded n_def c_def f_def]
  have "flushed_offset L \<le> cur_offset L"
    using i by (simp add: word_le_nat_alt c_def f_def)
  then have dist: "unat (cur_offset L - flushed_offset L) = c - f"
    by (simp add: unat_sub c_def f_def)
  have two: "unat (buffer_size L * of_nat N_BUFFERS) = 2 * n"
    using i by (simp add: N_BUFFERS_def unat_word_ariths n_def)
  show ?thesis
    by (simp add: flush_op_def try_flush_logs_def flush_buffer_def Let_def word_less_nat_alt dist two
        unat_two unat_mod unat_div fetch_add_def not_less flip: n_def f_def) (simp add: n_def)
qed

lemma flush_inv:
  assumes inv: "log_inv es L" and run: "flush_op L = Log_Ok L'"
  shows "log_inv es L'"
proof -
  define n c f where d: "n = unat (buffer_size L)" "c = unat (cur_offset L)" "f = unat (flushed_offset L)"
  note i = inv [unfolded log_inv_def Let_def, folded d]
  show ?thesis
  proof (cases "c - f < n")
    case True
    then show ?thesis
      using run inv by (simp add: flush_op_eq [OF inv, folded d])
  next
    case False
    then have room: "c - f < 2 * n" and L': "L' = L\<lparr> log_file := log_file L @ map (buffers L (f div n mod 2)) [0..<n],
        flushed_offset := flushed_offset L + of_nat n \<rparr>"
      using run by (auto simp: flush_op_eq [OF inv, folded d] split: if_splits)
    have le: "f + n \<le> c" "c = length es"
      using False i by auto
    have f': "unat (flushed_offset L') = f + n"
      using unat_add_small [of "flushed_offset L" n] le(1) unsigned_less [of "cur_offset L", where ?'a = nat]
      by (simp add: L' d)
    have "buffers L (f div n mod 2) j = es ! (f + j)" if "j < n" for j
    proof -
      obtain k where k: "f = n * k"
        using i by (auto elim: dvdE)
      have "log_byte L (f + j) = es ! (f + j)"
        using i le that room by auto
      then show ?thesis
        using that by (simp add: log_byte_def Let_def N_BUFFERS_def k flip: d(1))
    qed
    then have "map (buffers L (f div n mod 2)) [0..<n] = take n (drop f es)"
      using le by (intro nth_equalityI) auto
    then have "log_file L' = take (f + n) es"
      using i by (simp add: L' take_add)
    moreover have "log_byte L' p = log_byte L p" for p
      by (simp add: log_byte_def L')
    moreover have "buffer_size L' = buffer_size L" "cur_offset L' = cur_offset L"
      by (simp_all add: L')
    ultimately show ?thesis
      using i le(1) f' room unfolding log_inv_def Let_def by (simp flip: d)
  qed
qed

lemma log_run_inv:
  "log_inv es L \<Longrightarrow> length es + length (appended_bytes xs) < 2 ^ 64 \<Longrightarrow> log_run xs L = Log_Ok L' \<Longrightarrow>
     log_inv (es @ appended_bytes xs) L'"
proof (induction xs L arbitrary: es rule: log_run.induct)
  case (2 v xs L)
  then obtain L1 where "append_log v L = Log_Ok L1" "log_run xs L1 = Log_Ok L'"
    by (auto split: log_result.splits)
  moreover from this have "log_inv (es @ v) L1"
    using append_inv [of es L v L1] 2(2,3) by simp
  ultimately show ?case
    using 2(1) [of L1 "es @ v"] 2(3) by (simp add: add.assoc)
next
  case (3 xs L)
  then obtain L1 where "flush_op L = Log_Ok L1" "log_run xs L1 = Log_Ok L'"
    by (auto split: log_result.splits)
  with 3 show ?case
    using flush_inv [of es L L1] by auto
qed simp

lemma with_buffer_size_inv:
  assumes "0 < unat bsz" "2 * unat bsz < 2 ^ 63"
  shows "log_inv [] (with_buffer_size g bsz)"
  using assms by (simp add: log_inv_def with_buffer_size_def Let_def)

lemma append_log_beyond:
  assumes "length v \<le> MAX_LOG_LEN" "buffer_size L \<noteq> 0" "unat (buffer_size L) < unat (cur_offset L) mod unat (buffer_size L) + length v"
  shows "append_log v L = Out_Of_Buffer"
  using assms by (simp add: append_log_def acquire_log_buffer_def fetch_add_def Let_def unat_mod)

lemma append_log_Ok:
  assumes "length v \<le> MAX_LOG_LEN" "0 < unat (buffer_size L)" "unat (cur_offset L) mod unat (buffer_size L) + length v \<le> unat (buffer_size L)"
  obtains L' where "append_log v L = Log_Ok L'" "buffer_size L' = buffer_size L"
    "cur_offset L' = cur_offset L + of_nat (length v)" "flushed_offset L' = flushed_offset L"
  using assms append_log_eq [of v L] by (fastforce simp: unat_gt_0)

text \<open>Entries of one size that divides the buffer size never straddle a buffer.\<close>

lemma fixed_entries_in_buffer:
  fixes c d n :: nat
  assumes "d dvd n" "d dvd c" "0 < d" "0 < n"
  shows "c mod n + d \<le> n"
proof -
  have "d dvd c mod n" "c mod n < n"
    using assms by (simp_all add: dvd_mod)
  then obtain a b where "c mod n = d * a" "n = d * b"
    using assms(1) by (metis dvdE)
  then show ?thesis
    using \<open>c mod n < n\<close> assms(3) by (metis mult_less_cancel1 Suc_leI mult_Suc_right mult_le_mono2 add.commute)
qed

lemma fixed_run:
  assumes d: "0 < d" "d \<le> MAX_LOG_LEN"
  shows "log_inv es L \<Longrightarrow> length es + length (appended_bytes xs) < 2 ^ 64 \<Longrightarrow> d dvd length es \<Longrightarrow>
    (\<forall>v. Append v \<in> set xs \<longrightarrow> length v = d) \<Longrightarrow> unat (buffer_size L) = n \<Longrightarrow> d dvd n \<Longrightarrow> log_run xs L \<noteq> Out_Of_Buffer"
proof (induction xs L arbitrary: es rule: log_run.induct)
  case (2 v xs L)
  have n: "0 < unat (buffer_size L)" "unat (cur_offset L) = length es"
    using 2(2) by (simp_all add: log_inv_def Let_def)
  have v: "length v = d"
    using 2(5) by simp
  have "unat (cur_offset L) mod unat (buffer_size L) + length v \<le> unat (buffer_size L)"
    using fixed_entries_in_buffer [of d "unat (buffer_size L)" "length es"] 2(4,6,7) n v d(1) by simp
  then obtain L1 where L1: "append_log v L = Log_Ok L1" "buffer_size L1 = buffer_size L"
    using append_log_Ok [of v L] n(1) v d(2) by metis
  have "log_inv (es @ v) L1"
    using append_inv [OF 2(2) L1(1)] 2(3) by simp
  then have "log_run xs L1 \<noteq> Out_Of_Buffer"
    using 2(1) [OF L1(1), of "es @ v"] 2(3-7) L1(2) v by simp
  then show ?case by (simp add: L1(1))
next
  case (3 xs L)
  show ?case
  proof (cases "flush_op L")
    case (Log_Ok L1)
    then have "buffer_size L1 = buffer_size L"
      using 3(2) by (auto simp: flush_op_eq split: if_splits)
    then show ?thesis
      using 3(1) [OF Log_Ok, of es] flush_inv [OF 3(2) Log_Ok] 3(3-7) Log_Ok by simp
  next
    case Out_Of_Buffer
    then show ?thesis using 3(2) by (simp add: flush_op_eq split: if_splits)
  qed simp
qed simp

lemma repeat_append:
  assumes "length e \<le> MAX_LOG_LEN" "unat (buffer_size L) < 2 ^ 64"
  shows "unat (cur_offset L) + k * length e \<le> unat (buffer_size L) \<Longrightarrow>
    0 < length e \<Longrightarrow>
    \<exists>L'. log_run (replicate k (Append e) @ xs) L = log_run xs L' \<and> buffer_size L' = buffer_size L
      \<and> unat (cur_offset L') = unat (cur_offset L) + k * length e"
  using assms
proof (induction k arbitrary: L)
  case (Suc k)
  have "length e \<le> Suc k * length e"
    by simp
  then have "unat (cur_offset L) < unat (buffer_size L)"
    using Suc.prems(1,2) by linarith
  then have "unat (cur_offset L) mod unat (buffer_size L) + length e \<le> unat (buffer_size L)"
    using Suc.prems(1) by simp
  then obtain L1 where L1: "append_log e L = Log_Ok L1" "buffer_size L1 = buffer_size L"
    "cur_offset L1 = cur_offset L + of_nat (length e)"
    using append_log_Ok [of e L] Suc.prems(3) \<open>unat (cur_offset L) < unat (buffer_size L)\<close> by (metis gr_implies_not0 neq0_conv)
  have c: "unat (cur_offset L1) = unat (cur_offset L) + length e"
    using unat_add_small [of "cur_offset L" "length e"] Suc.prems by (simp add: L1(3))
  have "unat (cur_offset L1) + k * length e \<le> unat (buffer_size L1)"
    using Suc.prems(1) c L1(2) by simp
  from Suc.IH [OF this Suc.prems(2,3)] Suc.prems(4) L1(2) c show ?case
    by (simp add: L1(1) add.assoc)
qed auto

section \<open>Properties\<close>



text \<open>
  Entries of one size that divides the buffer size stay within the buffers. Whatever the order of
  appends and flushes, no slice handed out reaches beyond its buffer.
\<close>

theorem log_fixed_entries:
  assumes "0 < d" and "d \<le> MAX_LOG_LEN" and "d dvd unat bsz" and "0 < unat bsz" and "2 * unat bsz < 2 ^ 63"
    and "length (appended_bytes xs) < 2 ^ 64" and "\<forall>v. Append v \<in> set xs \<longrightarrow> length v = d"
  shows "log_run xs (with_buffer_size g bsz) \<noteq> Out_Of_Buffer"
  using assms with_buffer_size_inv [of bsz g]
  by (intro fixed_run [of d "[]" _ _ "unat bsz"]) (simp_all add: with_buffer_size_def)

theorem log_fixed_entries_witness:
  "(2 :: nat) dvd unat (4 :: usize) \<and> log_run [Append [1, 2], Flush, Append [3, 4]] (with_buffer_size (\<lambda>_ _. 0) 4) \<noteq> Out_Of_Buffer"
  using log_fixed_entries [of 2 4 "[Append [1, 2], Flush, Append [3, 4]]" "\<lambda>_ _. 0"] by (simp add: MAX_LOG_LEN_def)

text \<open>
  C36: entries of a size that does not divide the buffer size are written past the buffer. The
  reservation does not check where the slice ends: appending an entry of such a size over and over
  reaches beyond the first buffer at the latest with the entry after \<open>bsz div d\<close>.
\<close>

theorem log_slice_overflow:
  assumes "length e \<le> MAX_LOG_LEN" and "\<not> length e dvd unat bsz" and "0 < length e"
  shows "log_run (replicate (unat bsz div length e + 1) (Append e)) (with_buffer_size g bsz) = Out_Of_Buffer"
proof -
  let ?d = "length e" and ?n = "unat bsz" and ?L = "with_buffer_size g bsz"
  have n: "buffer_size ?L = bsz" "unat (cur_offset ?L) = 0"
    by (simp_all add: with_buffer_size_def)
  have lt: "?n < 2 ^ 64"
    using unsigned_less [of bsz, where ?'a = nat] by simp
  have "?n div ?d * ?d \<le> ?n" "?n mod ?d < ?d" "0 < ?n mod ?d"
    using assms by (simp_all add: dvd_eq_mod_eq_0)
  moreover have "?n div ?d * ?d + ?n mod ?d = ?n"
    by simp
  ultimately have k: "?n div ?d * ?d < ?n" "?n < ?n div ?d * ?d + ?d"
    by linarith+
  obtain L' where L': "log_run (replicate (?n div ?d) (Append e) @ [Append e]) ?L = log_run [Append e] L'"
    "buffer_size L' = bsz" "unat (cur_offset L') = ?n div ?d * ?d"
    using repeat_append [of e ?L "?n div ?d" "[Append e]"] assms(1,3) k(1) n lt by auto
  have "bsz \<noteq> 0"
    using k(1) by auto
  then have "append_log e L' = Out_Of_Buffer"
    using append_log_beyond [of e L'] assms(1) k L'(2,3) by simp
  then show ?thesis
    using L'(1) by (simp add: replicate_app_Cons_same)
qed

theorem log_slice_overflow_witness:
  "\<not> length (replicate 100 (1 :: u8)) dvd unat (1024 :: usize)
   \<and> log_run (replicate 11 (Append (replicate 100 1))) (with_buffer_size (\<lambda>_ _. 0) 1024) = Out_Of_Buffer"
  using log_slice_overflow [of "replicate 100 1" 1024 "\<lambda>_ _. 0"] by (simp add: MAX_LOG_LEN_def)



end
