(* ===== verification/Pm_Heap.thy ===== *)
theory Pm_Heap
  imports Heap_Array
begin

text \<open>
  \<^verbatim>\<open>src/utils/mmap.rs\<close> and \<^verbatim>\<open>src/storage/pm_heap.rs\<close>: memory mappings and the heap of pool files. The system calls
  and the flags of the \<^verbatim>\<open>libc\<close> crate are parameters on a state of the operating system, with their
  documented behaviour as the laws of \<open>os_laws\<close>.
\<close>

section \<open>The operating system\<close>

type_synonym i32 = "32 word"

record 's os =
  MAP_HUGE_2MB :: i32
  MAP_FIXED :: i32
  MAP_HUGETLB :: i32
  MAP_SYNC :: i32
  MAP_SHARED_VALIDATE :: i32
  MAP_ANONYMOUS :: i32
  MAP_PRIVATE :: i32
  PROT_WRITE :: i32
  PROT_READ :: i32
  MAP_FAILED :: usize
  os_mmap :: "usize \<Rightarrow> usize \<Rightarrow> i32 \<Rightarrow> i32 \<Rightarrow> i32 \<Rightarrow> 's \<Rightarrow> usize \<times> 's"
  os_munmap :: "usize \<Rightarrow> usize \<Rightarrow> 's \<Rightarrow> 's"
  os_open :: "string \<Rightarrow> 's \<Rightarrow> i32 option \<times> 's"
  os_set_len :: "i32 \<Rightarrow> usize \<Rightarrow> 's \<Rightarrow> bool \<times> 's"
  os_sync :: "i32 \<Rightarrow> 's \<Rightarrow> bool \<times> 's"
  os_close :: "i32 \<Rightarrow> 's \<Rightarrow> 's"
  os_mkdir :: "string \<Rightarrow> 's \<Rightarrow> bool \<times> 's"
  os_remove :: "string \<Rightarrow> 's \<Rightarrow> bool \<times> 's"

section \<open>Definitions\<close>

subsection \<open>Mapping memory\<close>

record MemoryMapper =
  heap_size :: usize
  map_addr :: "usize option"
  map_fd :: "i32 option"
  map_flags :: i32

definition mapper_new :: "'s os \<Rightarrow> usize \<Rightarrow> MemoryMapper" where
  "mapper_new os hs = \<lparr> heap_size = hs, map_addr = None, map_fd = None, map_flags = MAP_HUGE_2MB os \<rparr>"

definition mapper_addr :: "'s os \<Rightarrow> usize \<Rightarrow> MemoryMapper \<Rightarrow> MemoryMapper" where
  "mapper_addr os a mm = mm\<lparr> map_flags := map_flags mm OR MAP_FIXED os, map_addr := Some a \<rparr>"

definition mapper_flags :: "i32 \<Rightarrow> MemoryMapper \<Rightarrow> MemoryMapper" where
  "mapper_flags fl mm = mm\<lparr> map_flags := map_flags mm OR fl \<rparr>"

definition huge_page :: "'s os \<Rightarrow> MemoryMapper \<Rightarrow> MemoryMapper" where
  "huge_page os mm = mm\<lparr> map_flags := map_flags mm OR MAP_HUGETLB os \<rparr>"

definition nvm_file :: "'s os \<Rightarrow> i32 \<Rightarrow> MemoryMapper \<Rightarrow> MemoryMapper" where
  "nvm_file os fd mm = mm\<lparr> map_flags := map_flags mm OR (MAP_SYNC os OR MAP_SHARED_VALIDATE os), map_fd := Some fd \<rparr>"

definition disk_file :: "i32 \<Rightarrow> MemoryMapper \<Rightarrow> MemoryMapper" where
  "disk_file fd mm = mm\<lparr> map_fd := Some fd \<rparr>"

definition mapper_map :: "'s os \<Rightarrow> MemoryMapper \<Rightarrow> 's \<Rightarrow> (SystemError + usize) \<times> 's" where
  "mapper_map os mm s =
     (let (mapped_addr, s1) =
            os_mmap os (case map_addr mm of Some a \<Rightarrow> a | None \<Rightarrow> 0) (heap_size mm) (PROT_WRITE os OR PROT_READ os)
              (map_flags mm) (case map_fd mm of Some fd \<Rightarrow> fd | None \<Rightarrow> - 1) s
      in if mapped_addr = MAP_FAILED os then (Inl MmapFail, s1)
         else if map_addr mm \<noteq> None \<and> mapped_addr \<noteq> the (map_addr mm) then (Inl MmapMismatchAddr, s1)
         else (Inr mapped_addr, s1))"

definition map_nvm_builder :: "'s os \<Rightarrow> usize \<Rightarrow> usize option \<Rightarrow> i32 \<Rightarrow> MemoryMapper" where
  "map_nvm_builder os hs a fd =
     (let builder = nvm_file os fd (mapper_new os hs)
      in case a of Some a \<Rightarrow> mapper_addr os a builder | None \<Rightarrow> builder)"

definition map_dram_builder :: "'s os \<Rightarrow> usize \<Rightarrow> usize option \<Rightarrow> i32 option \<Rightarrow> MemoryMapper" where
  "map_dram_builder os hs a fd =
     (let b0 = mapper_new os hs;
          b1 = (case fd of Some fd \<Rightarrow> disk_file fd b0 | None \<Rightarrow> b0);
          b2 = (case a of Some a \<Rightarrow> mapper_addr os a b1 | None \<Rightarrow> b1)
      in mapper_flags (MAP_ANONYMOUS os OR MAP_PRIVATE os) b2)"

text \<open>The file is closed when its handle is dropped, on the error paths too.\<close>

definition create_and_allocate_file :: "'s os \<Rightarrow> string \<Rightarrow> usize \<Rightarrow> 's \<Rightarrow> i32 outcome \<times> 's" where
  "create_and_allocate_file os path sz s =
     (case os_open os path s of
        (None, s1) \<Rightarrow> (Fail FileAlloc, s1)
      | (Some fd, s1) \<Rightarrow>
          (case os_set_len os fd sz s1 of
             (False, s2) \<Rightarrow> (Fail FileAlloc, os_close os fd s2)
           | (True, s2) \<Rightarrow>
               (case os_sync os fd s2 of
                  (False, s3) \<Rightarrow> (Panic, os_close os fd s3)
                | (True, s3) \<Rightarrow> (Done fd, s3))))"

definition create_and_map_pool :: "'s os \<Rightarrow> string \<Rightarrow> usize \<Rightarrow> usize option \<Rightarrow> 's \<Rightarrow> usize outcome \<times> 's" where
  "create_and_map_pool os path hs a s =
     (case create_and_allocate_file os path hs s of
        (Fail e, s1) \<Rightarrow> (Fail e, s1)
      | (Panic, s1) \<Rightarrow> (Panic, s1)
      | (Done fd, s1) \<Rightarrow>
          (case mapper_map os (map_nvm_builder os hs a fd) s1 of
             (Inr p, s2) \<Rightarrow> (Done p, os_close os fd s2)
           | (Inl _, s2) \<Rightarrow>
               (case mapper_map os (huge_page os (map_dram_builder os hs a (Some fd))) s2 of
                  (Inr p, s3) \<Rightarrow> (Done p, os_close os fd s3)
                | (Inl _, s3) \<Rightarrow>
                    (case mapper_map os (map_dram_builder os hs a (Some fd)) s3 of
                       (Inr p, s4) \<Rightarrow> (Done p, os_close os fd s4)
                     | (Inl e, s4) \<Rightarrow> (Fail e, os_close os fd s4)))))"

definition unmap_memory :: "'s os \<Rightarrow> usize \<Rightarrow> usize \<Rightarrow> 's \<Rightarrow> 's" where
  "unmap_memory os a sz s = os_munmap os a sz s"

subsection \<open>The heap of pool files\<close>

record 'm PmHeap =
  file_id :: usize
  file_mapping :: 'm

definition pm_new :: "(usize, string \<times> usize, 'm) hash_map \<Rightarrow> 'm PmHeap" where
  "pm_new ops = \<lparr> file_id = 0, file_mapping = hm_new ops \<rparr>"

text \<open>Decimal digits of a number, and \<^verbatim>\<open>Path::join\<close> with a relative file name.\<close>

definition digit :: "nat \<Rightarrow> char" where
  "digit d = char_of (48 + d)"

fun decimal :: "nat \<Rightarrow> string" where
  "decimal n = (if n < 10 then [digit n] else decimal (n div 10) @ [digit (n mod 10)])"

declare decimal.simps [simp del]

definition path_join :: "string \<Rightarrow> string \<Rightarrow> string" where
  "path_join d f = (if d = [] \<or> last d = CHR ''/'' then d @ f else d @ ''/'' @ f)"

definition pool_file :: "string \<Rightarrow> usize \<Rightarrow> string" where
  "pool_file dir i = path_join dir (''caching-'' @ decimal (unat i) @ ''.pool'')"

text \<open>\<open>dir\<close> is the directory of the pool, from the environment or the default.\<close>

definition alloc_frame ::
  "'s os \<Rightarrow> (usize, string \<times> usize, 'm) hash_map \<Rightarrow> string \<Rightarrow> usize \<Rightarrow> 'm PmHeap \<Rightarrow> 's \<Rightarrow> usize outcome \<times> 'm PmHeap \<times> 's" where
  "alloc_frame os ops dir sz H s =
     (case os_mkdir os dir s of
        (False, s1) \<Rightarrow> (Panic, H, s1)
      | (True, s1) \<Rightarrow>
          let (fid, new) = fetch_add (file_id H) 1; H1 = H\<lparr> file_id := new \<rparr>; file_path = pool_file dir fid
          in (case create_and_map_pool os file_path sz None s1 of
                (Done a, s2) \<Rightarrow> (Done a, H1\<lparr> file_mapping := hm_insert ops (file_mapping H1) a (file_path, sz) \<rparr>, s2)
              | (Fail _, s2) \<Rightarrow> (Panic, H1, s2)
              | (Panic, s2) \<Rightarrow> (Panic, H1, s2)))"

definition dealloc_frame ::
  "'s os \<Rightarrow> (usize, string \<times> usize, 'm) hash_map \<Rightarrow> usize \<Rightarrow> usize \<Rightarrow> 'm PmHeap \<Rightarrow> 's \<Rightarrow> unit outcome \<times> 'm PmHeap \<times> 's" where
  "dealloc_frame os ops ptr sz H s =
     (case hm_get ops (file_mapping H) ptr of
        None \<Rightarrow> (Panic, H, s)
      | Some frame_meta \<Rightarrow>
          let H1 = H\<lparr> file_mapping := hm_remove ops (file_mapping H) ptr \<rparr>;
              s1 = unmap_memory os ptr sz s;
              (ok, s2) = os_remove os (fst frame_meta) s1
          in (if ok then Done () else Panic, H1, s2))"

text \<open>\<^verbatim>\<open>drop\<close>; \<open>frames\<close> are the entries of the map in the order of its iterator.\<close>

fun heap_drop :: "'s os \<Rightarrow> (usize \<times> string \<times> usize) list \<Rightarrow> 's \<Rightarrow> 's" where
  "heap_drop os [] s = s"
| "heap_drop os ((k, f, n) # frames) s =
     (let (_, s1) = os_remove os f s in heap_drop os frames (unmap_memory os k n s1))"

section \<open>Laws of the operating system\<close>

definition page_up :: "nat \<Rightarrow> nat" where
  "page_up n = (n + 4095) div 4096 * 4096"

definition extent :: "usize \<Rightarrow> usize \<Rightarrow> nat set" where
  "extent p sz = {unat p ..< unat p + page_up (unat sz)}"

text \<open>
  \<open>mapped\<close> is the set of mapped addresses and \<open>files\<close> the set of files. A mapping the kernel places itself
  is fresh; unmapping touches only the pages of its range.
\<close>

locale os_laws =
  fixes os :: "'s os" and mapped :: "'s \<Rightarrow> nat set" and files :: "'s \<Rightarrow> string set"
  assumes fixed_bit: "MAP_FIXED os AND (MAP_HUGE_2MB os OR MAP_HUGETLB os OR MAP_SYNC os OR MAP_SHARED_VALIDATE os
      OR MAP_ANONYMOUS os OR MAP_PRIVATE os) = 0"
    and mmap_fresh: "os_mmap os 0 sz prot fl fd s = (p, s1) \<Longrightarrow> fl AND MAP_FIXED os = 0 \<Longrightarrow> p \<noteq> MAP_FAILED os \<Longrightarrow>
      sz \<noteq> 0 \<and> extent p sz \<inter> mapped s = {} \<and> extent p sz \<union> mapped s \<subseteq> mapped s1 \<and> files s1 = files s"
    and mmap_failed: "os_mmap os 0 sz prot fl fd s = (MAP_FAILED os, s1) \<Longrightarrow> mapped s1 = mapped s \<and> files s1 = files s"
    and munmap: "mapped s - extent p sz \<subseteq> mapped (os_munmap os p sz s) \<and> files (os_munmap os p sz s) = files s"
    and open_file: "os_open os f s = (r, s1) \<Longrightarrow>
      mapped s1 = mapped s \<and> files s1 = (if r = None then files s else insert f (files s))"
    and set_len: "os_set_len os fd sz s = (ok, s1) \<Longrightarrow> mapped s1 = mapped s \<and> files s1 = files s"
    and sync: "os_sync os fd s = (ok, s1) \<Longrightarrow> mapped s1 = mapped s \<and> files s1 = files s"
    and close_file: "mapped (os_close os fd s) = mapped s \<and> files (os_close os fd s) = files s"
    and mkdir: "os_mkdir os d s = (ok, s1) \<Longrightarrow> mapped s1 = mapped s \<and> files s1 = files s"
    and remove_file: "os_remove os f s = (ok, s1) \<Longrightarrow>
      mapped s1 = mapped s \<and> files s1 = (if ok then files s - {f} else files s)"
begin

lemma fixed_bits:
  "MAP_FIXED os AND MAP_HUGE_2MB os = 0" "MAP_FIXED os AND MAP_HUGETLB os = 0" "MAP_FIXED os AND MAP_SYNC os = 0"
  "MAP_FIXED os AND MAP_SHARED_VALIDATE os = 0" "MAP_FIXED os AND MAP_ANONYMOUS os = 0" "MAP_FIXED os AND MAP_PRIVATE os = 0"
  using fixed_bit by (simp_all add: bit.conj_disj_distrib or_eq_0_iff)

text \<open>The three mappings of a pool leave the place to the kernel.\<close>

lemma map_fresh:
  assumes mm: "mapper_map os mm s = (r, s1)" "map_addr mm = None" "map_flags mm AND MAP_FIXED os = 0"
  shows "files s1 = files s"
    "case r of Inl e \<Rightarrow> mapped s1 = mapped s
     | Inr p \<Rightarrow> heap_size mm \<noteq> 0 \<and> extent p (heap_size mm) \<inter> mapped s = {}
         \<and> extent p (heap_size mm) \<union> mapped s \<subseteq> mapped s1"
proof -
  let ?fd = "case map_fd mm of Some fd \<Rightarrow> fd | None \<Rightarrow> - 1"
  obtain p s2 where m: "os_mmap os 0 (heap_size mm) (PROT_WRITE os OR PROT_READ os) (map_flags mm) ?fd s = (p, s2)"
    by fastforce
  have r: "s1 = s2" "r = (if p = MAP_FAILED os then Inl MmapFail else Inr p)"
    using mm(1,2) m by (auto simp: mapper_map_def split: if_splits)
  show "files s1 = files s"
    using mmap_fresh [OF m mm(3)] mmap_failed m r(1) by (cases "p = MAP_FAILED os") auto
  show "case r of Inl e \<Rightarrow> mapped s1 = mapped s
     | Inr p \<Rightarrow> heap_size mm \<noteq> 0 \<and> extent p (heap_size mm) \<inter> mapped s = {}
         \<and> extent p (heap_size mm) \<union> mapped s \<subseteq> mapped s1"
    using mmap_fresh [OF m mm(3)] mmap_failed m r by (cases "p = MAP_FAILED os") auto
qed

lemma builder_flags:
  "map_flags (map_nvm_builder os hs None fd) AND MAP_FIXED os = 0"
  "map_flags (map_dram_builder os hs None (Some fd)) AND MAP_FIXED os = 0"
  "map_flags (huge_page os (map_dram_builder os hs None (Some fd))) AND MAP_FIXED os = 0"
  by (simp_all add: map_nvm_builder_def map_dram_builder_def mapper_new_def nvm_file_def disk_file_def mapper_flags_def
      huge_page_def bit.conj_disj_distrib bit.conj_disj_distrib2 fixed_bits and.commute [of _ "MAP_FIXED os"])

lemma builder_settings:
  "map_addr (map_nvm_builder os hs None fd) = None" "heap_size (map_nvm_builder os hs None fd) = hs"
  "map_addr (map_dram_builder os hs None (Some fd)) = None" "heap_size (map_dram_builder os hs None (Some fd)) = hs"
  "map_addr (huge_page os mm) = map_addr mm" "heap_size (huge_page os mm) = heap_size mm"
  by (simp_all add: map_nvm_builder_def map_dram_builder_def mapper_new_def nvm_file_def disk_file_def mapper_flags_def
      huge_page_def)

lemma file_created:
  assumes "create_and_allocate_file os path hs s = (r, s1)"
  shows "mapped s1 = mapped s" "files s \<subseteq> files s1" "r = Done fd \<Longrightarrow> files s1 = insert path (files s)"
  using assms
  by (auto simp: create_and_allocate_file_def close_file dest!: open_file set_len sync
      split: option.splits prod.splits bool.splits if_splits)

lemma pool_mapped:
  assumes pool: "create_and_map_pool os path hs None s = (r, s1)"
  shows "mapped s \<subseteq> mapped s1" "files s \<subseteq> files s1"
    "r = Done p \<Longrightarrow> hs \<noteq> 0 \<and> extent p hs \<inter> mapped s = {} \<and> extent p hs \<subseteq> mapped s1 \<and> files s1 = insert path (files s)"
proof -
  obtain r0 s0 where f: "create_and_allocate_file os path hs s = (r0, s0)"
    by fastforce
  note fc = file_created [OF f]
  have main: "mapped s \<subseteq> mapped s1 \<and> files s \<subseteq> files s1 \<and>
    (\<forall>p. r = Done p \<longrightarrow> hs \<noteq> 0 \<and> extent p hs \<inter> mapped s = {} \<and> extent p hs \<subseteq> mapped s1 \<and> files s1 = insert path (files s))"
  proof (cases r0)
    case (Done fd)
    let ?m1 = "map_nvm_builder os hs None fd" and ?m3 = "map_dram_builder os hs None (Some fd)"
    let ?m2 = "huge_page os ?m3"
    obtain r1 t1 where 1: "mapper_map os ?m1 s0 = (r1, t1)" by fastforce
    obtain r2 t2 where 2: "mapper_map os ?m2 t1 = (r2, t2)" by fastforce
    obtain r3 t3 where 3: "mapper_map os ?m3 t2 = (r3, t3)" by fastforce
    note a = map_fresh [OF 1 _ builder_flags(1), unfolded builder_settings, OF refl]
      map_fresh [OF 2 _ builder_flags(3), unfolded builder_settings, OF refl]
      map_fresh [OF 3 _ builder_flags(2), unfolded builder_settings, OF refl]
    show ?thesis
      using pool a fc fc(3) [OF Done] f Done 1 2 3
      by (cases r1; cases r2; cases r3) (auto simp: create_and_map_pool_def close_file)
  qed (use pool f fc in \<open>auto simp: create_and_map_pool_def\<close>)
  then show "mapped s \<subseteq> mapped s1" "files s \<subseteq> files s1"
    "r = Done p \<Longrightarrow> hs \<noteq> 0 \<and> extent p hs \<inter> mapped s = {} \<and> extent p hs \<subseteq> mapped s1 \<and> files s1 = insert path (files s)"
    by blast+
qed

end

section \<open>File names\<close>

definition undecimal :: "string \<Rightarrow> nat" where
  "undecimal cs = foldl (\<lambda>a c. 10 * a + (of_char c - 48)) 0 cs"

lemma undecimal_decimal: "undecimal (decimal n) = n"
proof (induction n rule: decimal.induct)
  case (1 n)
  have d: "of_char (digit k) - 48 = k" if "k < 10" for k :: nat
    using that by (simp add: digit_def)
  show ?case
  proof (cases "n < 10")
    case True
    then have "decimal n = [digit n]"
      by (subst decimal.simps) simp
    then show ?thesis
      using d [OF True] by (simp add: undecimal_def)
  next
    case False
    then have "decimal n = decimal (n div 10) @ [digit (n mod 10)]"
      by (subst decimal.simps) simp
    then show ?thesis
      using 1 [OF False] d [of "n mod 10"] by (simp add: undecimal_def)
  qed
qed

lemma pool_file_inject: "pool_file dir i = pool_file dir j \<longleftrightarrow> i = j"
proof
  assume "pool_file dir i = pool_file dir j"
  then have "decimal (unat i) = decimal (unat j)"
    by (simp add: pool_file_def path_join_def split: if_splits)
  then show "i = j"
    by (metis undecimal_decimal word_unat_eq_iff)
qed simp

section \<open>The frames of a heap\<close>

text \<open>
  The invariant after at most \<open>n\<close> allocations: live frames are mapped, have files of their own whose number
  was given out, and do not overlap.
\<close>

definition live_ok ::
  "(usize, string \<times> usize, 'm) hash_map \<Rightarrow> ('s \<Rightarrow> nat set) \<Rightarrow> ('s \<Rightarrow> string set) \<Rightarrow> string \<Rightarrow> nat \<Rightarrow> 'm \<Rightarrow> 's \<Rightarrow> bool" where
  "live_ok ops mapped files dir u m s \<longleftrightarrow>
     (\<forall>p f sz. hm_get ops m p = Some (f, sz) \<longrightarrow>
        sz \<noteq> 0 \<and> extent p sz \<subseteq> mapped s \<and> f \<in> files s \<and> (\<exists>i < u. f = pool_file dir (of_nat i)))"

definition apart :: "(usize, string \<times> usize, 'm) hash_map \<Rightarrow> 'm \<Rightarrow> bool" where
  "apart ops m \<longleftrightarrow>
     (\<forall>p q f g sz sz'. hm_get ops m p = Some (f, sz) \<longrightarrow> hm_get ops m q = Some (g, sz') \<longrightarrow>
        p \<noteq> q \<longrightarrow> f \<noteq> g \<and> extent p sz \<inter> extent q sz' = {})"

definition heap_ok ::
  "(usize, string \<times> usize, 'm) hash_map \<Rightarrow> ('s \<Rightarrow> nat set) \<Rightarrow> ('s \<Rightarrow> string set) \<Rightarrow> string \<Rightarrow> nat \<Rightarrow> 'm PmHeap \<Rightarrow> 's \<Rightarrow> bool" where
  "heap_ok ops mapped files dir n H s \<longleftrightarrow>
     (\<exists>u \<le> n. file_id H = of_nat u \<and> live_ok ops mapped files dir u (file_mapping H) s) \<and> apart ops (file_mapping H)"

lemma live_okD:
  assumes "live_ok ops mapped files dir u m s" "hm_get ops m p = Some (f, sz)"
  shows "sz \<noteq> 0" "extent p sz \<subseteq> mapped s" "f \<in> files s" "\<exists>i < u. f = pool_file dir (of_nat i)"
  using assms unfolding live_ok_def by blast+

lemma apartD:
  assumes "apart ops m" "hm_get ops m p = Some (f, sz)" "hm_get ops m q = Some (g, sz')" "p \<noteq> q"
  shows "f \<noteq> g" "extent p sz \<inter> extent q sz' = {}"
  using assms unfolding apart_def by blast+

lemma live_ok_mono:
  assumes "live_ok ops mapped files dir u m s" "u \<le> u'" "mapped s \<subseteq> mapped s1" "files s \<subseteq> files s1"
  shows "live_ok ops mapped files dir u' m s1"
  unfolding live_ok_def
proof (intro allI impI conjI)
  fix p f sz
  assume g: "hm_get ops m p = Some (f, sz)"
  note l = live_okD [OF assms(1) g]
  show "sz \<noteq> 0" "extent p sz \<subseteq> mapped s1" "f \<in> files s1"
    using l(1,2,3) assms(3,4) by blast+
  show "\<exists>i < u'. f = pool_file dir (of_nat i)"
    using l(4) assms(2) less_le_trans by blast
qed

lemma heap_okE:
  assumes "heap_ok ops mapped files dir n H s"
  obtains u where "u \<le> n" "file_id H = of_nat u" "live_ok ops mapped files dir u (file_mapping H) s"
    "apart ops (file_mapping H)"
  using assms unfolding heap_ok_def by blast

lemma heap_okI:
  assumes "u \<le> n" "file_id H = of_nat u" "live_ok ops mapped files dir u (file_mapping H) s" "apart ops (file_mapping H)"
  shows "heap_ok ops mapped files dir n H s"
  using assms unfolding heap_ok_def by blast

lemma heap_ok_mono:
  assumes "heap_ok ops mapped files dir n H s" "n \<le> n'" "mapped s \<subseteq> mapped s1" "files s \<subseteq> files s1"
  shows "heap_ok ops mapped files dir n' H s1"
proof -
  obtain u where u: "u \<le> n" "file_id H = of_nat u" "live_ok ops mapped files dir u (file_mapping H) s" "apart ops (file_mapping H)"
    using assms(1) by (rule heap_okE)
  show ?thesis
    using u(1,2,4) live_ok_mono [OF u(3) order_refl assms(3,4)] assms(2) by (intro heap_okI [of u]) simp_all
qed

lemma bump_id_ok:
  assumes "heap_ok ops mapped files dir n H s"
  shows "heap_ok ops mapped files dir (Suc n) (H\<lparr> file_id := file_id H + 1 \<rparr>) s"
proof -
  obtain u where u: "u \<le> n" "file_id H = of_nat u" "live_ok ops mapped files dir u (file_mapping H) s" "apart ops (file_mapping H)"
    using assms by (rule heap_okE)
  show ?thesis
    using u(1,2,4) live_ok_mono [OF u(3), of "Suc u"] by (intro heap_okI [of "Suc u"]) simp_all
qed

lemma insert_frame_ok:
  assumes hm: "hash_map_laws ops" and ok: "heap_ok ops mapped files dir n H s" and n: "Suc n \<le> 2 ^ 64"
    and fr: "sz \<noteq> 0" "extent p sz \<inter> mapped s = {}" "extent p sz \<union> mapped s \<subseteq> mapped s1" "files s \<subseteq> files s1"
      "pool_file dir (file_id H) \<in> files s1"
  shows "heap_ok ops mapped files dir (Suc n)
    (H\<lparr> file_id := file_id H + 1, file_mapping := hm_insert ops (file_mapping H) p (pool_file dir (file_id H), sz) \<rparr>) s1"
proof -
  obtain u where u: "u \<le> n" "file_id H = of_nat u" and live: "live_ok ops mapped files dir u (file_mapping H) s"
    and sep: "apart ops (file_mapping H)"
    using ok by (rule heap_okE)
  let ?m = "file_mapping H" and ?f = "pool_file dir (file_id H)"
  let ?m1 = "hm_insert ops ?m p (?f, sz)"
  note live1 = live_ok_mono [OF live, of "Suc u" s1]
  have new: "g \<noteq> ?f" "extent q z \<inter> extent p sz = {}" if g: "hm_get ops ?m q = Some (g, z)" for q g z
  proof -
    obtain i where i: "i < u" "g = pool_file dir (of_nat i)"
      using live_okD(4) [OF live g] by blast
    have "(of_nat i :: usize) \<noteq> of_nat u"
      using i(1) u(1) n unat_of_nat_usize [of i] unat_of_nat_usize [of u] by auto
    then show "g \<noteq> ?f"
      by (simp add: i(2) u(2) pool_file_inject)
    show "extent q z \<inter> extent p sz = {}"
      using live_okD(2) [OF live g] fr(2) by blast
  qed
  note split = hash_map_laws.insert_cases [OF hm]
  have "live_ok ops mapped files dir (Suc u) ?m1 s1"
    unfolding live_ok_def
  proof (intro allI impI)
    fix q g z
    assume "hm_get ops ?m1 q = Some (g, z)"
    then show "z \<noteq> 0 \<and> extent q z \<subseteq> mapped s1 \<and> g \<in> files s1 \<and> (\<exists>i < Suc u. g = pool_file dir (of_nat i))"
    proof (rule split)
      assume q: "hm_get ops ?m q = Some (g, z)"
      show ?thesis
        using live_okD [OF live1 q] fr(3,4) by simp
    qed (use fr u(2) in auto)
  qed
  moreover have "apart ops ?m1"
    unfolding apart_def
  proof (intro allI impI)
    fix q r g h z z'
    assume q: "hm_get ops ?m1 q = Some (g, z)" and r: "hm_get ops ?m1 r = Some (h, z')" and ne: "q \<noteq> r"
    show "g \<noteq> h \<and> extent q z \<inter> extent r z' = {}"
      using q
    proof (rule split)
      assume "q = p" "(g, z) = (?f, sz)"
      moreover have "hm_get ops ?m r = Some (h, z')"
        using r ne \<open>q = p\<close> by (simp add: hash_map_laws.get_insert [OF hm])
      ultimately show ?thesis
        using new [of r h z'] by (simp add: Int_commute)
    next
      assume q': "q \<noteq> p" "hm_get ops ?m q = Some (g, z)"
      show ?thesis
        using r new [OF q'(2)] apartD [OF sep q'(2) _ ne] by (auto elim!: split)
    qed
  qed
  ultimately show ?thesis
    using u by (intro heap_okI [of "Suc u"]) simp_all
qed

text \<open>Runs of a heap: any allocations and any releases of live frames with their own size.\<close>

inductive pm_runs ::
  "'s os \<Rightarrow> (usize, string \<times> usize, 'm) hash_map \<Rightarrow> string \<Rightarrow> 's \<Rightarrow> nat \<Rightarrow> 'm PmHeap \<Rightarrow> 's \<Rightarrow> bool"
  for os ops dir s0 where
  pm_start: "pm_runs os ops dir s0 0 (pm_new ops) s0"
| pm_alloc: "pm_runs os ops dir s0 n H s \<Longrightarrow> alloc_frame os ops dir sz H s = (r, H1, s1) \<Longrightarrow>
    pm_runs os ops dir s0 (Suc n) H1 s1"
| pm_dealloc: "pm_runs os ops dir s0 n H s \<Longrightarrow> hm_get ops (file_mapping H) p = Some (f, sz) \<Longrightarrow>
    dealloc_frame os ops p sz H s = (r, H1, s1) \<Longrightarrow> pm_runs os ops dir s0 n H1 s1"

lemma extent_start: "sz \<noteq> 0 \<Longrightarrow> unat p \<in> extent p sz"
proof -
  assume "sz \<noteq> 0"
  then have "0 < unat sz"
    by (simp add: unat_gt_0)
  then have "0 < (unat sz + 4095) div 4096"
    by (simp add: div_greater_zero_iff)
  then show ?thesis
    by (simp add: extent_def page_up_def)
qed

context os_laws
begin

lemma alloc_frame_ok:
  assumes hm: "hash_map_laws ops" and ok: "heap_ok ops mapped files dir n H s" and n: "Suc n \<le> 2 ^ 64"
    and al: "alloc_frame os ops dir sz H s = (r, H1, s1)"
  shows "heap_ok ops mapped files dir (Suc n) H1 s1"
proof -
  obtain b t where md: "os_mkdir os dir s = (b, t)"
    by fastforce
  have t: "mapped t = mapped s" "files t = files s"
    using mkdir [OF md] by simp_all
  show ?thesis
  proof (cases b)
    case False
    then show ?thesis
      using al md heap_ok_mono [OF ok, of "Suc n" t] t by (simp add: alloc_frame_def)
  next
    case True
    obtain o1 s2 where pool: "create_and_map_pool os (pool_file dir (file_id H)) sz None t = (o1, s2)"
      by fastforce
    note pm = pool_mapped [OF pool, unfolded t]
    have r: "s1 = s2"
      using al md True pool by (auto simp: alloc_frame_def fetch_add_def Let_def split: outcome.splits)
    have failed: "heap_ok ops mapped files dir (Suc n) (H\<lparr> file_id := file_id H + 1 \<rparr>) s2"
      by (rule bump_id_ok [OF heap_ok_mono [OF ok order_refl pm(1,2)]])
    show ?thesis
    proof (cases o1)
      case (Done p)
      have "heap_ok ops mapped files dir (Suc n)
        (H\<lparr> file_id := file_id H + 1, file_mapping := hm_insert ops (file_mapping H) p (pool_file dir (file_id H), sz) \<rparr>) s2"
        using insert_frame_ok [OF hm ok n] pm(1,2) pm(3) [OF Done] by simp
      then show ?thesis
        using al md True pool Done r by (auto simp: alloc_frame_def fetch_add_def Let_def)
    qed (use al md True pool r failed in \<open>auto simp: alloc_frame_def fetch_add_def Let_def\<close>)
  qed
qed

lemma dealloc_frame_ok:
  assumes hm: "hash_map_laws ops" and ok: "heap_ok ops mapped files dir n H s"
    and p: "hm_get ops (file_mapping H) p = Some (f, sz)" and de: "dealloc_frame os ops p sz H s = (r, H1, s1)"
  shows "heap_ok ops mapped files dir n H1 s1"
proof -
  obtain b s2 where rm: "os_remove os f (os_munmap os p sz s) = (b, s2)"
    by fastforce
  have H1: "H1 = H\<lparr> file_mapping := hm_remove ops (file_mapping H) p \<rparr>" "s1 = s2"
    using de p rm by (auto simp: dealloc_frame_def unmap_memory_def Let_def)
  have s2: "mapped s - extent p sz \<subseteq> mapped s2" "files s - {f} \<subseteq> files s2"
    using remove_file [OF rm] munmap [of s p sz] by auto
  obtain u where u: "u \<le> n" "file_id H = of_nat u" and live: "live_ok ops mapped files dir u (file_mapping H) s"
    and sep: "apart ops (file_mapping H)"
    using ok by (rule heap_okE)
  let ?m1 = "hm_remove ops (file_mapping H) p"
  have get: "q \<noteq> p" "hm_get ops (file_mapping H) q = Some (g, z)" if "hm_get ops ?m1 q = Some (g, z)" for q g z
    using that by (simp_all add: hash_map_laws.get_remove [OF hm] split: if_splits)
  have "live_ok ops mapped files dir u ?m1 s2"
    unfolding live_ok_def
  proof (intro allI impI)
    fix q g z
    assume "hm_get ops ?m1 q = Some (g, z)"
    note q = get [OF this]
    show "z \<noteq> 0 \<and> extent q z \<subseteq> mapped s2 \<and> g \<in> files s2 \<and> (\<exists>i < u. g = pool_file dir (of_nat i))"
      using live_okD [OF live q(2)] apartD [OF sep q(2) p q(1)] s2 by blast
  qed
  moreover have "apart ops ?m1"
    unfolding apart_def using apartD [OF sep] get by blast
  ultimately show ?thesis
    using u H1 by (intro heap_okI [of u]) simp_all
qed

lemma pm_runs_ok:
  assumes hm: "hash_map_laws ops" and run: "pm_runs os ops dir s0 n H s" and n: "n \<le> 2 ^ 64"
  shows "heap_ok ops mapped files dir n H s"
  using run n
proof (induction rule: pm_runs.induct)
  case pm_start
  then show ?case
    by (simp add: heap_ok_def live_ok_def apart_def pm_new_def hash_map_laws.get_new [OF hm])
next
  case (pm_alloc n H s sz r H1 s1)
  then show ?case
    using alloc_frame_ok [OF hm] by simp
next
  case (pm_dealloc n H s p f sz r H1 s1)
  then show ?case
    using dealloc_frame_ok [OF hm] by blast
qed

lemma frame_released:
  assumes hm: "hash_map_laws ops" and ok: "heap_ok ops mapped files dir n H s"
    and al: "alloc_frame os ops dir sz H s = (Done p, H1, s1)" and de: "dealloc_frame os ops p sz H1 s1 = (Done (), H2, s2)"
  shows "hm_get ops (file_mapping H2) = hm_get ops (file_mapping H)"
    "files s2 = files s - {pool_file dir (file_id H)}" "mapped s \<subseteq> mapped s2"
proof -
  let ?f = "pool_file dir (file_id H)"
  obtain t where md: "os_mkdir os dir s = (True, t)"
    using al by (auto simp: alloc_frame_def Let_def split: prod.splits bool.splits)
  have t: "mapped t = mapped s" "files t = files s"
    using mkdir [OF md] by simp_all
  have pool: "create_and_map_pool os ?f sz None t = (Done p, s1)"
    "H1 = H\<lparr> file_id := file_id H + 1, file_mapping := hm_insert ops (file_mapping H) p (?f, sz) \<rparr>"
    using al md by (auto simp: alloc_frame_def fetch_add_def Let_def split: prod.splits outcome.splits)
  have pm: "mapped s \<subseteq> mapped s1" "sz \<noteq> 0" "extent p sz \<inter> mapped s = {}" "files s1 = insert ?f (files s)"
    using pool_mapped(1) [OF pool(1)] pool_mapped(3) [OF pool(1)] t by simp_all
  obtain u where live: "live_ok ops mapped files dir u (file_mapping H) s"
    using ok by (rule heap_okE)
  have free: "hm_get ops (file_mapping H) p = None"
  proof (rule ccontr)
    assume "hm_get ops (file_mapping H) p \<noteq> None"
    then obtain f z where "hm_get ops (file_mapping H) p = Some (f, z)" by auto
    from live_okD [OF live this] show False
      using extent_start [of z p] extent_start [OF pm(2), of p] pm(3) by blast
  qed
  obtain b where rm: "os_remove os ?f (os_munmap os p sz s1) = (b, s2)" "b"
    "H2 = H1\<lparr> file_mapping := hm_remove ops (file_mapping H1) p \<rparr>"
    using de by (auto simp: pool(2) dealloc_frame_def unmap_memory_def hash_map_laws.get_insert [OF hm] Let_def
        split: prod.splits if_splits)
  show "hm_get ops (file_mapping H2) = hm_get ops (file_mapping H)"
    using free by (auto simp: rm(3) pool(2) fun_eq_iff hash_map_laws.get_insert [OF hm] hash_map_laws.get_remove [OF hm])
  show "files s2 = files s - {?f}"
    using remove_file [OF rm(1)] rm(2) munmap [of s1 p sz] pm(4) by auto
  show "mapped s \<subseteq> mapped s2"
    using remove_file [OF rm(1)] munmap [of s1 p sz] pm(1,3) by blast
qed

end

section \<open>A kernel that obeys the laws\<close>

text \<open>
  Regions are placed after all others. As on a file system without direct access, mapping with
  \<^verbatim>\<open>MAP_SYNC\<close> is refused. The flags have their values on x86-64 Linux.
\<close>

record vm =
  regions :: "(nat \<times> nat) list"
  vfiles :: "string list"

fun vm_top :: "(nat \<times> nat) list \<Rightarrow> nat" where
  "vm_top [] = 4096"
| "vm_top ((p, n) # rs) = max (p + n) (vm_top rs)"

definition vm_mmap :: "usize \<Rightarrow> usize \<Rightarrow> i32 \<Rightarrow> i32 \<Rightarrow> i32 \<Rightarrow> vm \<Rightarrow> usize \<times> vm" where
  "vm_mmap a sz prot fl fd s =
     (let t = vm_top (regions s); n = page_up (unat sz)
      in if sz = 0 \<or> 2 ^ 47 \<le> t + n \<or> fl AND 0x80000 \<noteq> 0 then (- 1, s)
         else (of_nat t, s\<lparr> regions := (t, n) # regions s \<rparr>))"

definition vm_munmap :: "usize \<Rightarrow> usize \<Rightarrow> vm \<Rightarrow> vm" where
  "vm_munmap p sz s = s\<lparr> regions := filter (\<lambda>r. r \<noteq> (unat p, page_up (unat sz))) (regions s) \<rparr>"

definition vm_os :: "vm os" where
  "vm_os = \<lparr> MAP_HUGE_2MB = 0x54000000, MAP_FIXED = 0x10, MAP_HUGETLB = 0x40000, MAP_SYNC = 0x80000,
     MAP_SHARED_VALIDATE = 3, MAP_ANONYMOUS = 0x20, MAP_PRIVATE = 2, PROT_WRITE = 2, PROT_READ = 1, MAP_FAILED = - 1,
     os_mmap = vm_mmap, os_munmap = vm_munmap,
     os_open = (\<lambda>f s. (Some 3, s\<lparr> vfiles := f # vfiles s \<rparr>)),
     os_set_len = (\<lambda>fd n s. (True, s)), os_sync = (\<lambda>fd s. (True, s)), os_close = (\<lambda>fd s. s), os_mkdir = (\<lambda>d s. (True, s)),
     os_remove = (\<lambda>f s. (f \<in> set (vfiles s), s\<lparr> vfiles := filter (\<lambda>g. g \<noteq> f) (vfiles s) \<rparr>)) \<rparr>"

definition vm_mapped :: "vm \<Rightarrow> nat set" where
  "vm_mapped s = (\<Union>(p, n) \<in> set (regions s). {p ..< p + n})"

definition vm_files :: "vm \<Rightarrow> string set" where
  "vm_files s = set (vfiles s)"

lemma vm_top_above: "(p, n) \<in> set rs \<Longrightarrow> p + n \<le> vm_top rs"
  by (induction rs rule: vm_top.induct) (auto simp: max_def)

lemma vm_mapped_below: "vm_mapped s \<subseteq> {..< vm_top (regions s)}"
  using vm_top_above by (fastforce simp: vm_mapped_def)

lemma vm_mmap_placed:
  assumes "vm_mmap a sz prot fl fd s = (p, s1)" "p \<noteq> - 1"
  shows "sz \<noteq> 0" "s1 = s\<lparr> regions := (vm_top (regions s), page_up (unat sz)) # regions s \<rparr>"
    "extent p sz = {vm_top (regions s) ..< vm_top (regions s) + page_up (unat sz)}"
proof -
  have b: "sz \<noteq> 0" "vm_top (regions s) + page_up (unat sz) < 2 ^ 47" "p = of_nat (vm_top (regions s))"
    "s1 = s\<lparr> regions := (vm_top (regions s), page_up (unat sz)) # regions s \<rparr>"
    using assms by (auto simp: vm_mmap_def Let_def split: if_splits)
  then have "unat p = vm_top (regions s)"
    using unat_of_nat_usize [of "vm_top (regions s)"] by simp
  then show "sz \<noteq> 0" "s1 = s\<lparr> regions := (vm_top (regions s), page_up (unat sz)) # regions s \<rparr>"
    "extent p sz = {vm_top (regions s) ..< vm_top (regions s) + page_up (unat sz)}"
    using b(1,4) by (simp_all add: extent_def)
qed

lemma vm_top_small: "vm_mmap a sz prot fl fd s = (- 1, s1) \<Longrightarrow> s1 = s"
proof (rule ccontr)
  assume m: "vm_mmap a sz prot fl fd s = (- 1, s1)" and "s1 \<noteq> s"
  then have t: "vm_top (regions s) < 2 ^ 47" "(of_nat (vm_top (regions s)) :: usize) = - 1"
    by (auto simp: vm_mmap_def Let_def split: if_splits)
  have "(of_nat (vm_top (regions s) + 1) :: usize) = 0"
    using t(2) by simp
  then show False
    using t(1) unat_of_nat_usize [of "vm_top (regions s) + 1"] by (simp del: of_nat_add of_nat_Suc)
qed

interpretation linux: os_laws vm_os vm_mapped vm_files
proof
  show "MAP_FIXED vm_os AND (MAP_HUGE_2MB vm_os OR MAP_HUGETLB vm_os OR MAP_SYNC vm_os OR MAP_SHARED_VALIDATE vm_os
      OR MAP_ANONYMOUS vm_os OR MAP_PRIVATE vm_os) = 0"
    by (simp add: vm_os_def)
next
  fix sz prot fl fd s p s1
  assume "os_mmap vm_os 0 sz prot fl fd s = (p, s1)" "p \<noteq> MAP_FAILED vm_os"
  then have "vm_mmap 0 sz prot fl fd s = (p, s1)" "p \<noteq> - 1"
    by (simp_all add: vm_os_def)
  note pl = vm_mmap_placed [OF this]
  show "sz \<noteq> 0 \<and> extent p sz \<inter> vm_mapped s = {} \<and> extent p sz \<union> vm_mapped s \<subseteq> vm_mapped s1 \<and> vm_files s1 = vm_files s"
    using pl vm_mapped_below [of s] by (auto simp: vm_mapped_def vm_files_def)
next
  fix sz prot fl fd s s1
  assume "os_mmap vm_os 0 sz prot fl fd s = (MAP_FAILED vm_os, s1)"
  then show "vm_mapped s1 = vm_mapped s \<and> vm_files s1 = vm_files s"
    using vm_top_small [of 0 sz prot fl fd s s1] by (simp add: vm_os_def)
qed (auto simp: vm_os_def vm_mapped_def vm_files_def vm_munmap_def extent_def)

section \<open>Properties\<close>

text \<open>
  C19: frames do not overlap. After any run of allocations and releases, failed ones included, every live
  frame is mapped and has its pool file, and two live frames have different files and disjoint pages.
\<close>

theorem frames_disjoint:
  assumes "os_laws os mapped files" and "hash_map_laws ops" and "pm_runs os ops dir s0 n H s" and "n \<le> 2 ^ 64"
    and "hm_get ops (file_mapping H) p = Some (f, sz)" and "hm_get ops (file_mapping H) q = Some (g, sz')"
  shows "unat p \<in> extent p sz \<and> extent p sz \<subseteq> mapped s \<and> f \<in> files s
    \<and> (p = q \<or> f \<noteq> g \<and> extent p sz \<inter> extent q sz' = {})"
proof -
  have "heap_ok ops mapped files dir n H s"
    by (rule os_laws.pm_runs_ok [OF assms(1-4)])
  then obtain u where live: "live_ok ops mapped files dir u (file_mapping H) s" and sep: "apart ops (file_mapping H)"
    by (rule heap_okE)
  show ?thesis
    using live_okD(1-3) [OF live assms(5)] apartD [OF sep assms(5,6)] extent_start [of sz p] by blast
qed

text \<open>Two frames, of two pages and of one, and the release of the first.\<close>

abbreviation vm_start :: vm where
  "vm_start \<equiv> \<lparr> regions = [], vfiles = [] \<rparr>"

abbreviation vm_heap :: "(usize \<rightharpoonup> string \<times> usize) PmHeap" where
  "vm_heap \<equiv> \<lparr> file_id = 2, file_mapping = [4096 \<mapsto> (''pool/caching-0.pool'', 8192), 12288 \<mapsto> (''pool/caching-1.pool'', 100)] \<rparr>"

lemmas pool_defs = alloc_frame_def dealloc_frame_def pm_new_def create_and_map_pool_def create_and_allocate_file_def
  mapper_map_def map_nvm_builder_def map_dram_builder_def mapper_new_def nvm_file_def disk_file_def mapper_flags_def
  huge_page_def vm_os_def vm_mmap_def page_up_def map_ops_def fetch_add_def pool_file_def path_join_def
  vm_munmap_def unmap_memory_def

lemma digits_01: "digit 0 = CHR ''0''" "digit (Suc 0) = CHR ''1''" "digit 1 = CHR ''1''"
  by (simp_all add: digit_def char_of_def bit_0)

lemma vm_alloc:
  "alloc_frame vm_os map_ops ''pool'' 8192 (pm_new map_ops) vm_start
     = (Done 4096, \<lparr> file_id = 1, file_mapping = [4096 \<mapsto> (''pool/caching-0.pool'', 8192)] \<rparr>,
        \<lparr> regions = [(4096, 8192)], vfiles = [''pool/caching-0.pool''] \<rparr>)"
  "alloc_frame vm_os map_ops ''pool'' 100
      \<lparr> file_id = 1, file_mapping = [4096 \<mapsto> (''pool/caching-0.pool'', 8192)] \<rparr>
      \<lparr> regions = [(4096, 8192)], vfiles = [''pool/caching-0.pool''] \<rparr>
     = (Done 12288, vm_heap, \<lparr> regions = [(12288, 4096), (4096, 8192)], vfiles = [''pool/caching-1.pool'', ''pool/caching-0.pool''] \<rparr>)"
  by (simp_all add: pool_defs decimal.simps digits_01 Let_def)

lemma vm_run:
  "pm_runs vm_os map_ops ''pool'' vm_start 2 vm_heap
     \<lparr> regions = [(12288, 4096), (4096, 8192)], vfiles = [''pool/caching-1.pool'', ''pool/caching-0.pool''] \<rparr>"
  using pm_alloc [OF pm_alloc [OF pm_start vm_alloc(1)] vm_alloc(2)] by (simp add: eval_nat_numeral)

theorem frames_disjoint_witness:
  "extent 4096 8192 \<inter> extent 12288 100 = {} \<and> (4096::nat) \<in> extent 4096 8192
   \<and> ''pool/caching-0.pool'' \<noteq> ''pool/caching-1.pool''"
  using frames_disjoint [OF linux.os_laws_axioms maps.hash_map_laws_axioms vm_run, of 4096 _ 8192 12288 _ 100]
  by (simp add: map_ops_def)


lemma vm_release:
  "dealloc_frame vm_os map_ops 12288 100 vm_heap
     \<lparr> regions = [(12288, 4096), (4096, 8192)], vfiles = [''pool/caching-1.pool'', ''pool/caching-0.pool''] \<rparr>
   = (Done (), \<lparr> file_id = 2, file_mapping = [4096 \<mapsto> (''pool/caching-0.pool'', 8192)] \<rparr>,
      \<lparr> regions = [(4096, 8192)], vfiles = [''pool/caching-0.pool''] \<rparr>)"
  by (simp add: pool_defs Let_def fun_eq_iff)


text \<open>
  C38: the fallback of a pool is not backed by its file. Where the kernel refuses \<^verbatim>\<open>MAP_SYNC\<close>, as for a file that is
  not on non-volatile memory, an address the pool returns comes from a mapping that is anonymous
  and private, with or without huge pages: what is written there never reaches the pool file.
\<close>

theorem pool_fallback_anonymous:
  assumes "\<forall>a sz prot fl fd s. fl AND MAP_SYNC os \<noteq> 0 \<longrightarrow> fst (os_mmap os a sz prot fl fd s) = MAP_FAILED os"
    and "MAP_SYNC os \<noteq> 0" and "create_and_map_pool os path hs None s = (Done p, s1)"
  shows "\<exists>fl fd t. fst (os_mmap os 0 hs (PROT_WRITE os OR PROT_READ os) fl fd t) = p \<and> p \<noteq> MAP_FAILED os
    \<and> (fl = (MAP_HUGE_2MB os OR (MAP_ANONYMOUS os OR MAP_PRIVATE os)) OR MAP_HUGETLB os
       \<or> fl = MAP_HUGE_2MB os OR (MAP_ANONYMOUS os OR MAP_PRIVATE os))"
proof -
  obtain fd t where f: "create_and_allocate_file os path hs s = (Done fd, t)"
    using assms(3) by (auto simp: create_and_map_pool_def split: prod.splits outcome.splits)
  let ?m1 = "map_nvm_builder os hs None fd" and ?m3 = "map_dram_builder os hs None (Some fd)"
  have "map_flags ?m1 AND MAP_SYNC os = MAP_SYNC os"
    by (simp add: map_nvm_builder_def nvm_file_def mapper_new_def bit_eq_iff bit_simps) blast
  then have "fst (mapper_map os ?m1 t) = Inl MmapFail"
    using assms(1,2) by (auto simp: mapper_map_def split: prod.splits) (metis fst_conv)+
  then obtain t1 where m1: "mapper_map os ?m1 t = (Inl MmapFail, t1)"
    by (metis prod.collapse)
  obtain r2 t2 where m2: "mapper_map os (huge_page os ?m3) t1 = (r2, t2)" by fastforce
  obtain r3 t3 where m3: "mapper_map os ?m3 t2 = (r3, t3)" by fastforce
  have fl: "map_flags ?m3 = MAP_HUGE_2MB os OR (MAP_ANONYMOUS os OR MAP_PRIVATE os)" "map_addr ?m3 = None" "heap_size ?m3 = hs"
    by (simp_all add: map_dram_builder_def disk_file_def mapper_new_def mapper_flags_def)
  have "r2 = Inr p \<or> r3 = Inr p"
    using assms(3) f m1 m2 m3 by (auto simp: create_and_map_pool_def split: sum.splits)
  then show ?thesis
  proof
    assume "r2 = Inr p"
    then show ?thesis
      using m2 fl by (auto simp: mapper_map_def huge_page_def split: prod.splits if_splits) (metis fst_conv)+
  next
    assume "r3 = Inr p"
    then show ?thesis
      using m3 fl by (auto simp: mapper_map_def split: prod.splits if_splits) (metis fst_conv)+
  qed
qed

lemma vm_refuses_sync: "fl AND MAP_SYNC vm_os \<noteq> 0 \<Longrightarrow> fst (os_mmap vm_os a sz prot fl fd s) = MAP_FAILED vm_os"
  by (simp add: vm_os_def vm_mmap_def Let_def)

theorem pool_fallback_anonymous_witness:
  "\<exists>s1 fl fd t. create_and_map_pool vm_os ''pool/caching-0.pool'' 8192 None vm_start = (Done 4096, s1)
     \<and> fst (os_mmap vm_os 0 8192 (PROT_WRITE vm_os OR PROT_READ vm_os) fl fd t) = 4096
     \<and> (fl = 0x54040022 \<or> fl = 0x54000022)"
proof -
  have pool: "create_and_map_pool vm_os ''pool/caching-0.pool'' 8192 None vm_start
      = (Done 4096, \<lparr> regions = [(4096, 8192)], vfiles = [''pool/caching-0.pool''] \<rparr>)"
    by (simp add: pool_defs Let_def)
  have "\<exists>fl fd t. fst (os_mmap vm_os 0 8192 (PROT_WRITE vm_os OR PROT_READ vm_os) fl fd t) = 4096 \<and> 4096 \<noteq> MAP_FAILED vm_os
    \<and> (fl = (MAP_HUGE_2MB vm_os OR (MAP_ANONYMOUS vm_os OR MAP_PRIVATE vm_os)) OR MAP_HUGETLB vm_os
       \<or> fl = MAP_HUGE_2MB vm_os OR (MAP_ANONYMOUS vm_os OR MAP_PRIVATE vm_os))"
    by (rule pool_fallback_anonymous [OF _ _ pool]) (simp add: vm_refuses_sync, simp add: vm_os_def)
  moreover have "(MAP_HUGE_2MB vm_os OR (MAP_ANONYMOUS vm_os OR MAP_PRIVATE vm_os)) OR MAP_HUGETLB vm_os = 0x54040022"
    "MAP_HUGE_2MB vm_os OR (MAP_ANONYMOUS vm_os OR MAP_PRIVATE vm_os) = 0x54000022"
    by (simp_all add: vm_os_def)
  ultimately show ?thesis
    using pool by auto
qed

end
