(* ===== verification/Release.thy ===== *)
theory Release
  imports Insert_Only Clock_Cache Logger Pm_Heap
begin

text \<open>
  What the components do with memory outside their logic: the layouts with which they allocate and
  release it (the \<^verbatim>\<open>Drop\<close> implementations), the copy routine for pages of \<^verbatim>\<open>src/utils/nt_copy.rs\<close>, the
  prefetch loop of \<^verbatim>\<open>src/utils/prefetch.rs\<close> and the cached thread id of \<^verbatim>\<open>src/utils/mod.rs\<close>.
\<close>

section \<open>Layouts\<close>

record Layout =
  lay_size :: usize
  lay_align :: usize

text \<open>
  \<^verbatim>\<open>Layout::from_size_align\<close> of the standard library: the alignment is a power of two, and the size rounded
  up to it fits \<^verbatim>\<open>isize\<close>; every caller unwraps the result.
\<close>

definition from_size_align :: "usize \<Rightarrow> usize \<Rightarrow> Layout option" where
  "from_size_align sz al =
     (if al \<noteq> 0 \<and> al AND (al - 1) = 0 \<and> unat sz + unat al \<le> 2 ^ 63
      then Some \<lparr> lay_size = sz, lay_align = al \<rparr> else None)"

text \<open>The array of object ids.\<close>

definition oid_array_layout :: "nat \<Rightarrow> Layout option" where
  "oid_array_layout c = from_size_align (oid_array_size c) 8"

definition oid_array_drop :: "'m OidArray \<Rightarrow> addr \<times> Layout option" where
  "oid_array_drop O' =
     (let ptr = start (heap (oheap O')); sz = of_nat (oid_capacity O') * 8 in (ptr, from_size_align sz 8))"

text \<open>The slots of the cache; \<open>nsz\<close> and \<open>nal\<close> are size and alignment of a node.\<close>

definition inner_layout :: "usize \<Rightarrow> usize \<Rightarrow> nat \<Rightarrow> Layout option" where
  "inner_layout nsz nal cache_cnt = from_size_align (of_nat cache_cnt * nsz) nal"

definition inner_drop :: "usize \<Rightarrow> usize \<Rightarrow> 'l CacheInner \<Rightarrow> Layout option" where
  "inner_drop nsz nal I = from_size_align (ucast (capacity I) * nsz) nal"

text \<open>The private pages of the insert-only table, and its frame.\<close>

definition page_layout :: "Layout option" where
  "page_layout = from_size_align (of_nat HUGEPAGE_SIZE) (of_nat HUGEPAGE_SIZE)"

definition page_drop :: "Layout option" where
  "page_drop = from_size_align (of_nat HUGEPAGE_SIZE) (of_nat HUGEPAGE_SIZE)"

definition insertonly_frame :: "nat \<Rightarrow> nat \<Rightarrow> usize" where
  "insertonly_frame tsz c = align_up (of_nat (c * tsz)) (of_nat HUGEPAGE_SIZE)"

definition insertonly_drop ::
  "'s os \<Rightarrow> (usize, string \<times> usize, 'h) hash_map \<Rightarrow> ('a, 'm) InsertonlyTable \<Rightarrow> 'h PmHeap \<Rightarrow> 's \<Rightarrow> unit outcome \<times> 'h PmHeap \<times> 's" where
  "insertonly_drop os ops T H s =
     (let sz = of_nat (cap (pm T)) * of_nat HUGEPAGE_SIZE in dealloc_frame os ops (of_nat (start (pm T))) sz H s)"

text \<open>The tuples of a table.\<close>

definition storage_frame :: "nat \<Rightarrow> nat \<Rightarrow> usize" where
  "storage_frame tsz c = of_nat c * of_nat tsz"

definition storage_drop ::
  "'s os \<Rightarrow> (usize, string \<times> usize, 'h) hash_map \<Rightarrow> nat \<Rightarrow> usize \<Rightarrow> Storage \<Rightarrow> 'h PmHeap \<Rightarrow> 's \<Rightarrow> unit outcome \<times> 'h PmHeap \<times> 's" where
  "storage_drop os ops tsz ptr st H s = (let sz = of_nat (st_cap st) * of_nat tsz in dealloc_frame os ops ptr sz H s)"

text \<open>The two buffers of the log.\<close>

definition MIN_BUFF_ALIGN :: nat where "MIN_BUFF_ALIGN = 512"

definition logger_layout :: "usize \<Rightarrow> Layout option" where
  "logger_layout bsz = from_size_align bsz (of_nat MAX_LOG_LEN)"

definition logger_drop :: "Logger \<Rightarrow> Layout option" where
  "logger_drop L = from_size_align (buffer_size L) (of_nat MIN_BUFF_ALIGN)"

section \<open>Copying, prefetching, thread ids\<close>

type_synonym bytes_memory = "addr \<Rightarrow> u8"

definition copy_bytes :: "addr \<Rightarrow> addr \<Rightarrow> nat \<Rightarrow> bytes_memory \<Rightarrow> bytes_memory" where
  "copy_bytes src dst n m = (\<lambda>a. if dst \<le> a \<and> a < dst + n then m (src + (a - dst)) else m a)"

text \<open>
  \<^verbatim>\<open>nt_copy_nonoverlapping\<close>: with AVX-512 in blocks of 64 bytes, the last one in full; the streaming
  instructions fault on an address that is not a multiple of 64: \<^const>\<open>None\<close>.
\<close>

fun nt_copy_loop :: "addr \<Rightarrow> addr \<Rightarrow> nat list \<Rightarrow> bytes_memory \<Rightarrow> bytes_memory option" where
  "nt_copy_loop src dst [] m = Some m"
| "nt_copy_loop src dst (i # is) m =
     (if 64 dvd src + i \<and> 64 dvd dst + i then nt_copy_loop src dst is (copy_bytes (src + i) (dst + i) 64 m) else None)"

definition step_by :: "nat \<Rightarrow> nat \<Rightarrow> nat list" where
  "step_by sz k = map (\<lambda>i. i * k) [0..<(sz + k - 1) div k]"

definition nt_copy_nonoverlapping :: "bool \<Rightarrow> addr \<Rightarrow> addr \<Rightarrow> nat \<Rightarrow> bytes_memory \<Rightarrow> bytes_memory option" where
  "nt_copy_nonoverlapping avx512f src dst sz m =
     (if avx512f then nt_copy_loop src dst (step_by sz 64) m else Some (copy_bytes src dst sz m))"

text \<open>The addresses that \<^verbatim>\<open>mem_prefetch_n\<close> prefetches.\<close>

definition mem_prefetch_n :: "addr \<Rightarrow> nat \<Rightarrow> addr list" where
  "mem_prefetch_n ad sz = map (\<lambda>i. ad + i) (step_by sz 64)"

text \<open>\<^verbatim>\<open>get_tid\<close>: \<open>ids\<close> is the thread-local cell, 0 until the first call; \<open>ident\<close> the id of the standard library.\<close>

definition get_tid :: "(tid \<Rightarrow> u64) \<Rightarrow> tid \<Rightarrow> (tid \<Rightarrow> u64) \<Rightarrow> u64 \<times> (tid \<Rightarrow> u64)" where
  "get_tid ident t ids =
     (let old = ids t in if old = 0 then let new_tid = ident t in (new_tid, ids(t := new_tid)) else (old, ids))"

section \<open>Lemmas\<close>

lemma align_up_multiple: "2 ^ k dvd unat (align_up sz (2 ^ k))"
proof -
  have "align_up sz (2 ^ k) = (sz + mask k) AND NOT (mask k)"
    by (simp only: align_up_def mask_eq_exp_minus_1 add_diff_eq)
  then show ?thesis
    by (simp add: and_not_mask_unat)
qed

lemma of_unat_multiple: "d dvd unat w \<Longrightarrow> of_nat (unat w div d) * of_nat d = w"
  for w :: usize
  by (metis dvd_div_mult_self of_nat_mult of_nat_unat ucast_id)

lemma oid_array_drop_layout:
  assumes "oid_array_new ops c ptr m = Some O'"
  shows "oid_array_drop O' = (ptr, oid_array_layout c)"
proof -
  let ?sz = "oid_array_size c"
  have "512 dvd unat ?sz"
    using align_up_multiple [of 9] by (simp add: oid_array_size_def ARENA_SIZE_def)
  moreover have "unat (?sz div ARENA_SIZE) = unat ?sz div 512"
    by (simp add: ARENA_SIZE_def unat_div_distrib)
  moreover have "cap (heap (oheap O')) = unat (?sz div ARENA_SIZE)" "start (heap (oheap O')) = ptr"
    using assms by (auto simp: oid_array_new_def heap_array_new_def allocator_new_def Let_def split: if_splits prod.splits)
  ultimately have "of_nat (oid_capacity O') * 8 = ?sz"
    using of_unat_multiple [of 512 ?sz] by (simp add: mult.commute [of 512] oid_capacity_def heap_capacity_def OID_ARENA_def)
  then show ?thesis
    using \<open>start (heap (oheap O')) = ptr\<close> by (simp add: oid_array_drop_def oid_array_layout_def)
qed

lemma insertonly_drop_size:
  assumes "insertonly_new ops tsz c ptr m content = Some T"
  shows "of_nat (cap (pm T)) * of_nat HUGEPAGE_SIZE = insertonly_frame tsz c" "start (pm T) = ptr"
proof -
  let ?sz = "insertonly_frame tsz c"
  have "HUGEPAGE_SIZE dvd unat ?sz"
    using align_up_multiple [of 21] by (simp add: insertonly_frame_def HUGEPAGE_SIZE_def)
  moreover have "cap (pm T) = unat ?sz div HUGEPAGE_SIZE"
    using assms by (auto simp: insertonly_new_def insertonly_frame_def allocator_new_def Let_def split: if_splits prod.splits)
  ultimately show "of_nat (cap (pm T)) * of_nat HUGEPAGE_SIZE = ?sz"
    using of_unat_multiple [of HUGEPAGE_SIZE ?sz] by simp
  show "start (pm T) = ptr"
    using assms by (auto simp: insertonly_new_def allocator_new_def Let_def split: if_splits prod.splits)
qed

lemma inner_drop_layout:
  assumes "new_cap tls fsz cache_cnt plen prng = Some I" "cache_cnt < 2 ^ 32"
  shows "inner_drop nsz nal I = inner_layout nsz nal cache_cnt"
proof -
  have "(ucast (of_nat cache_cnt :: u32) :: usize) = of_nat cache_cnt"
    using assms(2) by (intro word_unat_eq_iff [THEN iffD2])
      (simp add: unsigned_ucast_eq unat_of_nat take_bit_nat_eq_self_iff)
  then show ?thesis
    using assms(1) by (auto simp: inner_drop_def inner_layout_def new_cap_def split: if_splits)
qed


lemma copy_blocks:
  assumes "64 dvd src" "64 dvd dst" "src + n * 64 \<le> dst \<or> dst + n * 64 \<le> src" "k \<le> n"
  shows "nt_copy_loop src dst (map (\<lambda>i. i * 64) [k..<n]) (copy_bytes src dst (k * 64) m) = Some (copy_bytes src dst (n * 64) m)"
  using assms(4)
proof (induction "n - k" arbitrary: k)
  case (Suc d)
  then have k: "k < n" "[k..<n] = k # [Suc k..<n]"
    by (simp_all add: upt_conv_Cons)
  then have "Suc k * 64 \<le> n * 64"
    by simp
  then have "copy_bytes (src + k * 64) (dst + k * 64) 64 (copy_bytes src dst (k * 64) m) = copy_bytes src dst (Suc k * 64) m"
    using assms(3) by (intro ext) (auto simp: copy_bytes_def)
  then show ?case
    using Suc.hyps(1) [of "Suc k"] Suc.hyps(2) k assms(1,2) by (simp add: dvd_add)
qed simp

section \<open>Properties\<close>



text \<open>
  C2: the non-temporal copy is a copy. For a size and addresses that are multiples of 64 and ranges
  that do not overlap, as for the pages of the insert-only table, the routine copies the bytes and
  nothing else, with and without AVX-512; without AVX-512 that holds for every size and address.
\<close>

theorem nt_copy_copies:
  assumes "avx512f \<Longrightarrow> 64 dvd src \<and> 64 dvd dst \<and> 64 dvd sz" and "src + sz \<le> dst \<or> dst + sz \<le> src"
  shows "nt_copy_nonoverlapping avx512f src dst sz m = Some (copy_bytes src dst sz m)"
proof (cases avx512f)
  case True
  then obtain n where "sz = n * 64" "64 dvd src" "64 dvd dst"
    using assms(1) by (auto elim: dvdE)
  moreover have "copy_bytes src dst (0 * 64) m = m"
    by (intro ext) (auto simp: copy_bytes_def)
  ultimately show ?thesis
    using True copy_blocks [of src dst n 0 m] assms(2) by (simp add: nt_copy_nonoverlapping_def step_by_def)
qed (simp add: nt_copy_nonoverlapping_def)

theorem nt_copy_copies_witness:
  "nt_copy_nonoverlapping True 0 HUGEPAGE_SIZE HUGEPAGE_SIZE (\<lambda>a. if a = 5 then 1 else 0)
     = Some (copy_bytes 0 HUGEPAGE_SIZE HUGEPAGE_SIZE (\<lambda>a. if a = 5 then 1 else 0))"
  by (rule nt_copy_copies) (simp_all add: HUGEPAGE_SIZE_def)

text \<open>With AVX-512 a size that is not a multiple of 64 is rounded up: bytes beyond the range are overwritten.\<close>

lemma nt_copy_overrun:
  "nt_copy_nonoverlapping True 0 128 1 m = Some (copy_bytes 0 128 64 m)"
  by (simp add: nt_copy_nonoverlapping_def step_by_def)

text \<open>A prefetch from the start of a line reaches every line of the range.\<close>

lemma mem_prefetch_lines:
  assumes "64 dvd ad" "a \<in> {ad ..< ad + sz}"
  shows "64 * (a div 64) \<in> set (mem_prefetch_n ad sz)"
proof -
  obtain k where ad: "ad = 64 * k" using assms(1) ..
  let ?i = "a div 64 - k"
  have "k \<le> a div 64"
    using assms(2) ad by (metis atLeastLessThan_iff div_le_mono nonzero_mult_div_cancel_left zero_neq_numeral)
  moreover have "a div 64 < k + (sz + 63) div 64"
    using assms(2) ad by simp linarith
  ultimately show ?thesis
    unfolding mem_prefetch_n_def step_by_def set_map image_image using ad
    by (intro image_eqI [of _ _ ?i]) (auto simp: algebra_simps)
qed

lemma get_tid_stable:
  assumes "ident t \<noteq> 0" "\<forall>u. ids u \<in> {0, ident u}"
  shows "fst (get_tid ident t ids) = ident t" "\<forall>u. snd (get_tid ident t ids) u \<in> {0, ident u}"
  using assms by (auto simp: get_tid_def Let_def)

end
