(* ===== verification/Tpcc_Layout.thy ===== *)
theory Tpcc_Layout
  imports Item_Schema
begin

text \<open>
  \<^verbatim>\<open>benchmark/src/tpcc/tables.rs\<close> and \<^verbatim>\<open>schemas.rs\<close>: the tuples of the TPC-C tables with their memory layout, their keys,
  and the schemas that say which fields of a tuple are cached. A schema is given by the assignments
  of its \<^verbatim>\<open>to_cached\<close> and \<^verbatim>\<open>write_back\<close>, field by field as in the source, and the contract of schemas is
  checked for each by computation.
\<close>

section \<open>Structs\<close>

datatype ctype = U64 | F64 | U32 | Fixed nat

fun ctype_size :: "ctype \<Rightarrow> nat" where
  "ctype_size U64 = 8"
| "ctype_size F64 = 8"
| "ctype_size U32 = 4"
| "ctype_size (Fixed n) = n"

fun ctype_align :: "ctype \<Rightarrow> nat" where
  "ctype_align U64 = 8"
| "ctype_align F64 = 8"
| "ctype_align U32 = 4"
| "ctype_align (Fixed n) = 1"

text \<open>A struct: its fields with offset and size, and its size.\<close>

record struct =
  members :: "(string \<times> nat \<times> nat) list"
  bytes_of :: nat

definition round_up :: "nat \<Rightarrow> nat \<Rightarrow> nat" where
  "round_up n a = (n + a - 1) div a * a"

text \<open>\<^verbatim>\<open>#[repr(C)]\<close>: fields in order, each at the next multiple of its alignment.\<close>

fun place_fields :: "nat \<Rightarrow> (string \<times> ctype) list \<Rightarrow> (string \<times> nat \<times> nat) list" where
  "place_fields off [] = []"
| "place_fields off ((f, t) # fs) =
     (let o' = round_up off (ctype_align t) in (f, o', ctype_size t) # place_fields (o' + ctype_size t) fs)"

definition repr_C :: "(string \<times> ctype) list \<Rightarrow> struct" where
  "repr_C fs =
     (let ms = place_fields 0 fs;
          past = (case rev ms of [] \<Rightarrow> 0 | (_, o', n) # _ \<Rightarrow> o' + n)
      in \<lparr> members = ms, bytes_of = round_up past (foldr max (map (ctype_align \<circ> snd) fs) 1) \<rparr>)"

text \<open>\<^verbatim>\<open>span_of!\<close> and \<^verbatim>\<open>offset_of!\<close>; the compiler refuses a name that is no field.\<close>

definition span_of :: "struct \<Rightarrow> string \<Rightarrow> nat \<times> nat" where
  "span_of T f = (case map_of (members T) f of Some (o', n) \<Rightarrow> (o', n) | None \<Rightarrow> (0, 0))"

definition offset_of :: "struct \<Rightarrow> string \<Rightarrow> nat" where
  "offset_of T f = fst (span_of T f)"

text \<open>\<^verbatim>\<open>mk_field!\<close> and \<^verbatim>\<open>mk_query!\<close>.\<close>

definition mk_field :: "struct \<Rightarrow> string \<Rightarrow> Field" where
  "mk_field T f = (let (o', n) = span_of T f in from_span o' (o' + n))"

definition mk_query :: "struct \<Rightarrow> string list \<Rightarrow> FieldsMeta" where
  "mk_query T fs = map (mk_field T) fs"

definition get_member :: "struct \<Rightarrow> string \<Rightarrow> bytes \<Rightarrow> bytes" where
  "get_member T f b = (let (o', n) = span_of T f in take n (drop o' b))"

text \<open>An integer in memory, least significant byte first.\<close>

definition bytes_value :: "bytes \<Rightarrow> nat" where
  "bytes_value b = foldr (\<lambda>x acc. unat x + 256 * acc) b 0"

definition u64_member :: "struct \<Rightarrow> string \<Rightarrow> bytes \<Rightarrow> u64" where
  "u64_member T f b = of_nat (bytes_value (get_member T f b))"

section \<open>Tuples and keys\<close>

definition WarehouseTuple :: struct where
  "WarehouseTuple = repr_C
     [(''w_id'', U64), (''w_name'', Fixed 10), (''w_street1'', Fixed 20), (''w_street2'', Fixed 20),
      (''w_city'', Fixed 20), (''w_state'', Fixed 2), (''w_zip'', U64), (''w_tax'', F64), (''w_ytd'', F64)]"

definition DistrictTuple :: struct where
  "DistrictTuple = repr_C
     [(''d_id'', U64), (''d_w_id'', U64), (''d_name'', Fixed 10), (''d_street1'', Fixed 20),
      (''d_street2'', Fixed 20), (''d_city'', Fixed 20), (''d_state'', Fixed 2), (''d_zip'', U64),
      (''d_tax'', F64), (''d_ytd'', F64), (''d_next_o_id'', U64)]"

definition district_make_key :: "u64 \<Rightarrow> u64 \<Rightarrow> usize" where
  "district_make_key w_id d_id = push_bit 48 w_id + d_id"

definition C_DATA_SIZE :: nat where "C_DATA_SIZE = 500"

definition CustomerTuple :: struct where
  "CustomerTuple = repr_C
     [(''c_id'', U64), (''c_first'', Fixed 20), (''c_middle'', Fixed 2), (''c_last'', Fixed 16),
      (''c_street1'', Fixed 20), (''c_street2'', Fixed 20), (''c_city'', Fixed 20), (''c_state'', Fixed 2),
      (''c_zip'', U64), (''c_phone'', Fixed 16), (''c_since'', U64), (''c_credit'', Fixed 2),
      (''c_credit_lim'', F64), (''c_discount'', F64), (''c_balance'', F64), (''c_ytd_payment'', F64),
      (''c_payment_cnt'', U32), (''c_delivery_cnt'', U32), (''c_w_id'', U64), (''c_d_id'', U64),
      (''c_data'', Fixed C_DATA_SIZE)]"

definition customer_make_key :: "u64 \<Rightarrow> u64 \<Rightarrow> u64 \<Rightarrow> usize" where
  "customer_make_key w_id d_id c_id = push_bit 48 w_id + push_bit 32 d_id + c_id"

definition idx_key_lastname :: "u16 \<Rightarrow> u16 \<Rightarrow> u16 \<Rightarrow> u16 \<Rightarrow> usize" where
  "idx_key_lastname w_id d_id last_name c_id =
     push_bit 48 (ucast w_id) + push_bit 32 (ucast d_id) + push_bit 16 (ucast last_name) + ucast c_id"

definition HistoryTuple :: struct where
  "HistoryTuple = repr_C
     [(''h_c_id'', U64), (''h_c_d_id'', U64), (''h_c_w_id'', U64), (''h_d_id'', U64),
      (''h_data'', Fixed 24), (''h_w_id'', U64), (''h_date'', U64), (''h_amount'', F64)]"

definition OrderTuple :: struct where
  "OrderTuple = repr_C
     [(''o_id'', U64), (''o_c_id'', U64), (''o_entry_d'', U64), (''o_carrier_id'', U64),
      (''o_d_id'', U64), (''o_w_id'', U64), (''o_ol_cnt'', U64), (''o_all_local'', U64)]"

definition order_make_key :: "u64 \<Rightarrow> u64 \<Rightarrow> u64 \<Rightarrow> u64 \<Rightarrow> usize" where
  "order_make_key o_w_id o_d_id o_c_id o_id =
     push_bit 48 o_w_id + push_bit 32 o_d_id + push_bit 16 o_c_id + o_id"

definition new_order_make_key :: "u64 \<Rightarrow> u64 \<Rightarrow> u64 \<Rightarrow> u64 \<Rightarrow> usize" where
  "new_order_make_key no_w_id no_d_id no_o_id c_id =
     push_bit 48 no_w_id + push_bit 32 no_d_id + push_bit 16 no_o_id + c_id"

definition o_c_id_from_key :: "usize \<Rightarrow> usize \<times> usize" where
  "o_c_id_from_key k = (drop_bit 16 (k AND 0xffff0000), k AND 0xffff)"

definition OrderLineTuple :: struct where
  "OrderLineTuple = repr_C
     [(''ol_o_id'', U64), (''ol_d_id'', U64), (''ol_i_id'', U64), (''ol_supply_w_id'', U64),
      (''ol_quantity'', U64), (''ol_delivery_d'', U64), (''ol_amount'', F64), (''ol_number'', U64),
      (''ol_w_id'', U64), (''ol_dist_info'', Fixed 24)]"

definition order_line_make_key :: "usize \<Rightarrow> usize \<Rightarrow> usize \<Rightarrow> usize \<Rightarrow> usize" where
  "order_line_make_key ol_w_id ol_d_id ol_o_id ol_i_id =
     push_bit 48 ol_w_id + push_bit 40 ol_d_id + push_bit 20 ol_o_id + ol_i_id"

definition ItemTuple :: struct where
  "ItemTuple = repr_C
     [(''i_id'', U64), (''i_im_id'', U64), (''i_price'', F64), (''i_name'', Fixed 24), (''i_data'', Fixed 50)]"

definition item_make_key :: "u64 \<Rightarrow> usize" where
  "item_make_key i_id = i_id"

definition StockTuple :: struct where
  "StockTuple = repr_C
     [(''s_i_id'', U64), (''s_w_id'', U64), (''s_quantity'', U64), (''s_ytd'', U64), (''s_order_cnt'', U64),
      (''s_remote_cnt'', U64), (''s_data'', Fixed 24), (''s_dist01'', Fixed 24), (''s_dist02'', Fixed 24),
      (''s_dist03'', Fixed 24), (''s_dist04'', Fixed 24), (''s_dist05'', Fixed 24), (''s_dist06'', Fixed 24),
      (''s_dist07'', Fixed 24), (''s_dist08'', Fixed 24), (''s_dist09'', Fixed 24), (''s_dist10'', Fixed 24)]"

definition stock_make_key :: "u64 \<Rightarrow> u64 \<Rightarrow> usize" where
  "stock_make_key s_w_id s_i_id = push_bit 32 s_w_id + s_i_id"

section \<open>Schemas\<close>

text \<open>Assignments \<open>b.y = a.x\<close> for pairs \<open>(x, y)\<close> of fields, from struct \<open>A\<close> to struct \<open>B\<close>.\<close>

fun assign_fields :: "struct \<Rightarrow> struct \<Rightarrow> (string \<times> string) list \<Rightarrow> bytes \<Rightarrow> bytes \<Rightarrow> bytes" where
  "assign_fields A B [] a b = b"
| "assign_fields A B ((x, y) # ps) a b = assign_fields A B ps a (overwrite (offset_of B y) (get_member A x a) b)"

definition twins :: "string list \<Rightarrow> (string \<times> string) list" where
  "twins fs = map (\<lambda>f. (f, f)) fs"

text \<open>
  The schema of a cached struct \<open>C\<close> of a tuple \<open>T\<close>; \<open>raw\<close> is the memory a new value of \<open>C\<close> is built in,
  whose padding stays.
\<close>

definition part_schema ::
  "struct \<Rightarrow> struct \<Rightarrow> bytes \<Rightarrow> (string \<times> string) list \<Rightarrow> (string \<times> string) list \<Rightarrow> (Field \<Rightarrow> Field option) \<Rightarrow> (bytes \<Rightarrow> usize) \<Rightarrow> Schema" where
  "part_schema T C raw tc wb tcf kf =
     \<lparr> to_cached = (\<lambda>t. assign_fields T C tc t raw), write_back = (\<lambda>c t. assign_fields C T wb c t), key = kf,
       to_cached_field = tcf, matches = default_matches tcf, update_cached = default_update_cached tcf \<rparr>"

text \<open>The schema that caches whole tuples.\<close>

definition tuple_schema :: "(bytes \<Rightarrow> usize) \<Rightarrow> Schema" where
  "tuple_schema kf =
     \<lparr> to_cached = (\<lambda>t. t), write_back = (\<lambda>c t. c), key = kf,
       to_cached_field = Some, matches = default_matches Some, update_cached = default_update_cached Some \<rparr>"

definition warehouse_key :: "bytes \<Rightarrow> usize" where
  "warehouse_key t = u64_member WarehouseTuple ''w_id'' t"

text \<open>
  Structs without \<^verbatim>\<open>repr(C)\<close> are laid out as the compiler likes; their layout \<open>L\<close> is an argument.
\<close>

definition warehouse_cached_field :: "struct \<Rightarrow> Field \<Rightarrow> Field option" where
  "warehouse_cached_field L tuple_field =
     (if mk_field WarehouseTuple ''w_ytd'' = tuple_field then Some (mk_field L ''ytd'') else None)"

definition warehouse_cached_schema :: "struct \<Rightarrow> bytes \<Rightarrow> Schema" where
  "warehouse_cached_schema L raw =
     part_schema WarehouseTuple L raw [(''w_ytd'', ''ytd'')] [(''ytd'', ''w_ytd'')] (warehouse_cached_field L) warehouse_key"

definition warehouse_tuple_schema :: Schema where
  "warehouse_tuple_schema = tuple_schema warehouse_key"

definition district_key :: "bytes \<Rightarrow> usize" where
  "district_key t = district_make_key (u64_member DistrictTuple ''d_w_id'' t) (u64_member DistrictTuple ''d_id'' t)"

definition district_cached_field :: "struct \<Rightarrow> Field \<Rightarrow> Field option" where
  "district_cached_field L tuple_field =
     (if mk_field DistrictTuple ''d_ytd'' = tuple_field then Some (mk_field L ''ytd'') else None)"

definition district_cached_schema :: "struct \<Rightarrow> bytes \<Rightarrow> Schema" where
  "district_cached_schema L raw =
     part_schema DistrictTuple L raw [(''d_ytd'', ''ytd'')] [(''ytd'', ''d_ytd'')] (district_cached_field L) district_key"

definition district_tuple_schema :: Schema where
  "district_tuple_schema = tuple_schema district_key"

definition customer_key :: "bytes \<Rightarrow> usize" where
  "customer_key t =
     customer_make_key (u64_member CustomerTuple ''c_w_id'' t) (u64_member CustomerTuple ''c_d_id'' t) (u64_member CustomerTuple ''c_id'' t)"

definition customer_write_field :: "struct \<Rightarrow> Field \<Rightarrow> Field option" where
  "customer_write_field L tuple_field =
     map_of (map (\<lambda>f. (mk_field CustomerTuple f, mk_field L f)) [''c_balance'', ''c_ytd_payment'', ''c_payment_cnt'']) tuple_field"

definition customer_write_schema :: "struct \<Rightarrow> bytes \<Rightarrow> Schema" where
  "customer_write_schema L raw =
     part_schema CustomerTuple L raw (twins [''c_balance'', ''c_ytd_payment'', ''c_payment_cnt''])
       (twins [''c_balance'', ''c_ytd_payment'', ''c_payment_cnt'']) (customer_write_field L) customer_key"

definition customer_tuple_schema :: Schema where
  "customer_tuple_schema = tuple_schema customer_key"

definition CustomerCachedRead :: struct where
  "CustomerCachedRead = repr_C
     [(''c_id'', U64), (''c_first'', Fixed 20), (''c_middle'', Fixed 2), (''c_last'', Fixed 16),
      (''c_street1'', Fixed 20), (''c_street2'', Fixed 20), (''c_city'', Fixed 20), (''c_state'', Fixed 2),
      (''c_zip'', U64), (''c_phone'', Fixed 16), (''c_since'', U64), (''c_credit'', Fixed 2),
      (''c_credit_lim'', F64), (''c_discount'', F64), (''c_balance'', F64), (''c_ytd_payment'', F64),
      (''c_payment_cnt'', U32), (''c_delivery_cnt'', U32)]"

definition customer_read_fields :: "string list" where
  "customer_read_fields =
     [''c_id'', ''c_first'', ''c_middle'', ''c_last'', ''c_street1'', ''c_street2'', ''c_city'', ''c_state'',
      ''c_zip'', ''c_phone'', ''c_since'', ''c_credit'', ''c_credit_lim'', ''c_discount'', ''c_balance'',
      ''c_ytd_payment'', ''c_payment_cnt'', ''c_delivery_cnt'']"

definition customer_read_field :: "Field \<Rightarrow> Field option" where
  "customer_read_field tuple_field =
     (if field_off tuple_field \<ge> offset_of CustomerTuple ''c_w_id'' then None else Some tuple_field)"

definition customer_read_schema :: "bytes \<Rightarrow> Schema" where
  "customer_read_schema raw =
     part_schema CustomerTuple CustomerCachedRead raw (twins customer_read_fields) (twins customer_read_fields)
       customer_read_field customer_key"

definition tpcc_item_key :: "bytes \<Rightarrow> usize" where
  "tpcc_item_key t = item_make_key (u64_member ItemTuple ''i_id'' t)"

definition item_tuple_schema :: Schema where
  "item_tuple_schema = tuple_schema tpcc_item_key"

definition ItemCached :: struct where
  "ItemCached = repr_C [(''i_price'', F64), (''i_name'', Fixed 24), (''i_data'', Fixed 50)]"

definition item_cached_field :: "Field \<Rightarrow> Field option" where
  "item_cached_field tuple_field =
     (let BEGIN_OFFSET = offset_of ItemTuple ''i_price''
      in if field_off tuple_field < BEGIN_OFFSET then None
         else Some (Field (field_begin tuple_field - of_nat BEGIN_OFFSET) (field_end tuple_field - of_nat BEGIN_OFFSET)))"

definition item_cached_schema :: "bytes \<Rightarrow> Schema" where
  "item_cached_schema raw =
     part_schema ItemTuple ItemCached raw (twins [''i_price'', ''i_name'', ''i_data'']) (twins [''i_price'', ''i_name'', ''i_data''])
       item_cached_field tpcc_item_key"

definition OrderCached :: struct where
  "OrderCached = repr_C [(''o_id'', U64), (''o_c_id'', U64), (''o_entry_d'', U64), (''o_carrier_id'', U64)]"

definition order_key :: "bytes \<Rightarrow> usize" where
  "order_key t = order_make_key (u64_member OrderTuple ''o_w_id'' t) (u64_member OrderTuple ''o_d_id'' t)
     (u64_member OrderTuple ''o_c_id'' t) (u64_member OrderTuple ''o_id'' t)"

definition order_cached_field :: "Field \<Rightarrow> Field option" where
  "order_cached_field tuple_field =
     (if field_off tuple_field \<ge> offset_of OrderTuple ''o_d_id'' then None else Some tuple_field)"

definition order_cached_schema :: "bytes \<Rightarrow> Schema" where
  "order_cached_schema raw =
     part_schema OrderTuple OrderCached raw (twins [''o_id'', ''o_c_id'', ''o_entry_d'', ''o_carrier_id''])
       (twins [''o_id'', ''o_c_id'', ''o_entry_d'', ''o_carrier_id'']) order_cached_field order_key"

definition order_tuple_schema :: Schema where
  "order_tuple_schema = tuple_schema order_key"

definition OrderLineCached :: struct where
  "OrderLineCached = repr_C
     [(''ol_o_id'', U64), (''ol_d_id'', U64), (''ol_i_id'', U64), (''ol_supply_w_id'', U64),
      (''ol_quantity'', U64), (''ol_delivery_d'', U64), (''ol_amount'', F64)]"

definition order_line_key :: "bytes \<Rightarrow> usize" where
  "order_line_key t = order_line_make_key (u64_member OrderLineTuple ''ol_w_id'' t) (u64_member OrderLineTuple ''ol_d_id'' t)
     (u64_member OrderLineTuple ''ol_o_id'' t) (u64_member OrderLineTuple ''ol_i_id'' t)"

definition order_line_fields :: "string list" where
  "order_line_fields =
     [''ol_o_id'', ''ol_d_id'', ''ol_i_id'', ''ol_supply_w_id'', ''ol_quantity'', ''ol_delivery_d'', ''ol_amount'']"

definition order_line_cached_field :: "Field \<Rightarrow> Field option" where
  "order_line_cached_field tuple_field =
     (if field_off tuple_field \<ge> offset_of OrderLineTuple ''ol_number'' then None else Some tuple_field)"

definition order_line_cached_schema :: "bytes \<Rightarrow> Schema" where
  "order_line_cached_schema raw =
     part_schema OrderLineTuple OrderLineCached raw (twins order_line_fields) (twins order_line_fields)
       order_line_cached_field order_line_key"

definition order_line_tuple_schema :: Schema where
  "order_line_tuple_schema = tuple_schema order_line_key"

definition stock_key :: "bytes \<Rightarrow> usize" where
  "stock_key t = stock_make_key (u64_member StockTuple ''s_w_id'' t) (u64_member StockTuple ''s_i_id'' t)"

definition stock_tuple_schema :: Schema where
  "stock_tuple_schema = tuple_schema stock_key"

definition StockCached :: struct where
  "StockCached = repr_C
     [(''s_i_id'', U64), (''s_w_id'', U64), (''s_quantity'', U64), (''s_ytd'', U64), (''s_order_cnt'', U64),
      (''s_remote_cnt'', U64), (''s_data'', Fixed 24), (''s_dist10'', Fixed 24)]"

definition stock_cached_field :: "Field \<Rightarrow> Field option" where
  "stock_cached_field tuple_field =
     (if tuple_field = mk_field StockTuple ''s_dist10'' then Some (mk_field StockCached ''s_dist10'')
      else if field_off tuple_field \<ge> offset_of StockTuple ''s_dist01'' then None else Some tuple_field)"

definition stock_cached_schema :: "bytes \<Rightarrow> Schema" where
  "stock_cached_schema raw =
     part_schema StockTuple StockCached raw
       (twins [''s_i_id'', ''s_w_id'', ''s_quantity'', ''s_ytd'', ''s_order_cnt'', ''s_remote_cnt'', ''s_data'', ''s_dist10''])
       (twins [''s_quantity'', ''s_ytd'', ''s_order_cnt'', ''s_remote_cnt'', ''s_data''])
       stock_cached_field stock_key"

section \<open>The contract, by computation\<close>

text \<open>Copies of byte ranges: source offset, target offset and length.\<close>

definition moves :: "struct \<Rightarrow> struct \<Rightarrow> (string \<times> string) list \<Rightarrow> (nat \<times> nat \<times> nat) list" where
  "moves A B ps = map (\<lambda>(x, y). (offset_of A x, offset_of B y, snd (span_of A x))) ps"

fun move_all :: "(nat \<times> nat \<times> nat) list \<Rightarrow> bytes \<Rightarrow> bytes \<Rightarrow> bytes" where
  "move_all [] a b = b"
| "move_all ((i, j, n) # ms) a b = move_all ms a (overwrite j (take n (drop i a)) b)"

definition apart_spans :: "nat \<Rightarrow> nat \<Rightarrow> nat \<Rightarrow> nat \<Rightarrow> bool" where
  "apart_spans i n j m \<longleftrightarrow> i + n \<le> j \<or> j + m \<le> i"

text \<open>Within bounds, and neither sources nor targets overlap.\<close>

fun moves_ok :: "nat \<Rightarrow> nat \<Rightarrow> (nat \<times> nat \<times> nat) list \<Rightarrow> bool" where
  "moves_ok na nb [] \<longleftrightarrow> True"
| "moves_ok na nb ((i, j, n) # ms) \<longleftrightarrow> i + n \<le> na \<and> j + n \<le> nb
     \<and> list_all (\<lambda>(i', j', n'). apart_spans i n i' n' \<and> apart_spans j n j' n') ms \<and> moves_ok na nb ms"

text \<open>
  A field is cached where the write-back takes it from, or it lies apart from all that is written
  back.
\<close>

definition member_ok :: "nat \<Rightarrow> nat \<Rightarrow> (nat \<times> nat \<times> nat) list \<Rightarrow> (Field \<Rightarrow> Field option) \<Rightarrow> Field \<Rightarrow> bool" where
  "member_ok nt nc wb tcf f \<longleftrightarrow> field_off f + field_size f \<le> nt
     \<and> (case tcf f of
          Some g \<Rightarrow> field_size g = field_size f \<and> (field_off g, field_off f, field_size f) \<in> set wb
        | None \<Rightarrow> list_all (\<lambda>(i, j, n). apart_spans j n (field_off f) (field_size f)) wb)"

definition part_ok ::
  "struct \<Rightarrow> struct \<Rightarrow> (string \<times> string) list \<Rightarrow> (string \<times> string) list \<Rightarrow> (Field \<Rightarrow> Field option) \<Rightarrow> Field list \<Rightarrow> bool" where
  "part_ok T C tc wb tcf fs \<longleftrightarrow> moves_ok (bytes_of T) (bytes_of C) (moves T C tc) \<and> moves_ok (bytes_of C) (bytes_of T) (moves C T wb)
     \<and> list_all (\<lambda>(i, j, n). (j, i, n) \<in> set (moves T C tc)) (moves C T wb)
     \<and> list_all (member_ok (bytes_of T) (bytes_of C) (moves C T wb) tcf) fs"

lemma assign_fields_moves: "assign_fields A B ps a b = move_all (moves A B ps) a b"
  by (induction A B ps a b rule: assign_fields.induct) (auto simp: moves_def get_member_def offset_of_def Let_def split: prod.split)

declare overwrite_length [simp]

lemma overwrite_block_length [simp]:
  "i + n \<le> length a \<Longrightarrow> j + n \<le> length b \<Longrightarrow> length (overwrite j (take n (drop i a)) b) = length b"
  by simp

lemma store_bytes_overwrite: "off + length v \<le> length t \<Longrightarrow> store_bytes off v t = Some (overwrite off v t)"
  by (simp add: store_bytes_def overwrite_def)

lemma moves_ok_mem:
  "moves_ok na nb ms \<Longrightarrow> (i, j, n) \<in> set ms \<Longrightarrow> i + n \<le> na \<and> j + n \<le> nb"
  by (induction na nb ms rule: moves_ok.induct) auto

lemma moves_ok_apart:
  "moves_ok na nb ms \<Longrightarrow> (i, j, n) \<in> set ms \<Longrightarrow> (i', j', n') \<in> set ms \<Longrightarrow> (i, j, n) \<noteq> (i', j', n') \<Longrightarrow>
     apart_spans i n i' n' \<and> apart_spans j n j' n'"
  by (induction na nb ms rule: moves_ok.induct) (auto simp: list_all_iff apart_spans_def)

lemma move_all_length [simp]:
  "moves_ok (length a) (length b) ms \<Longrightarrow> length (move_all ms a b) = length b"
  by (induction ms a b rule: move_all.induct) simp_all

text \<open>Each byte comes from the one copy that covers it, or stays.\<close>

lemma move_all_out:
  assumes "moves_ok (length a) (length b) ms" "\<forall>(i, j, n)\<in>set ms. \<not> (j \<le> k \<and> k < j + n)" "k < length b"
  shows "move_all ms a b ! k = b ! k"
  using assms
proof (induction ms a b rule: move_all.induct)
  case (2 i j n ms a b)
  then have "move_all ms a (overwrite j (take n (drop i a)) b) ! k = overwrite j (take n (drop i a)) b ! k"
    by simp
  also have "\<dots> = b ! k"
    using 2(2-4) by (subst overwrite_nth) auto
  finally show ?case by simp
qed simp

lemma move_all_in:
  assumes "moves_ok (length a) (length b) ms" "(i, j, n) \<in> set ms" "k < n"
  shows "move_all ms a b ! (j + k) = a ! (i + k)"
  using assms
proof (induction ms a b rule: move_all.induct)
  case (2 i' j' n' ms a b)
  let ?b = "overwrite j' (take n' (drop i' a)) b"
  show ?case
  proof (cases "(i, j, n) \<in> set ms")
    case True
    then show ?thesis using 2 by simp
  next
    case False
    then have eq: "i = i'" "j = j'" "n = n'" using 2(3) by auto
    have "\<forall>(i1, j1, n1)\<in>set ms. \<not> (j1 \<le> j + k \<and> j + k < j1 + n1)"
      using 2(2,4) eq by (auto simp: list_all_iff apart_spans_def)
    then have "move_all ms a ?b ! (j + k) = ?b ! (j + k)"
      using 2(2,4) eq by (intro move_all_out) simp_all
    also have "\<dots> = a ! (i + k)"
      using 2(2,4) eq by (subst overwrite_nth) auto
    finally show ?thesis by simp
  qed
qed simp

lemma load_bytes_eqI:
  assumes "i + n \<le> length a" "j + n \<le> length b" "\<And>k. k < n \<Longrightarrow> a ! (i + k) = b ! (j + k)"
  shows "load_bytes i n a = load_bytes j n b"
  using assms by (auto simp: load_bytes_def intro!: nth_equalityI)

lemma write_back_block:
  assumes ok: "moves_ok (length c) (length t) wb" and m: "(i, j, n) \<in> set wb"
  shows "load_bytes j n (move_all wb c t) = load_bytes i n c"
    and "length v = n \<Longrightarrow> move_all wb (overwrite i v c) t = overwrite j v (move_all wb c t)"
proof -
  note b = moves_ok_mem [OF ok m]
  show "load_bytes j n (move_all wb c t) = load_bytes i n c"
    using b ok move_all_in [OF ok m] by (intro load_bytes_eqI) simp_all
  show "move_all wb (overwrite i v c) t = overwrite j v (move_all wb c t)" if v: "length v = n"
  proof (rule nth_equalityI)
    have ok': "moves_ok (length (overwrite i v c)) (length t) wb"
      using b v ok by simp
    show len: "length (move_all wb (overwrite i v c) t) = length (overwrite j v (move_all wb c t))"
      using ok ok' b v by simp
    fix k assume "k < length (move_all wb (overwrite i v c) t)"
    then have k: "k < length t" using ok' by simp
    have R: "overwrite j v (move_all wb c t) ! k = (if j \<le> k \<and> k < j + n then v ! (k - j) else move_all wb c t ! k)"
      using k b v ok by (subst overwrite_nth) simp_all
    show "move_all wb (overwrite i v c) t ! k = overwrite j v (move_all wb c t) ! k"
    proof (cases "\<exists>(i1, j1, n1)\<in>set wb. j1 \<le> k \<and> k < j1 + n1")
      case False
      then have "\<forall>(i, j, n)\<in>set wb. \<not> (j \<le> k \<and> k < j + n)" by auto
      then show ?thesis
        using move_all_out [OF ok' _ k] move_all_out [OF ok _ k] m R by auto
    next
      case True
      then obtain i1 j1 n1 where m1: "(i1, j1, n1) \<in> set wb" "j1 \<le> k" "k < j1 + n1" by auto
      define d where "d = k - j1"
      have d: "k = j1 + d" "d < n1" using m1 by (simp_all add: d_def)
      have L: "move_all wb (overwrite i v c) t ! k = overwrite i v c ! (i1 + d)"
        using move_all_in [OF ok' m1(1) d(2)] d(1) by simp
      have M: "move_all wb c t ! k = c ! (i1 + d)"
        using move_all_in [OF ok m1(1) d(2)] d(1) by simp
      have b1: "i1 + d < length c" using moves_ok_mem [OF ok m1(1)] d(2) by simp
      have O: "overwrite i v c ! (i1 + d) = (if i \<le> i1 + d \<and> i1 + d < i + n then v ! (i1 + d - i) else c ! (i1 + d))"
        using b v b1 by (subst overwrite_nth) simp_all
      show ?thesis
      proof (cases "(i1, j1, n1) = (i, j, n)")
        case True
        then show ?thesis using L R O d by simp
      next
        case False
        then have "apart_spans i n i1 n1" "apart_spans j n j1 n1"
          using moves_ok_apart [OF ok m m1(1)] by auto
        then show ?thesis using L R O M d by (auto simp: apart_spans_def)
      qed
    qed
  qed
qed

lemma write_back_apart:
  assumes ok: "moves_ok (length c) (length t) wb" and far: "\<forall>(i, j, n)\<in>set wb. apart_spans j n off len"
    and b: "off + len \<le> length t"
  shows "load_bytes off len (move_all wb c t) = load_bytes off len t"
    and "length v = len \<Longrightarrow> move_all wb c (overwrite off v t) = overwrite off v (move_all wb c t)"
proof -
  have out: "\<forall>(i, j, n)\<in>set wb. \<not> (j \<le> off + k \<and> off + k < j + n)" if "k < len" for k
    using far that by (auto simp: apart_spans_def)
  show "load_bytes off len (move_all wb c t) = load_bytes off len t"
    using b ok move_all_out [OF ok out] by (intro load_bytes_eqI) simp_all
  show "move_all wb c (overwrite off v t) = overwrite off v (move_all wb c t)" if v: "length v = len"
  proof (rule nth_equalityI)
    have ok': "moves_ok (length c) (length (overwrite off v t)) wb"
      using b v ok by simp
    show "length (move_all wb c (overwrite off v t)) = length (overwrite off v (move_all wb c t))"
      using ok ok' b v by simp
    fix k assume "k < length (move_all wb c (overwrite off v t))"
    then have k: "k < length t" using ok' b v by simp
    have R: "overwrite off v (move_all wb c t) ! k = (if off \<le> k \<and> k < off + len then v ! (k - off) else move_all wb c t ! k)"
      and T: "overwrite off v t ! k = (if off \<le> k \<and> k < off + len then v ! (k - off) else t ! k)"
      using k b v ok by (subst overwrite_nth; simp)+
    show "move_all wb c (overwrite off v t) ! k = overwrite off v (move_all wb c t) ! k"
    proof (cases "\<exists>(i1, j1, n1)\<in>set wb. j1 \<le> k \<and> k < j1 + n1")
      case False
      then have "\<forall>(i, j, n)\<in>set wb. \<not> (j \<le> k \<and> k < j + n)" by auto
      then show ?thesis
        using move_all_out [OF ok' _, of k] move_all_out [OF ok _ k] R T k b v by auto
    next
      case True
      then obtain i1 j1 n1 where m1: "(i1, j1, n1) \<in> set wb" "j1 \<le> k" "k < j1 + n1" by auto
      then have far': "\<not> (off \<le> k \<and> k < off + len)"
        using far by (fastforce simp: apart_spans_def)
      have "k - j1 < n1" "j1 + (k - j1) = k" using m1 by simp_all
      then show ?thesis
        using move_all_in [OF ok' m1(1), of "k - j1"] move_all_in [OF ok m1(1), of "k - j1"] R far' by auto
    qed
  qed
qed

lemma write_back_projection:
  assumes wb: "moves_ok (length raw) (length t) wb" and tc: "moves_ok (length t) (length raw) tc"
    and inv: "\<forall>(i, j, n)\<in>set wb. (j, i, n) \<in> set tc"
  shows "move_all wb (move_all tc t raw) t = t"
proof (rule nth_equalityI)
  have ok: "moves_ok (length (move_all tc t raw)) (length t) wb"
    using wb tc by simp
  show "length (move_all wb (move_all tc t raw) t) = length t"
    using ok by simp
  fix k assume "k < length (move_all wb (move_all tc t raw) t)"
  then have k: "k < length t" using ok by simp
  show "move_all wb (move_all tc t raw) t ! k = t ! k"
  proof (cases "\<exists>(i, j, n)\<in>set wb. j \<le> k \<and> k < j + n")
    case True
    then obtain i j n where m: "(i, j, n) \<in> set wb" "j \<le> k" "k < j + n" by auto
    have d: "k - j < n" "j + (k - j) = k" using m by simp_all
    have "(j, i, n) \<in> set tc" using inv m(1) by auto
    from move_all_in [OF tc this d(1)] move_all_in [OF ok m(1) d(1)] d(2) show ?thesis by simp
  next
    case False
    then have "\<forall>(i, j, n)\<in>set wb. \<not> (j \<le> k \<and> k < j + n)" by auto
    then show ?thesis using move_all_out [OF ok _ k] by blast
  qed
qed

lemma part_schema_laws:
  assumes ok: "part_ok T C tc wb tcf fs" and raw: "length raw = bytes_of C"
  shows "schema_laws (part_schema T C raw tc wb tcf kf) (bytes_of T) (bytes_of C) (\<lambda>f. f \<in> set fs)"
proof -
  let ?S = "part_schema T C raw tc wb tcf kf" and ?wb = "moves C T wb" and ?tc = "moves T C tc"
  have m: "moves_ok (bytes_of T) (bytes_of C) ?tc" "moves_ok (bytes_of C) (bytes_of T) ?wb"
    "\<forall>(i, j, n)\<in>set ?wb. (j, i, n) \<in> set ?tc" and f: "\<forall>f\<in>set fs. member_ok (bytes_of T) (bytes_of C) ?wb tcf f"
    using ok by (auto simp: part_ok_def list_all_iff)
  have S: "to_cached ?S t = move_all ?tc t raw" "write_back ?S c t = move_all ?wb c t" "to_cached_field ?S = tcf"
    "matches ?S = default_matches tcf" for t c
    by (simp_all add: part_schema_def assign_fields_moves)
  have hit: "field_size g = field_size f \<and> (field_off g, field_off f, field_size f) \<in> set ?wb" if "f \<in> set fs" "tcf f = Some g" for f g
    using f that by (fastforce simp: member_ok_def)
  have miss: "\<forall>(i, j, n)\<in>set ?wb. apart_spans j n (field_off f) (field_size f)" if "f \<in> set fs" "tcf f = None" for f
    using f that by (fastforce simp: member_ok_def list_all_iff)
  show ?thesis
  proof (rule schema_laws.intro, unfold S)
    fix f :: Field
    assume p: "f \<in> set fs"
    then show lf: "field_off f + field_size f \<le> bytes_of T"
      using f by (simp add: member_ok_def)
    fix t c v :: bytes
    assume t: "length t = bytes_of T" and c: "length c = bytes_of C"
    have ok': "moves_ok (length c) (length t) ?wb" using m(2) t c by simp
    {
      fix g assume g: "tcf f = Some g"
      note h = hit [OF p g]
      note bl = write_back_block [OF ok' conjunct2 [OF h]] and mem = moves_ok_mem [OF ok' conjunct2 [OF h]]
      show "load_bytes (field_off f) (field_size f) (move_all ?wb c t) = load_bytes (field_off g) (field_size f) c"
        by (rule bl(1))
      assume v: "length v = field_size f"
      show "store_bytes (field_off f) v (move_all ?wb c t) = map_option (\<lambda>c'. move_all ?wb c' t) (store_bytes (field_off g) v c)"
        using bl(2) [OF v] v mem ok' by (simp add: store_bytes_overwrite)
    next
      assume n: "tcf f = None"
      note a = write_back_apart [OF ok' miss [OF p n], unfolded t, OF lf]
      show "load_bytes (field_off f) (field_size f) (move_all ?wb c t) = load_bytes (field_off f) (field_size f) t"
        by (rule a(1))
      assume v: "length v = field_size f"
      show "store_bytes (field_off f) v (move_all ?wb c t) = map_option (move_all ?wb c) (store_bytes (field_off f) v t)"
        using a(2) [OF v] v lf t ok' by (simp add: store_bytes_overwrite)
    }
  next
    fix f g assume "f \<in> set fs" "tcf f = Some g"
    then show "field_size g = field_size f \<and> field_off g + field_size g \<le> bytes_of C"
      using hit moves_ok_mem [OF m(2)] by fastforce
  next
    fix q show "default_matches tcf q \<longleftrightarrow> (\<forall>f\<in>set q. tcf f \<noteq> None)"
      by (rule default_matches_iff)
  next
    fix t :: bytes assume t: "length t = bytes_of T"
    then show "length (move_all ?tc t raw) = bytes_of C" "move_all ?wb (move_all ?tc t raw) t = t"
      using m raw write_back_projection [of raw t ?wb ?tc] by simp_all
    fix c :: bytes assume "length c = bytes_of C"
    then show "length (move_all ?wb c t) = bytes_of T"
      using m(2) t by simp
  qed
qed

text \<open>Bytes that no copy reads do not matter.\<close>

lemma take_drop_overwrite:
  assumes "apart_spans i n off (length v)" "off + length v \<le> length a" "i + n \<le> length a"
  shows "take n (drop i (overwrite off v a)) = take n (drop i a)"
proof (rule nth_equalityI)
  fix k assume "k < length (take n (drop i (overwrite off v a)))"
  then have "k < n" using assms by simp
  then show "take n (drop i (overwrite off v a)) ! k = take n (drop i a) ! k"
    using assms overwrite_nth [OF assms(2), of "i + k"] by (auto simp: apart_spans_def)
qed (use assms in simp)

lemma move_all_unread:
  assumes "moves_ok (length a) nb ms" "\<forall>(i, j, n)\<in>set ms. apart_spans i n off (length v)" "off + length v \<le> length a"
  shows "move_all ms (overwrite off v a) b = move_all ms a b"
  using assms by (induction ms a b rule: move_all.induct) (auto simp: take_drop_overwrite)

lemma tuple_schema_laws:
  "schema_laws (tuple_schema kf) n n (\<lambda>f. field_off f + field_size f \<le> n)"
  by unfold_locales (auto simp: tuple_schema_def default_matches_iff option.map_ident)

end
