(* ===== verification/Tpcc_Keys.thy ===== *)
theory Tpcc_Keys
  imports Tpcc_Layout
begin

text \<open>
  The keys of \<^verbatim>\<open>benchmark/src/tpcc/tables.rs\<close>: numbers packed into one word. Within the width of its place each number can be
  told from the key, and keys are ordered as range scans need them; beyond it they run into each other.
\<close>

section \<open>Keys\<close>

definition fits :: "nat \<Rightarrow> u64 \<Rightarrow> bool" where
  "fits n w \<longleftrightarrow> unat w < 2 ^ n"

lemma unat_push:
  assumes "unat (w :: u64) < 2 ^ n" "n + k \<le> 64"
  shows "unat (push_bit k w) = unat w * 2 ^ k"
proof -
  have "unat w * 2 ^ k < 2 ^ n * 2 ^ k"
    using assms(1) by simp
  also have "\<dots> \<le> 2 ^ 64"
    unfolding power_add [symmetric] using assms(2) by (intro power_increasing) simp_all
  finally show ?thesis
    by (simp add: unsigned_push_bit_eq push_bit_eq_mult [of k "unat w"] take_bit_nat_eq_self_iff del: push_bit_eq_mult)
qed

lemma unat_pack:
  fixes x y :: u64
  assumes "unat x + unat y < 2 ^ 64"
  shows "unat (x + y) = unat x + unat y"
  using assms by (simp add: unat_word_ariths)

text \<open>Four numbers packed into a word.\<close>

lemma unat_pack4:
  fixes a b c d :: u64
  assumes "unat a < 2 ^ (64 - k)" "unat b < 2 ^ (k - m)" "unat c < 2 ^ (m - n)" "unat d < 2 ^ n" "n \<le> m" "m \<le> k" "k \<le> 64"
  shows "unat (push_bit k a + push_bit m b + push_bit n c + d) = ((unat a * 2 ^ (k - m) + unat b) * 2 ^ (m - n) + unat c) * 2 ^ n + unat d"
    (is "unat ?w = ?v")
proof -
  have ex: "(2 :: nat) ^ (p - q) * 2 ^ q = 2 ^ p" if "q \<le> p" for p q
    using that by (simp flip: power_add)
  have p: "unat (push_bit k a) = unat a * 2 ^ k" "unat (push_bit m b) = unat b * 2 ^ m" "unat (push_bit n c) = unat c * 2 ^ n"
    using assms by (auto intro!: unat_push)
  have "(unat a + 1) * 2 ^ k \<le> 2 ^ (64 - k) * 2 ^ k" "(unat b + 1) * 2 ^ m \<le> 2 ^ (k - m) * 2 ^ m"
    "(unat c + 1) * 2 ^ n \<le> 2 ^ (m - n) * 2 ^ n"
    using assms by (auto intro!: mult_le_mono1 simp del: add_mult_distrib add_mult_distrib2 mult_Suc)
  then have le: "unat a * 2 ^ k + 2 ^ k \<le> 2 ^ 64" "unat b * 2 ^ m + 2 ^ m \<le> 2 ^ k" "unat c * 2 ^ n + 2 ^ n \<le> 2 ^ m"
    using ex assms(5-7) by (simp_all add: add_mult_distrib)
  have pos: "(0 :: nat) < 2 ^ m" "(0 :: nat) < 2 ^ n" by simp_all
  have "unat (push_bit k a + push_bit m b) = unat a * 2 ^ k + unat b * 2 ^ m"
    using le p pos by (subst unat_pack; linarith)
  then have "unat (push_bit k a + push_bit m b + push_bit n c) = unat a * 2 ^ k + unat b * 2 ^ m + unat c * 2 ^ n"
    using le p pos by (subst unat_pack; linarith)
  then have "unat ?w = unat a * 2 ^ k + unat b * 2 ^ m + unat c * 2 ^ n + unat d"
    using le p pos assms(4) by (subst unat_pack; linarith)
  also have "\<dots> = ?v"
    using ex [OF assms(5)] ex [OF assms(6)] assms(5,6)
    by (simp add: add_mult_distrib mult.assoc flip: power_add)
  finally show ?thesis .
qed

text \<open>Pairs of a number and a smaller digit compare lexicographically.\<close>

lemma digits_parts:
  fixes x y b :: nat
  assumes "y < b"
  shows "(x * b + y) div b = x" "(x * b + y) mod b = y"
  using assms by simp_all

lemma digits_eq:
  fixes x y b :: nat
  assumes y: "y < b" "y' < b"
  shows "x * b + y = x' * b + y' \<longleftrightarrow> x = x' \<and> y = y'"
  using digits_parts [OF y(1), of x] digits_parts [OF y(2), of x'] by metis

lemma digits_less: "y < b \<Longrightarrow> y' < b \<Longrightarrow> x * b + y < x' * b + y' \<longleftrightarrow> x < x' \<or> x = x' \<and> y < y'"
  for x y b :: nat
proof -
  assume y: "y < b" "y' < b"
  have lt: "u * b + v < u' * b + v'" if "u < u'" "v < b" for u u' v v'
  proof -
    have "Suc u * b \<le> u' * b" using that(1) by (intro mult_le_mono1) simp
    then show ?thesis using that(2) by simp
  qed
  show ?thesis
    using lt [of x x' y y'] lt [of x' x y' y] y by (cases x x' rule: linorder_cases) auto
qed

definition digits4 :: "nat \<Rightarrow> nat \<Rightarrow> nat \<Rightarrow> nat \<times> nat \<times> nat \<times> nat \<Rightarrow> nat" where
  "digits4 x y z v = (case v of (a, b, c, d) \<Rightarrow> ((a * 2 ^ x + b) * 2 ^ y + c) * 2 ^ z + d)"

lemma digits4_eq:
  assumes "b < 2 ^ x" "b' < 2 ^ x" "c < 2 ^ y" "c' < 2 ^ y" "d < 2 ^ z" "d' < 2 ^ z"
  shows "digits4 x y z (a, b, c, d) = digits4 x y z (a', b', c', d') \<longleftrightarrow> (a, b, c, d) = (a', b', c', d')"
  using assms by (auto simp: digits4_def digits_eq)

lemma digits4_less:
  assumes "b < 2 ^ x" "b' < 2 ^ x" "c < 2 ^ y" "c' < 2 ^ y" "d < 2 ^ z" "d' < 2 ^ z"
  shows "digits4 x y z (a, b, c, d) < digits4 x y z (a', b', c', d') \<longleftrightarrow>
    a < a' \<or> a = a' \<and> (b < b' \<or> b = b' \<and> (c < c' \<or> c = c' \<and> d < d'))"
  using assms by (auto simp: digits4_def digits_eq digits_less)

lemma new_order_key_unat:
  assumes "fits 16 w" "fits 16 d" "fits 16 n" "fits 16 c"
  shows "unat (new_order_make_key w d n c) = digits4 16 16 16 (unat w, unat d, unat n, unat c)"
  using unat_pack4 [of w 48 d 32 n 16 c] assms by (simp add: fits_def new_order_make_key_def digits4_def)

lemma order_line_key_unat:
  assumes "fits 16 w" "fits 8 d" "fits 20 n" "fits 20 i"
  shows "unat (order_line_make_key w d n i) = digits4 8 20 20 (unat w, unat d, unat n, unat i)"
  using unat_pack4 [of w 48 d 40 n 20 i] assms by (simp add: fits_def order_line_make_key_def digits4_def)

lemma order_key_new_order: "order_make_key w d c n = new_order_make_key w d c n"
  by (simp add: order_make_key_def new_order_make_key_def)

lemma lastname_key_new_order: "idx_key_lastname w d l c = new_order_make_key (ucast w) (ucast d) (ucast l) (ucast c)"
  by (simp add: idx_key_lastname_def new_order_make_key_def)

lemma fits_ucast: "fits 16 (ucast (x :: u16))"
  using unsigned_less [of x, where ?'a = nat] by (simp add: fits_def unsigned_ucast_eq take_bit_nat_less_self_iff take_bit_nat_def)

lemma customer_key_unat:
  assumes "fits 16 w" "fits 16 d" "fits 32 c"
  shows "unat (customer_make_key w d c) = digits4 16 32 0 (unat w, unat d, unat c, 0)"
  using unat_pack4 [of w 48 d 32 c 0 0] assms by (simp add: fits_def customer_make_key_def digits4_def)

lemma district_key_unat:
  assumes "fits 16 w" "fits 48 d"
  shows "unat (district_make_key w d) = digits4 48 0 0 (unat w, unat d, 0, 0)"
  using unat_pack4 [of w 48 d 0 0 0 0] assms by (simp add: fits_def district_make_key_def digits4_def)

lemma stock_key_unat:
  assumes "fits 32 w" "fits 32 i"
  shows "unat (stock_make_key w i) = digits4 32 0 0 (unat w, unat i, 0, 0)"
  using unat_pack4 [of w 32 i 0 0 0 0] assms by (simp add: fits_def stock_make_key_def digits4_def)

lemmas key_unats = new_order_key_unat order_line_key_unat customer_key_unat district_key_unat stock_key_unat

lemma order_line_key_inj:
  assumes "fits 16 w" "fits 8 d" "fits 20 n" "fits 20 i" "fits 16 w'" "fits 8 d'" "fits 20 n'" "fits 20 i'"
  shows "order_line_make_key w d n i = order_line_make_key w' d' n' i' \<longleftrightarrow> (w, d, n, i) = (w', d', n', i')"
    and "order_line_make_key w d n i < order_line_make_key w' d' n' i' \<longleftrightarrow>
      w < w' \<or> w = w' \<and> (d < d' \<or> d = d' \<and> (n < n' \<or> n = n' \<and> i < i'))"
  using assms by (simp_all add: word_unat_eq_iff word_less_nat_alt key_unats
      digits4_eq [OF assms(2,6,3,7,4,8) [unfolded fits_def]] digits4_less [OF assms(2,6,3,7,4,8) [unfolded fits_def]])

lemma new_order_key_inj:
  assumes "fits 16 w" "fits 16 d" "fits 16 n" "fits 16 c" "fits 16 w'" "fits 16 d'" "fits 16 n'" "fits 16 c'"
  shows "new_order_make_key w d n c = new_order_make_key w' d' n' c' \<longleftrightarrow> (w, d, n, c) = (w', d', n', c')"
    and "new_order_make_key w d n c < new_order_make_key w' d' n' c' \<longleftrightarrow>
      w < w' \<or> w = w' \<and> (d < d' \<or> d = d' \<and> (n < n' \<or> n = n' \<and> c < c'))"
  using assms by (simp_all add: word_unat_eq_iff word_less_nat_alt key_unats
      digits4_eq [OF assms(2,6,3,7,4,8) [unfolded fits_def]] digits4_less [OF assms(2,6,3,7,4,8) [unfolded fits_def]])

lemma new_order_key_parts:
  assumes "fits 16 w" "fits 16 d" "fits 16 n" "fits 16 c"
  shows "o_c_id_from_key (new_order_make_key w d n c) = (n, c)"
proof -
  let ?k = "new_order_make_key w d n c"
  have k: "unat ?k = digits4 16 16 16 (unat w, unat d, unat n, unat c)"
    using assms by (rule new_order_key_unat)
  have "drop_bit 16 (0xffff0000 :: u64) = mask 16" "(0xffff :: u64) = mask 16"
    by (simp_all add: drop_bit_eq_div mask_eq_exp_minus_1)
  then have m: "?k AND 0xffff = take_bit 16 ?k" "drop_bit 16 (?k AND 0xffff0000) = take_bit 16 (drop_bit 16 ?k)"
    by (simp_all only: drop_bit_and take_bit_eq_mask)
  define x where "x = unat w * 2 ^ 16 + unat d"
  have x: "unat ?k = (x * 2 ^ 16 + unat n) * 2 ^ 16 + unat c"
    unfolding k x_def digits4_def by simp
  have "unat (take_bit 16 ?k) = unat c" "unat (take_bit 16 (drop_bit 16 ?k)) = unat n"
    using assms(3,4) unfolding unat_take_bit_mod unat_drop_bit_div x fits_def by (simp_all only: digits_parts)
  then show ?thesis
    unfolding o_c_id_from_key_def m by (simp only: word_unat_eq_iff prod.inject)
qed

section \<open>Properties\<close>

text \<open>
  C22: within their widths the keys of the tables identify their rows. Keys of warehouses' districts,
  customers, stock, orders, new orders and order lines agree only if all their parts do, order and
  customer are recovered from the key of a new order, and keys of new orders and of order lines are
  ordered lexicographically, which is what the range scans over one district and one order need.
\<close>

theorem keys_identify_rows:
  assumes "fits 16 w" "fits 16 w'" "fits 16 d" "fits 16 d'" "fits 16 n" "fits 16 n'" "fits 16 c" "fits 16 c'"
    and "fits 8 e" "fits 8 e'" "fits 20 m" "fits 20 m'" "fits 20 i" "fits 20 i'"
  shows "o_c_id_from_key (new_order_make_key w d n c) = (n, c)
    \<and> (new_order_make_key w d n c < new_order_make_key w' d' n' c' \<longleftrightarrow>
        w < w' \<or> w = w' \<and> (d < d' \<or> d = d' \<and> (n < n' \<or> n = n' \<and> c < c')))
    \<and> (order_make_key w d c n = order_make_key w' d' c' n' \<longleftrightarrow> (w, d, c, n) = (w', d', c', n'))
    \<and> (order_line_make_key w e m i = order_line_make_key w' e' m' i' \<longleftrightarrow> (w, e, m, i) = (w', e', m', i'))
    \<and> (order_line_make_key w e m i < order_line_make_key w' e' m' i' \<longleftrightarrow>
        w < w' \<or> w = w' \<and> (e < e' \<or> e = e' \<and> (m < m' \<or> m = m' \<and> i < i')))
    \<and> (customer_make_key w d c = customer_make_key w' d' c' \<longleftrightarrow> (w, d, c) = (w', d', c'))
    \<and> (district_make_key w d = district_make_key w' d' \<longleftrightarrow> (w, d) = (w', d'))
    \<and> (stock_make_key w i = stock_make_key w' i' \<longleftrightarrow> (w, i) = (w', i'))"
proof -
  have wide: "fits b x" if "fits a x" "a \<le> b" for a b x
    using that power_increasing [of a b "2 :: nat"] unfolding fits_def by (meson less_le_trans one_le_numeral)
  have "customer_make_key w d c = customer_make_key w' d' c' \<longleftrightarrow> (w, d, c) = (w', d', c')"
    using assms(1-8) wide [of 16 _ 32] digits4_eq [of "unat d" 16 "unat d'" "unat c" 32 "unat c'" 0 0 0 "unat w" "unat w'"]
    by (simp add: word_unat_eq_iff customer_key_unat fits_def)
  moreover have "district_make_key w d = district_make_key w' d' \<longleftrightarrow> (w, d) = (w', d')"
    using assms(1-4) wide [of 16 _ 48] digits4_eq [of "unat d" 48 "unat d'" 0 0 0 0 0 0 "unat w" "unat w'"]
    by (simp add: word_unat_eq_iff district_key_unat fits_def)
  moreover have "stock_make_key w i = stock_make_key w' i' \<longleftrightarrow> (w, i) = (w', i')"
    using assms(1,2,13,14) wide [of 16 _ 32] wide [of 20 _ 32]
      digits4_eq [of "unat i" 32 "unat i'" 0 0 0 0 0 0 "unat w" "unat w'"]
    by (simp add: word_unat_eq_iff stock_key_unat fits_def)
  ultimately show ?thesis
    using new_order_key_parts [OF assms(1,3,5,7)] new_order_key_inj [OF assms(1,3,5,7,2,4,6,8)]
      new_order_key_inj(1) [OF assms(1,3,7,5,2,4,8,6)] order_line_key_inj [OF assms(1,9,11,13,2,10,12,14)]
    by (simp add: order_key_new_order)
qed

theorem keys_identify_rows_witness:
  "o_c_id_from_key (new_order_make_key 7 9 3001 2999) = (3001, 2999)
   \<and> new_order_make_key 7 9 3001 2999 < new_order_make_key 7 9 3002 0
   \<and> order_line_make_key 7 9 3001 99999 < order_line_make_key 7 9 3002 0"
  using keys_identify_rows [of 7 7 9 9 3001 3002 2999 0 9 9 3001 3002 99999 0] by (simp add: fits_def)

text \<open>
  C39: from order number 65536 on the 16 bits reserved for it overflow. The key of an order is then
  that of an earlier order of the next customer, and a new order is filed under the next district,
  from whose queue a delivery takes it. District numbers have 8 bits in the keys of order lines and item
  numbers 20, so those keys are not affected.
\<close>

theorem order_number_overflow:
  "order_make_key w d c (n + 0x10000) = order_make_key w d (c + 1) n
   \<and> new_order_make_key w d (n + 0x10000) c = new_order_make_key w (d + 1) n c"
  by (simp add: order_make_key_def new_order_make_key_def push_bit_add)

text \<open>
  The scans of order lines by \<^verbatim>\<open>order_status\<close> end at item number 65535, but items go up to 99999: the lines of larger items
  have keys beyond the end of the scan.
\<close>

lemma order_line_scan_short:
  assumes "fits 16 w" "fits 8 d" "fits 20 n" "fits 20 i" "65535 \<le> i"
  shows "order_line_make_key w d n 65535 \<le> order_line_make_key w d n i"
proof -
  have "fits 20 65535" by (simp add: fits_def)
  with order_line_key_inj [OF assms(1-3) this assms(1-4)] assms(5) show ?thesis
    by (auto simp: le_less)
qed

end
