(* ===== verification/Tpcc_Txn.thy ===== *)
theory Tpcc_Txn
  imports Db_Table Tpcc_Layout Tuples
begin

text \<open>
  \<^verbatim>\<open>benchmark/src/tpcc/query\<close>: the five TPC-C transactions as programs over the operations of tables and indexes. A
  program is a tree of calls, each continued by what its answer is, so that it can be run against any
  tables and interleaved with other programs. A guard that goes out of scope is a call that releases it, in the order in
  which Rust drops the variables of a scope, on early returns too.
\<close>

section \<open>Programs\<close>

datatype tpcc_table = Warehouse | District | Customer | Item | Stock | Order | OrderLine

text \<open>
  The calls: lookups by key and locks by row id, release of guards, access to fields, insertion of
  tuples, range scans, and the operations of the index of new orders and of customers by last name.
\<close>

datatype call =
    Read_Oid tpcc_table usize
  | Write_Oid tpcc_table usize
  | Lock_Rid_R tpcc_table Rid
  | Lock_Rid_W tpcc_table Rid
  | Drop_R tpcc_table Rid
  | Drop_W tpcc_table Rid
  | Read_And_Promote tpcc_table Rid FieldsMeta
  | Get_Value tpcc_table Rid FieldsMeta Field
  | Set_Value tpcc_table Rid FieldsMeta Field bytes
  | Insert_Row tpcc_table bytes
  | Table_Range tpcc_table usize usize nat
  | Last_Range usize usize nat
  | New_Order_Range usize usize nat
  | New_Order_Insert usize usize
  | New_Order_Remove usize

datatype answer = Got reply | Rids "Rid list" | Entries "(usize \<times> usize) list" | Unit

datatype 'a txn = Return 'a | Crash | Call call "answer \<Rightarrow> 'a txn"

type_synonym 'a result = "TransactionError + 'a"

datatype txn_guard = RG tpcc_table Rid | WG tpcc_table Rid

text \<open>Guards dropped in the given order.\<close>

fun drop_all :: "txn_guard list \<Rightarrow> 'a txn \<Rightarrow> 'a txn" where
  "drop_all [] p = p"
| "drop_all (RG t r # gs) p = Call (Drop_R t r) (\<lambda>_. drop_all gs p)"
| "drop_all (WG t r # gs) p = Call (Drop_W t r) (\<lambda>_. drop_all gs p)"

text \<open>The operator \<^verbatim>\<open>?\<close>: an error is returned once the guards \<open>gs\<close> in scope are dropped.\<close>

definition try_call :: "call \<Rightarrow> txn_guard list \<Rightarrow> (TransactionError \<Rightarrow> TransactionError) \<Rightarrow> (reply \<Rightarrow> 'a result txn) \<Rightarrow> 'a result txn" where
  "try_call c gs err K =
     Call c (\<lambda>a. case a of
        Got (Refused e) \<Rightarrow> drop_all gs (Return (Inl (err e)))
      | Got reply \<Rightarrow> K reply
      | _ \<Rightarrow> Crash)"

definition the_row :: "(Rid \<Rightarrow> 'a txn) \<Rightarrow> reply \<Rightarrow> 'a txn" where
  "the_row K reply = (case reply of Row_Id r \<Rightarrow> K r | _ \<Rightarrow> Crash)"

definition once_locked :: "'a txn \<Rightarrow> reply \<Rightarrow> 'a txn" where
  "once_locked p reply = (case reply of Locked \<Rightarrow> p | _ \<Rightarrow> Crash)"

definition read_oid :: "tpcc_table \<Rightarrow> usize \<Rightarrow> txn_guard list \<Rightarrow> (TransactionError \<Rightarrow> TransactionError) \<Rightarrow> (Rid \<Rightarrow> 'a result txn) \<Rightarrow> 'a result txn" where
  "read_oid t k gs err K = try_call (Read_Oid t k) gs err (the_row K)"

definition write_oid :: "tpcc_table \<Rightarrow> usize \<Rightarrow> txn_guard list \<Rightarrow> (Rid \<Rightarrow> 'a result txn) \<Rightarrow> 'a result txn" where
  "write_oid t k gs K = try_call (Write_Oid t k) gs (\<lambda>e. e) (the_row K)"

definition lock_rid_r :: "tpcc_table \<Rightarrow> Rid \<Rightarrow> txn_guard list \<Rightarrow> 'a result txn \<Rightarrow> 'a result txn" where
  "lock_rid_r t r gs p = try_call (Lock_Rid_R t r) gs (\<lambda>e. e) (once_locked p)"

definition lock_rid_w ::
  "tpcc_table \<Rightarrow> Rid \<Rightarrow> txn_guard list \<Rightarrow> (TransactionError \<Rightarrow> TransactionError) \<Rightarrow> 'a result txn \<Rightarrow> 'a result txn" where
  "lock_rid_w t r gs err p = try_call (Lock_Rid_W t r) gs err (once_locked p)"

definition user_abort :: "TransactionError \<Rightarrow> TransactionError" where
  "user_abort e = (case e of IndexNotFound \<Rightarrow> UserAbort | _ \<Rightarrow> e)"

definition read_and_promote_row :: "tpcc_table \<Rightarrow> Rid \<Rightarrow> FieldsMeta \<Rightarrow> 'a txn \<Rightarrow> 'a txn" where
  "read_and_promote_row t r query p = Call (Read_And_Promote t r query) (\<lambda>_. p)"

definition value_of :: "tpcc_table \<Rightarrow> Rid \<Rightarrow> FieldsMeta \<Rightarrow> Field \<Rightarrow> (bytes \<Rightarrow> 'a txn) \<Rightarrow> 'a txn" where
  "value_of t r query f K = Call (Get_Value t r query f) (\<lambda>a. case a of Got (Value v) \<Rightarrow> K v | _ \<Rightarrow> Crash)"

definition set_value :: "tpcc_table \<Rightarrow> Rid \<Rightarrow> FieldsMeta \<Rightarrow> Field \<Rightarrow> bytes \<Rightarrow> 'a txn \<Rightarrow> 'a txn" where
  "set_value t r query f v p = Call (Set_Value t r query f v) (\<lambda>_. p)"

definition modify :: "tpcc_table \<Rightarrow> Rid \<Rightarrow> FieldsMeta \<Rightarrow> Field \<Rightarrow> (bytes \<Rightarrow> bytes) \<Rightarrow> 'a txn \<Rightarrow> 'a txn" where
  "modify t r query f g p = value_of t r query f (\<lambda>v. set_value t r query f (g v) p)"

fun touch_fields :: "tpcc_table \<Rightarrow> Rid \<Rightarrow> FieldsMeta \<Rightarrow> Field list \<Rightarrow> 'a txn \<Rightarrow> 'a txn" where
  "touch_fields t r query [] p = p"
| "touch_fields t r query (f # fs) p = value_of t r query f (\<lambda>_. touch_fields t r query fs p)"

text \<open>An insertion whose guard is dropped at once.\<close>

definition insert_row :: "tpcc_table \<Rightarrow> bytes \<Rightarrow> 'a txn \<Rightarrow> 'a txn" where
  "insert_row t v p =
     Call (Insert_Row t v) (\<lambda>a. case a of Got (Row_Id r) \<Rightarrow> drop_all [WG t r] p | _ \<Rightarrow> Crash)"

definition scan_table :: "tpcc_table \<Rightarrow> usize \<Rightarrow> usize \<Rightarrow> nat \<Rightarrow> (Rid list \<Rightarrow> 'a txn) \<Rightarrow> 'a txn" where
  "scan_table t low high n K = Call (Table_Range t low high n) (\<lambda>a. case a of Rids rs \<Rightarrow> K rs | _ \<Rightarrow> Crash)"

definition scan_index :: "call \<Rightarrow> ((usize \<times> usize) list \<Rightarrow> 'a txn) \<Rightarrow> 'a txn" where
  "scan_index c K = Call c (\<lambda>a. case a of Entries es \<Rightarrow> K es | _ \<Rightarrow> Crash)"

section \<open>Values\<close>

definition DISTRICT_SCALE :: nat where "DISTRICT_SCALE = 10"
definition CUSTOMER_SCALE :: nat where "CUSTOMER_SCALE = 3000"
definition ITEM_SCALE :: nat where "ITEM_SCALE = 100000"
definition CARRIER_NULL :: u64 where "CARRIER_NULL = 0"

fun struct_of :: "tpcc_table \<Rightarrow> struct" where
  "struct_of Warehouse = WarehouseTuple"
| "struct_of District = DistrictTuple"
| "struct_of Customer = CustomerTuple"
| "struct_of Item = ItemTuple"
| "struct_of Stock = StockTuple"
| "struct_of Order = OrderTuple"
| "struct_of OrderLine = OrderLineTuple"

definition field_of :: "tpcc_table \<Rightarrow> string \<Rightarrow> Field" where
  "field_of t f = mk_field (struct_of t) f"

definition query_of :: "tpcc_table \<Rightarrow> string list \<Rightarrow> FieldsMeta" where
  "query_of t fs = mk_query (struct_of t) fs"

text \<open>Integers in memory; \<^verbatim>\<open>f64\<close> values are their bit patterns, and their arithmetic is a parameter.\<close>

definition to_u64 :: "bytes \<Rightarrow> u64" where
  "to_u64 b = of_nat (bytes_value b)"

definition to_u32 :: "bytes \<Rightarrow> u32" where
  "to_u32 b = of_nat (bytes_value b)"

definition u32_bytes :: "u32 \<Rightarrow> bytes" where
  "u32_bytes w = map (\<lambda>i. ucast (drop_bit (8 * i) w)) [0..<4]"

record f64_ops =
  f_add :: "u64 \<Rightarrow> u64 \<Rightarrow> u64"
  f_sub :: "u64 \<Rightarrow> u64 \<Rightarrow> u64"
  f_mul :: "u64 \<Rightarrow> u64 \<Rightarrow> u64"
  f_less :: "u64 \<Rightarrow> u64 \<Rightarrow> bool"
  f_of_u16 :: "u16 \<Rightarrow> u64"
  f_half :: u64

definition on_u64 :: "(u64 \<Rightarrow> u64) \<Rightarrow> bytes \<Rightarrow> bytes" where
  "on_u64 g b = word_bytes (g (to_u64 b))"

definition on_u32 :: "(u32 \<Rightarrow> u32) \<Rightarrow> bytes \<Rightarrow> bytes" where
  "on_u32 g b = u32_bytes (g (to_u32 b))"

text \<open>A struct literal; the structs built here have no padding.\<close>

definition struct_literal :: "struct \<Rightarrow> (string \<times> bytes) list \<Rightarrow> bytes" where
  "struct_literal T fs = fold (\<lambda>(f, v) b. overwrite (offset_of T f) v b) fs (replicate (bytes_of T) 0)"

text \<open>\<^verbatim>\<open>benchmark/src/utils.rs\<close>: fixed-size strings are their bytes.\<close>

definition str_bytes :: "string \<Rightarrow> bytes" where
  "str_bytes s = map of_char s"

definition fixed_eq :: "bytes \<Rightarrow> string \<Rightarrow> bool" where
  "fixed_eq d s \<longleftrightarrow> (if length s \<noteq> length d then False else list_all2 (=) d (str_bytes s))"

definition fixed_concat :: "nat \<Rightarrow> bytes \<Rightarrow> bytes \<Rightarrow> nat \<Rightarrow> bytes option" where
  "fixed_concat n first second space =
     (if length first + length second + space \<le> n
      then Some (overwrite (length first + space) second (overwrite 0 first (replicate n 0))) else None)"

section \<open>New order\<close>

record OrderItem =
  ol_i_id :: u32
  ol_supply_w_id :: u16
  ol_quantity :: u16

record NewOrderInput =
  no_w_id :: u32
  no_d_id :: u32
  no_c_id :: u32
  no_ol_cnt :: u32
  no_orders :: "OrderItem list"
  no_entry_d :: u64
  no_all_local :: bool

definition line_guards :: "(Rid \<times> Rid) list \<Rightarrow> txn_guard list" where
  "line_guards ls = concat (map (\<lambda>(i, s). [RG Item i, WG Stock s]) ls)"

text \<open>
  Phase 1, the loop over the order lines: \<open>ls\<close> are the pairs of item and stock guards acquired so far,
  \<open>gs\<close> the guards of customer, district and warehouse.
\<close>

fun lock_lines ::
  "OrderItem list \<Rightarrow> (Rid \<times> Rid) list \<Rightarrow> txn_guard list \<Rightarrow> ((Rid \<times> Rid) list \<Rightarrow> 'a result txn) \<Rightarrow> 'a result txn" where
  "lock_lines [] ls gs K = K ls"
| "lock_lines (x # xs) ls gs K =
     read_oid Item (item_make_key (ucast (ol_i_id x))) (line_guards ls @ gs) user_abort (\<lambda>i.
     write_oid Stock (stock_make_key (ucast (ol_supply_w_id x)) (ucast (ol_i_id x))) (RG Item i # line_guards ls @ gs) (\<lambda>s.
     lock_lines xs (ls @ [(i, s)]) gs K))"

definition new_quantity :: "u64 \<Rightarrow> u64 \<Rightarrow> u64" where
  "new_quantity s_quantity q = (if 10 \<le>s s_quantity - q then s_quantity - q else s_quantity - q + 91)"

definition order_tuple :: "NewOrderInput \<Rightarrow> u64 \<Rightarrow> bytes" where
  "order_tuple inp d_next_o_id = struct_literal OrderTuple
     [(''o_id'', word_bytes d_next_o_id), (''o_c_id'', word_bytes (ucast (no_c_id inp))),
      (''o_d_id'', word_bytes (ucast (no_d_id inp))), (''o_carrier_id'', word_bytes CARRIER_NULL),
      (''o_entry_d'', word_bytes (no_entry_d inp)), (''o_w_id'', word_bytes (ucast (no_w_id inp))),
      (''o_ol_cnt'', word_bytes (ucast (no_ol_cnt inp))), (''o_all_local'', word_bytes (of_bool (no_all_local inp)))]"

definition order_line_tuple :: "f64_ops \<Rightarrow> NewOrderInput \<Rightarrow> u64 \<Rightarrow> nat \<Rightarrow> OrderItem \<Rightarrow> bytes \<Rightarrow> bytes \<Rightarrow> bytes" where
  "order_line_tuple F inp d_next_o_id i x price s_dist = struct_literal OrderLineTuple
     [(''ol_o_id'', word_bytes d_next_o_id), (''ol_d_id'', word_bytes (ucast (no_d_id inp))),
      (''ol_w_id'', word_bytes (ucast (no_w_id inp))), (''ol_i_id'', word_bytes (ucast (ol_i_id x))),
      (''ol_supply_w_id'', word_bytes (ucast (ol_supply_w_id x))), (''ol_number'', word_bytes (of_nat i)),
      (''ol_quantity'', word_bytes (ucast (ol_quantity x))), (''ol_delivery_d'', word_bytes CARRIER_NULL),
      (''ol_amount'', word_bytes (f_mul F (f_of_u16 F (ol_quantity x)) (to_u64 price))), (''ol_dist_info'', s_dist)]"

definition s_query :: FieldsMeta where
  "s_query = query_of Stock [''s_dist10'', ''s_quantity'', ''s_ytd'', ''s_order_cnt'', ''s_remote_cnt'', ''s_data'']"

definition i_query :: FieldsMeta where
  "i_query = query_of Item [''i_price'', ''i_name'', ''i_data'']"

text \<open>Phase 2, the body of the loop over the order lines.\<close>

definition write_line :: "f64_ops \<Rightarrow> NewOrderInput \<Rightarrow> u64 \<Rightarrow> nat \<Rightarrow> OrderItem \<Rightarrow> Rid \<Rightarrow> Rid \<Rightarrow> 'a txn \<Rightarrow> 'a txn" where
  "write_line F inp d_next_o_id i x ir sr p =
     value_of Item ir i_query (field_of Item ''i_price'') (\<lambda>price.
     touch_fields Item ir i_query i_query (
     read_and_promote_row Stock sr s_query (
     value_of Stock sr s_query (field_of Stock ''s_dist10'') (\<lambda>s_dist.
     modify Stock sr s_query (field_of Stock ''s_quantity'') (on_u64 (\<lambda>s. new_quantity s (ucast (ol_quantity x)))) (
     modify Stock sr s_query (field_of Stock ''s_ytd'') (on_u64 (\<lambda>s. s + ucast (ol_quantity x))) (
     modify Stock sr s_query (field_of Stock ''s_order_cnt'') (on_u64 (\<lambda>s. s + 1)) (
     (if (ucast (ol_supply_w_id x) :: u32) \<noteq> no_w_id inp
      then modify Stock sr s_query (field_of Stock ''s_remote_cnt'') (on_u64 (\<lambda>s. s + 1)) else (\<lambda>p. p)) (
     insert_row OrderLine (order_line_tuple F inp d_next_o_id i x price s_dist) (
     drop_all [WG Stock sr, RG Item ir] p)))))))))"

text \<open>An index past the 15 lines of an input panics.\<close>

fun write_lines ::
  "f64_ops \<Rightarrow> NewOrderInput \<Rightarrow> u64 \<Rightarrow> nat \<Rightarrow> (OrderItem \<times> Rid \<times> Rid) list \<Rightarrow> 'a txn \<Rightarrow> 'a txn" where
  "write_lines F inp d_next_o_id i [] p = (if i < unat (no_ol_cnt inp) then Crash else p)"
| "write_lines F inp d_next_o_id i ((x, ir, sr) # ls) p =
     write_line F inp d_next_o_id i x ir sr (write_lines F inp d_next_o_id (i + 1) ls p)"

definition no_w_query :: FieldsMeta where "no_w_query = query_of Warehouse [''w_tax'']"
definition no_d_query :: FieldsMeta where "no_d_query = query_of District [''d_tax'', ''d_next_o_id'']"
definition no_c_query :: FieldsMeta where "no_c_query = query_of Customer [''c_discount'', ''c_last'', ''c_credit'']"

definition no_lines :: "NewOrderInput \<Rightarrow> OrderItem list" where
  "no_lines inp = take (unat (no_ol_cnt inp)) (no_orders inp)"

definition new_order_phase2 ::
  "f64_ops \<Rightarrow> NewOrderInput \<Rightarrow> Rid \<Rightarrow> Rid \<Rightarrow> Rid \<Rightarrow> (Rid \<times> Rid) list \<Rightarrow> unit result txn" where
  "new_order_phase2 F inp w d c ls =
     touch_fields Warehouse w no_w_query no_w_query (
     touch_fields District d no_d_query no_d_query (
     touch_fields Customer c no_c_query no_c_query (
     value_of District d no_d_query (field_of District ''d_next_o_id'') (\<lambda>v.
     let d_next_o_id = to_u64 v;
         no_key = new_order_make_key (ucast (no_w_id inp)) (ucast (no_d_id inp)) d_next_o_id (ucast (no_c_id inp))
     in set_value District d no_d_query (field_of District ''d_next_o_id'') (word_bytes (d_next_o_id + 1)) (
        Call (New_Order_Insert no_key no_key) (\<lambda>_.
        insert_row Order (order_tuple inp d_next_o_id) (
        write_lines F inp d_next_o_id 0 (zip (no_lines inp) ls) (
        drop_all [WG Customer c, WG District d, WG Warehouse w] (Return (Inr ()))))))))))"

definition new_order :: "f64_ops \<Rightarrow> NewOrderInput \<Rightarrow> unit result txn" where
  "new_order F inp =
     write_oid Warehouse (ucast (no_w_id inp)) [] (\<lambda>w.
     read_and_promote_row Warehouse w no_w_query (
     write_oid District (district_make_key (ucast (no_w_id inp)) (ucast (no_d_id inp))) [WG Warehouse w] (\<lambda>d.
     read_and_promote_row District d no_d_query (
     write_oid Customer (customer_make_key (ucast (no_w_id inp)) (ucast (no_d_id inp)) (ucast (no_c_id inp)))
       [WG District d, WG Warehouse w] (\<lambda>c.
     read_and_promote_row Customer c no_c_query (
     lock_lines (no_lines inp) [] [WG Customer c, WG District d, WG Warehouse w] (
     new_order_phase2 F inp w d c)))))))"

section \<open>Payment\<close>

datatype CustomerQuery = Id u32 | LastName u32

record PaymentInput =
  pay_w_id :: u32
  pay_d_id :: u32
  pay_c_w_id :: u32
  pay_c_d_id :: u32
  pay_c_query :: CustomerQuery
  pay_h_amount :: u64
  pay_h_date :: u64

text \<open>
  The customer by number, or the middle one of up to eight with a last name; without any the
  transaction ends there, and answers \<open>none\<close>.
\<close>

definition find_customer ::
  "u32 \<Rightarrow> u32 \<Rightarrow> CustomerQuery \<Rightarrow> txn_guard list \<Rightarrow> 'a \<Rightarrow> (Rid \<Rightarrow> 'a result txn) \<Rightarrow> 'a result txn" where
  "find_customer w d cq gs none K =
     (case cq of
        Id i \<Rightarrow> write_oid Customer (customer_make_key (ucast w) (ucast d) (ucast i)) gs K
      | LastName seed \<Rightarrow>
          scan_index (Last_Range (idx_key_lastname (ucast w) (ucast d) (ucast seed) 0)
            (idx_key_lastname (ucast w) (ucast d) (ucast seed) (of_nat CUSTOMER_SCALE)) 8) (\<lambda>es.
          if es = [] then drop_all gs (Return (Inr none))
          else let middle_rid = from_u32 (ucast (snd (es ! (length es div 2))))
               in lock_rid_w Customer middle_rid gs user_abort (K middle_rid)))"

definition pay_w_query :: FieldsMeta where
  "pay_w_query = query_of Warehouse [''w_name'', ''w_street1'', ''w_street2'', ''w_city'', ''w_state'', ''w_zip'', ''w_ytd'']"

definition pay_d_query :: FieldsMeta where
  "pay_d_query = query_of District [''d_name'', ''d_street1'', ''d_street2'', ''d_city'', ''d_state'', ''d_zip'', ''d_ytd'']"

definition pay_c_query_fields :: FieldsMeta where
  "pay_c_query_fields = query_of Customer
     [''c_first'', ''c_middle'', ''c_last'', ''c_street1'', ''c_street2'', ''c_city'', ''c_state'', ''c_zip'', ''c_phone'',
      ''c_since'', ''c_credit'', ''c_discount'', ''c_balance'', ''c_ytd_payment'', ''c_payment_cnt'']"

definition history_tuple :: "PaymentInput \<Rightarrow> bytes \<Rightarrow> bytes" where
  "history_tuple inp h_data = struct_literal HistoryTuple
     [(''h_amount'', word_bytes (pay_h_amount inp)),
      (''h_c_id'', word_bytes (case pay_c_query inp of Id i \<Rightarrow> ucast i | _ \<Rightarrow> 0)),
      (''h_c_d_id'', word_bytes (ucast (pay_d_id inp))), (''h_c_w_id'', word_bytes (ucast (pay_w_id inp))),
      (''h_d_id'', word_bytes (ucast (pay_d_id inp))), (''h_w_id'', word_bytes (ucast (pay_w_id inp))),
      (''h_date'', word_bytes (pay_h_date inp)), (''h_data'', h_data)]"

definition SHIFT_AMOUNT :: nat where "SHIFT_AMOUNT = 48"

text \<open>The data of the customer moved up, and the front of the history record copied before it.\<close>

definition shift_data :: "bytes \<Rightarrow> bytes \<Rightarrow> bytes" where
  "shift_data history data =
     overwrite 0 (take SHIFT_AMOUNT history) (overwrite SHIFT_AMOUNT (take (C_DATA_SIZE - SHIFT_AMOUNT) data) data)"

definition pay_customer :: "f64_ops \<Rightarrow> PaymentInput \<Rightarrow> Rid \<Rightarrow> bytes \<Rightarrow> bytes \<Rightarrow> 'a txn \<Rightarrow> 'a txn" where
  "pay_customer F inp c w_name d_name p =
     (let q = pay_c_query_fields; h_amount = pay_h_amount inp in
      read_and_promote_row Customer c q (
      touch_fields Customer c q q (
      modify Customer c q (field_of Customer ''c_balance'') (on_u64 (\<lambda>b. f_sub F b h_amount)) (
      modify Customer c q (field_of Customer ''c_ytd_payment'') (on_u64 (\<lambda>b. f_add F b h_amount)) (
      modify Customer c q (field_of Customer ''c_payment_cnt'') (on_u32 (\<lambda>n. n + 1)) (
      value_of Customer c q (field_of Customer ''c_credit'') (\<lambda>c_credit.
      value_of Customer c q (field_of Customer ''c_middle'') (\<lambda>c_middle.
      if \<not> fixed_eq c_middle ''OE'' then Crash else
      value_of Customer c q (field_of Customer ''c_discount'') (\<lambda>c_discount.
      if \<not> (f_less F 0 (to_u64 c_discount) \<and> f_less F (to_u64 c_discount) (f_half F)) then Crash else
      case fixed_concat 24 w_name d_name 4 of
        None \<Rightarrow> Crash
      | Some h_data \<Rightarrow>
          if fixed_eq c_credit ''BC''
          then let dq = query_of Customer [''c_data''] in
            read_and_promote_row Customer c dq (
            modify Customer c dq (field_of Customer ''c_data'') (shift_data (history_tuple inp h_data)) p)
          else p)))))))))"

definition payment :: "f64_ops \<Rightarrow> PaymentInput \<Rightarrow> unit result txn" where
  "payment F inp =
     (let h_amount = pay_h_amount inp in
      write_oid Warehouse (ucast (pay_w_id inp)) [] (\<lambda>w.
      read_and_promote_row Warehouse w pay_w_query (
      value_of Warehouse w pay_w_query (field_of Warehouse ''w_name'') (\<lambda>w_name.
      touch_fields Warehouse w pay_w_query pay_w_query (
      modify Warehouse w pay_w_query (field_of Warehouse ''w_ytd'') (on_u64 (\<lambda>b. f_add F b h_amount)) (
      write_oid District (district_make_key (ucast (pay_w_id inp)) (ucast (pay_d_id inp))) [WG Warehouse w] (\<lambda>d.
      read_and_promote_row District d pay_d_query (
      modify District d pay_d_query (field_of District ''d_ytd'') (on_u64 (\<lambda>b. f_add F b h_amount)) (
      value_of District d pay_d_query (field_of District ''d_name'') (\<lambda>d_name.
      touch_fields District d pay_d_query pay_d_query (
      find_customer (pay_c_w_id inp) (pay_c_d_id inp) (pay_c_query inp) [WG District d, WG Warehouse w] () (\<lambda>c.
      pay_customer F inp c w_name d_name (
      drop_all [WG Customer c, WG District d, WG Warehouse w] (Return (Inr ())))))))))))))))"

section \<open>Delivery\<close>

record DeliveryInput =
  del_w_id :: u32
  del_carrier_id :: u32

definition del_o_query :: FieldsMeta where "del_o_query = query_of Order [''o_c_id'', ''o_carrier_id'']"
definition del_ol_query :: FieldsMeta where "del_ol_query = query_of OrderLine [''ol_delivery_d'', ''ol_amount'']"
definition del_c_query :: FieldsMeta where "del_c_query = query_of Customer [''c_balance'', ''c_delivery_cnt'']"

text \<open>The order lines of an order; \<open>acc\<close> is the sum of their amounts so far.\<close>

fun deliver_lines :: "f64_ops \<Rightarrow> u64 \<Rightarrow> txn_guard list \<Rightarrow> Rid list \<Rightarrow> u64 \<Rightarrow> (u64 \<Rightarrow> 'a result txn) \<Rightarrow> 'a result txn" where
  "deliver_lines F time gs [] acc K = K acc"
| "deliver_lines F time gs (r # rs) acc K =
     lock_rid_w OrderLine r gs (\<lambda>e. e) (
     read_and_promote_row OrderLine r del_ol_query (
     set_value OrderLine r del_ol_query (field_of OrderLine ''ol_delivery_d'') (word_bytes time) (
     value_of OrderLine r del_ol_query (field_of OrderLine ''ol_amount'') (\<lambda>v.
     drop_all [WG OrderLine r] (deliver_lines F time gs rs (f_add F acc (to_u64 v)) K)))))"

definition deliver_order ::
  "f64_ops \<Rightarrow> DeliveryInput \<Rightarrow> u64 \<Rightarrow> u64 \<Rightarrow> usize \<times> usize \<Rightarrow> 'a result txn \<Rightarrow> 'a result txn" where
  "deliver_order F inp time d oc p =
     (let (o_id, c_id) = oc; w = ucast (del_w_id inp) in
      write_oid Order (order_make_key w d c_id o_id) [] (\<lambda>ord.
      set_value Order ord del_o_query (field_of Order ''o_carrier_id'') (word_bytes (ucast (del_carrier_id inp))) (
      value_of Order ord del_o_query (field_of Order ''o_c_id'') (\<lambda>v.
      if to_u64 v \<noteq> c_id then Crash else
      scan_table OrderLine (order_line_make_key w d o_id 0) (order_line_make_key w d o_id (of_nat ITEM_SCALE)) 20 (\<lambda>rs.
      deliver_lines F time [WG Order ord] rs 0 (\<lambda>ol_amount_sum.
      write_oid Customer (customer_make_key w d (to_u64 v)) [WG Order ord] (\<lambda>c.
      read_and_promote_row Customer c del_c_query (
      modify Customer c del_c_query (field_of Customer ''c_balance'') (on_u64 (\<lambda>b. f_add F b ol_amount_sum)) (
      modify Customer c del_c_query (field_of Customer ''c_delivery_cnt'') (on_u32 (\<lambda>n. n + 1)) (
      drop_all [WG Customer c, WG Order ord] p))))))))))"

text \<open>The loop over the districts, which ends at the first district without a new order.\<close>

fun deliver_from :: "f64_ops \<Rightarrow> DeliveryInput \<Rightarrow> u64 \<Rightarrow> u64 list \<Rightarrow> unit result txn" where
  "deliver_from F inp time [] = Return (Inr ())"
| "deliver_from F inp time (d # ds) =
     scan_index (New_Order_Range (new_order_make_key (ucast (del_w_id inp)) d 0 0)
       (new_order_make_key (ucast (del_w_id inp)) d 0xffff 0xffff) 1) (\<lambda>es.
     if es = [] then Return (Inr ())
     else Call (New_Order_Remove (fst (hd es))) (\<lambda>_.
       deliver_order F inp time d (o_c_id_from_key (fst (hd es))) (deliver_from F inp time ds)))"

definition delivery :: "f64_ops \<Rightarrow> u64 \<Rightarrow> DeliveryInput \<Rightarrow> unit result txn" where
  "delivery F delivery_time inp = deliver_from F inp delivery_time (map of_nat [0..<DISTRICT_SCALE])"

section \<open>Order status\<close>

record OrderStatusInput =
  os_w_id :: u32
  os_d_id :: u32
  os_c_query :: CustomerQuery

definition os_c_fields :: FieldsMeta where
  "os_c_fields = query_of Customer [''c_id'', ''c_balance'', ''c_first'', ''c_middle'', ''c_last'']"

definition os_o_fields :: FieldsMeta where
  "os_o_fields = query_of Order [''o_id'', ''o_entry_d'', ''o_carrier_id'']"

definition os_ol_fields :: FieldsMeta where
  "os_ol_fields = query_of OrderLine [''ol_i_id'', ''ol_supply_w_id'', ''ol_quantity'', ''ol_amount'', ''ol_delivery_d'']"

fun read_lines :: "txn_guard list \<Rightarrow> Rid list \<Rightarrow> 'a result txn \<Rightarrow> 'a result txn" where
  "read_lines gs [] p = p"
| "read_lines gs (r # rs) p =
     lock_rid_r OrderLine r gs (
     touch_fields OrderLine r os_ol_fields os_ol_fields (
     drop_all [RG OrderLine r] (read_lines gs rs p)))"

text \<open>
  A scan always answers with a count, so the branches for \<^verbatim>\<open>None\<close> are never taken; without orders the index of the
  most recent one is out of bounds.
\<close>

definition order_status :: "OrderStatusInput \<Rightarrow> unit result txn" where
  "order_status inp =
     (let w = ucast (os_w_id inp); d = ucast (os_d_id inp) in
      find_customer (os_w_id inp) (os_d_id inp) (os_c_query inp) [] () (\<lambda>c.
      read_and_promote_row Customer c os_c_fields (
      touch_fields Customer c os_c_fields os_c_fields (
      value_of Customer c os_c_fields (field_of Customer ''c_id'') (\<lambda>cv.
      scan_table Order (order_make_key w d (to_u64 cv) 0) (order_make_key w d (to_u64 cv) 0xffff) 12 (\<lambda>rs.
      if rs = [] then Crash else
      lock_rid_r Order (last rs) [WG Customer c] (
      touch_fields Order (last rs) os_o_fields os_o_fields (
      value_of Order (last rs) os_o_fields (field_of Order ''o_id'') (\<lambda>ov.
      scan_table OrderLine (order_line_make_key w d (to_u64 ov) 0) (order_line_make_key w d (to_u64 ov) 0xffff) 12 (\<lambda>ls.
      read_lines [RG Order (last rs), WG Customer c] ls (
      drop_all [RG Order (last rs), WG Customer c] (Return (Inr ())))))))))))))"

section \<open>Stock level\<close>

record StockLevelInput =
  sl_w_id :: u32
  sl_d_id :: u32
  sl_threshold :: u32

definition sl_d_fields :: FieldsMeta where "sl_d_fields = query_of District [''d_id'', ''d_next_o_id'']"
definition sl_ol_fields :: FieldsMeta where "sl_ol_fields = query_of OrderLine [''ol_d_id'', ''ol_o_id'', ''ol_i_id'']"
definition sl_stock_fields :: FieldsMeta where "sl_stock_fields = query_of Stock [''s_w_id'', ''s_i_id'']"

fun count_low :: "u64 \<Rightarrow> u64 \<Rightarrow> txn_guard list \<Rightarrow> Rid list \<Rightarrow> nat \<Rightarrow> (nat \<Rightarrow> 'a result txn) \<Rightarrow> 'a result txn" where
  "count_low w threshold gs [] n K = K n"
| "count_low w threshold gs (r # rs) n K =
     lock_rid_r OrderLine r gs (
     value_of OrderLine r sl_ol_fields (field_of OrderLine ''ol_i_id'') (\<lambda>v.
     read_oid Stock (stock_make_key w (to_u64 v)) (RG OrderLine r # gs) (\<lambda>e. e) (\<lambda>s.
     value_of Stock s sl_stock_fields (field_of Stock ''s_quantity'') (\<lambda>q.
     drop_all [RG Stock s, RG OrderLine r] (
     count_low w threshold gs rs (if to_u64 q < threshold then n + 1 else n) K)))))"

text \<open>The count of low stocks goes to a histogram; it is the result here.\<close>

definition stock_level :: "StockLevelInput \<Rightarrow> nat result txn" where
  "stock_level inp =
     (let w = ucast (sl_w_id inp); d = ucast (sl_d_id inp) in
      read_oid District (district_make_key w d) [] (\<lambda>e. e) (\<lambda>dr.
      value_of District dr sl_d_fields (field_of District ''d_next_o_id'') (\<lambda>v.
      let d_next_o_id = to_u64 v in
      if \<not> 20 \<le> d_next_o_id then Crash else
      scan_table OrderLine (order_line_make_key w d (min 0 (d_next_o_id - 20)) 0)
        (order_line_make_key w d d_next_o_id 0xffff) 128 (\<lambda>rs.
      count_low w (ucast (sl_threshold inp)) [RG District dr] rs 0 (\<lambda>n.
      drop_all [RG District dr] (Return (Inr n)))))))"

end
