(* ===== verification/Tpcc_Schemas.thy ===== *)
theory Tpcc_Schemas
  imports Tpcc_Layout
begin

text \<open>
  The offsets and sizes of the TPC-C structs, and the contract of schemas shown for each schema of
  \<^verbatim>\<open>benchmark/src/tpcc/schemas.rs\<close>, with a field for which it fails.
\<close>

section \<open>The schemas of the tables\<close>

named_theorems layouts \<open>the structs, laid out\<close>

lemma WarehouseTuple_layout [layouts]:
  "members WarehouseTuple =
     [(''w_id'', 0, 8), (''w_name'', 8, 10), (''w_street1'', 18, 20), (''w_street2'', 38, 20),
      (''w_city'', 58, 20), (''w_state'', 78, 2), (''w_zip'', 80, 8), (''w_tax'', 88, 8), (''w_ytd'', 96, 8)]"
  "bytes_of WarehouseTuple = 104"
  by (simp_all add: WarehouseTuple_def repr_C_def round_up_def Let_def)

lemma DistrictTuple_layout [layouts]:
  "members DistrictTuple =
     [(''d_id'', 0, 8), (''d_w_id'', 8, 8), (''d_name'', 16, 10), (''d_street1'', 26, 20),
      (''d_street2'', 46, 20), (''d_city'', 66, 20), (''d_state'', 86, 2), (''d_zip'', 88, 8),
      (''d_tax'', 96, 8), (''d_ytd'', 104, 8), (''d_next_o_id'', 112, 8)]"
  "bytes_of DistrictTuple = 120"
  by (simp_all add: DistrictTuple_def repr_C_def round_up_def Let_def)

lemma CustomerTuple_layout [layouts]:
  "members CustomerTuple =
     [(''c_id'', 0, 8), (''c_first'', 8, 20), (''c_middle'', 28, 2), (''c_last'', 30, 16),
      (''c_street1'', 46, 20), (''c_street2'', 66, 20), (''c_city'', 86, 20), (''c_state'', 106, 2),
      (''c_zip'', 112, 8), (''c_phone'', 120, 16), (''c_since'', 136, 8), (''c_credit'', 144, 2),
      (''c_credit_lim'', 152, 8), (''c_discount'', 160, 8), (''c_balance'', 168, 8),
      (''c_ytd_payment'', 176, 8), (''c_payment_cnt'', 184, 4), (''c_delivery_cnt'', 188, 4),
      (''c_w_id'', 192, 8), (''c_d_id'', 200, 8), (''c_data'', 208, 500)]"
  "bytes_of CustomerTuple = 712"
  by (simp_all add: CustomerTuple_def repr_C_def round_up_def Let_def C_DATA_SIZE_def)

lemma HistoryTuple_layout [layouts]:
  "members HistoryTuple =
     [(''h_c_id'', 0, 8), (''h_c_d_id'', 8, 8), (''h_c_w_id'', 16, 8), (''h_d_id'', 24, 8),
      (''h_data'', 32, 24), (''h_w_id'', 56, 8), (''h_date'', 64, 8), (''h_amount'', 72, 8)]"
  "bytes_of HistoryTuple = 80"
  by (simp_all add: HistoryTuple_def repr_C_def round_up_def Let_def)

lemma OrderTuple_layout [layouts]:
  "members OrderTuple =
     [(''o_id'', 0, 8), (''o_c_id'', 8, 8), (''o_entry_d'', 16, 8), (''o_carrier_id'', 24, 8),
      (''o_d_id'', 32, 8), (''o_w_id'', 40, 8), (''o_ol_cnt'', 48, 8), (''o_all_local'', 56, 8)]"
  "bytes_of OrderTuple = 64"
  by (simp_all add: OrderTuple_def repr_C_def round_up_def Let_def)

lemma OrderLineTuple_layout [layouts]:
  "members OrderLineTuple =
     [(''ol_o_id'', 0, 8), (''ol_d_id'', 8, 8), (''ol_i_id'', 16, 8), (''ol_supply_w_id'', 24, 8),
      (''ol_quantity'', 32, 8), (''ol_delivery_d'', 40, 8), (''ol_amount'', 48, 8), (''ol_number'', 56, 8),
      (''ol_w_id'', 64, 8), (''ol_dist_info'', 72, 24)]"
  "bytes_of OrderLineTuple = 96"
  by (simp_all add: OrderLineTuple_def repr_C_def round_up_def Let_def)

lemma ItemTuple_layout [layouts]:
  "members ItemTuple =
     [(''i_id'', 0, 8), (''i_im_id'', 8, 8), (''i_price'', 16, 8), (''i_name'', 24, 24), (''i_data'', 48, 50)]"
  "bytes_of ItemTuple = 104"
  by (simp_all add: ItemTuple_def repr_C_def round_up_def Let_def)

lemma StockTuple_layout [layouts]:
  "members StockTuple =
     [(''s_i_id'', 0, 8), (''s_w_id'', 8, 8), (''s_quantity'', 16, 8), (''s_ytd'', 24, 8),
      (''s_order_cnt'', 32, 8), (''s_remote_cnt'', 40, 8), (''s_data'', 48, 24), (''s_dist01'', 72, 24),
      (''s_dist02'', 96, 24), (''s_dist03'', 120, 24), (''s_dist04'', 144, 24), (''s_dist05'', 168, 24),
      (''s_dist06'', 192, 24), (''s_dist07'', 216, 24), (''s_dist08'', 240, 24), (''s_dist09'', 264, 24),
      (''s_dist10'', 288, 24)]"
  "bytes_of StockTuple = 312"
  by (simp_all add: StockTuple_def repr_C_def round_up_def Let_def)

lemma CustomerCachedRead_layout [layouts]:
  "members CustomerCachedRead =
     [(''c_id'', 0, 8), (''c_first'', 8, 20), (''c_middle'', 28, 2), (''c_last'', 30, 16),
      (''c_street1'', 46, 20), (''c_street2'', 66, 20), (''c_city'', 86, 20), (''c_state'', 106, 2),
      (''c_zip'', 112, 8), (''c_phone'', 120, 16), (''c_since'', 136, 8), (''c_credit'', 144, 2),
      (''c_credit_lim'', 152, 8), (''c_discount'', 160, 8), (''c_balance'', 168, 8),
      (''c_ytd_payment'', 176, 8), (''c_payment_cnt'', 184, 4), (''c_delivery_cnt'', 188, 4)]"
  "bytes_of CustomerCachedRead = 192"
  by (simp_all add: CustomerCachedRead_def repr_C_def round_up_def Let_def)

lemma ItemCached_layout [layouts]:
  "members ItemCached =
     [(''i_price'', 0, 8), (''i_name'', 8, 24), (''i_data'', 32, 50)]"
  "bytes_of ItemCached = 88"
  by (simp_all add: ItemCached_def repr_C_def round_up_def Let_def)

lemma OrderCached_layout [layouts]:
  "members OrderCached =
     [(''o_id'', 0, 8), (''o_c_id'', 8, 8), (''o_entry_d'', 16, 8), (''o_carrier_id'', 24, 8)]"
  "bytes_of OrderCached = 32"
  by (simp_all add: OrderCached_def repr_C_def round_up_def Let_def)

lemma OrderLineCached_layout [layouts]:
  "members OrderLineCached =
     [(''ol_o_id'', 0, 8), (''ol_d_id'', 8, 8), (''ol_i_id'', 16, 8), (''ol_supply_w_id'', 24, 8),
      (''ol_quantity'', 32, 8), (''ol_delivery_d'', 40, 8), (''ol_amount'', 48, 8)]"
  "bytes_of OrderLineCached = 56"
  by (simp_all add: OrderLineCached_def repr_C_def round_up_def Let_def)

lemma StockCached_layout [layouts]:
  "members StockCached =
     [(''s_i_id'', 0, 8), (''s_w_id'', 8, 8), (''s_quantity'', 16, 8), (''s_ytd'', 24, 8),
      (''s_order_cnt'', 32, 8), (''s_remote_cnt'', 40, 8), (''s_data'', 48, 24), (''s_dist10'', 72, 24)]"
  "bytes_of StockCached = 96"
  by (simp_all add: StockCached_def repr_C_def round_up_def Let_def)

definition all_fields :: "struct \<Rightarrow> Field list" where
  "all_fields T = map (mk_field T \<circ> fst) (members T)"

lemmas part_simps = part_ok_def member_ok_def moves_def twins_def all_fields_def mk_field_def offset_of_def span_of_def
  from_span_def field_off_def field_size_def apart_spans_def Let_def

lemma part_ok_item:
  "part_ok ItemTuple ItemCached (twins [''i_price'', ''i_name'', ''i_data'']) (twins [''i_price'', ''i_name'', ''i_data'']) item_cached_field (all_fields ItemTuple)"
  by (simp add: part_simps layouts item_cached_field_def)

lemma part_ok_order:
  "part_ok OrderTuple OrderCached (twins [''o_id'', ''o_c_id'', ''o_entry_d'', ''o_carrier_id''])
     (twins [''o_id'', ''o_c_id'', ''o_entry_d'', ''o_carrier_id'']) order_cached_field (all_fields OrderTuple)"
  by (simp add: part_simps layouts order_cached_field_def)

lemma part_ok_order_line:
  "part_ok OrderLineTuple OrderLineCached (twins order_line_fields) (twins order_line_fields) order_line_cached_field (all_fields OrderLineTuple)"
  by (simp add: part_simps layouts order_line_fields_def order_line_cached_field_def)

definition stock_fields :: "Field list" where
  "stock_fields = filter (\<lambda>f. f \<notin> set (mk_query StockTuple [''s_i_id'', ''s_w_id'', ''s_dist10''])) (all_fields StockTuple)"

lemma part_ok_stock:
  "part_ok StockTuple StockCached
     (twins [''s_i_id'', ''s_w_id'', ''s_quantity'', ''s_ytd'', ''s_order_cnt'', ''s_remote_cnt'', ''s_data'', ''s_dist10''])
     (twins [''s_quantity'', ''s_ytd'', ''s_order_cnt'', ''s_remote_cnt'', ''s_data'']) stock_cached_field stock_fields"
  by (simp add: part_simps layouts stock_fields_def mk_query_def stock_cached_field_def)

lemma distinct_fields:
  assumes "distinct (map fst (members T))"
  shows "all_fields T = map (\<lambda>(f, o', n). from_span o' (o' + n)) (members T)"
proof -
  have "mk_field T f = from_span o' (o' + n)" if "(f, o', n) \<in> set (members T)" for f o' n
    using map_of_is_SomeI [OF assms that] by (simp add: mk_field_def span_of_def)
  then show ?thesis
    unfolding all_fields_def by (intro map_cong) auto
qed

lemma customer_read_moves:
  "moves CustomerTuple CustomerCachedRead (twins customer_read_fields) =
     [(0, 0, 8), (8, 8, 20), (28, 28, 2), (30, 30, 16), (46, 46, 20), (66, 66, 20), (86, 86, 20),
      (106, 106, 2), (112, 112, 8), (120, 120, 16), (136, 136, 8), (144, 144, 2), (152, 152, 8), (160, 160, 8),
      (168, 168, 8), (176, 176, 8), (184, 184, 4), (188, 188, 4)]"
  "moves CustomerCachedRead CustomerTuple (twins customer_read_fields) = moves CustomerTuple CustomerCachedRead (twins customer_read_fields)"
  by (simp_all add: moves_def twins_def customer_read_fields_def offset_of_def span_of_def layouts)

lemma customer_fields:
  "all_fields CustomerTuple = map (\<lambda>(f, o', n). from_span o' (o' + n)) (members CustomerTuple)"
  by (rule distinct_fields) (simp add: layouts)

lemma customer_end: "offset_of CustomerTuple ''c_w_id'' = 192"
  by (simp add: offset_of_def span_of_def layouts)

lemma part_ok_customer_read:
  "part_ok CustomerTuple CustomerCachedRead (twins customer_read_fields) (twins customer_read_fields) customer_read_field (all_fields CustomerTuple)"
  by (simp add: part_ok_def customer_read_moves customer_fields layouts from_span_def member_ok_def field_off_def field_size_def
      apart_spans_def customer_read_field_def customer_end)

text \<open>What the compiler guarantees of a struct it lays out itself: fields within it that do not overlap.\<close>

fun laid_out :: "struct \<Rightarrow> (string \<times> nat) list \<Rightarrow> bool" where
  "laid_out L [] \<longleftrightarrow> bytes_of L < 65536"
| "laid_out L ((f, n) # fs) \<longleftrightarrow> snd (span_of L f) = n \<and> offset_of L f + n \<le> bytes_of L
     \<and> list_all (\<lambda>(g, m). apart_spans (offset_of L f) n (offset_of L g) m) fs \<and> laid_out L fs"

lemma mk_field_simps:
  assumes "offset_of L f + snd (span_of L f) < 65536"
  shows "field_off (mk_field L f) = offset_of L f" "field_size (mk_field L f) = snd (span_of L f)"
  using assms from_span_simps [of "offset_of L f + snd (span_of L f)" "offset_of L f"]
  by (simp_all add: mk_field_def offset_of_def split_def Let_def)

lemma customer_spans:
  "span_of CustomerTuple ''c_balance'' = (168, 8)" "span_of CustomerTuple ''c_ytd_payment'' = (176, 8)"
  "span_of CustomerTuple ''c_payment_cnt'' = (184, 4)"
  by (simp_all add: span_of_def layouts)

lemma part_ok_customer_write:
  assumes L: "laid_out L [(''c_balance'', 8), (''c_ytd_payment'', 8), (''c_payment_cnt'', 4)]"
  shows "part_ok CustomerTuple L (twins [''c_balance'', ''c_ytd_payment'', ''c_payment_cnt''])
    (twins [''c_balance'', ''c_ytd_payment'', ''c_payment_cnt'']) (customer_write_field L) (all_fields CustomerTuple)"
proof -
  have off: "field_off (mk_field L f) = offset_of L f \<and> field_size (mk_field L f) = snd (span_of L f)"
    if "f \<in> {''c_balance'', ''c_ytd_payment'', ''c_payment_cnt''}" for f
    using L that by (intro conjI mk_field_simps) auto
  have fld: "mk_field CustomerTuple ''c_balance'' = Field 168 176" "mk_field CustomerTuple ''c_ytd_payment'' = Field 176 184"
    "mk_field CustomerTuple ''c_payment_cnt'' = Field 184 188"
    by (simp_all add: mk_field_def customer_spans from_span_def)
  show ?thesis
    using L off by (simp add: part_ok_def moves_def twins_def customer_fields layouts from_span_def customer_spans offset_of_def [of CustomerTuple]
        member_ok_def customer_write_field_def fld) (simp add: field_off_def field_size_def apart_spans_def)
qed

lemma part_ok_ytd:
  assumes L: "laid_out L [(''ytd'', 8)]" and T: "span_of T f = (off, 8)" "off + 8 \<le> bytes_of T" "off < 60000"
    and far: "list_all (\<lambda>g. g = from_span off (off + 8) \<or> field_off g + field_size g \<le> bytes_of T \<and> apart_spans off 8 (field_off g) (field_size g)) gs"
  shows "part_ok T L [(f, ''ytd'')] [(''ytd'', f)] (\<lambda>g. if mk_field T f = g then Some (mk_field L ''ytd'') else None) gs"
proof -
  have y: "field_off (mk_field L ''ytd'') = offset_of L ''ytd''" "field_size (mk_field L ''ytd'') = 8"
    using L by (simp_all add: mk_field_simps)
  have f: "mk_field T f = from_span off (off + 8)" "field_off (from_span off (off + 8)) = off" "field_size (from_span off (off + 8)) = 8"
    using T by (simp_all add: mk_field_def from_span_simps)
  show ?thesis
    using L T far y f by (auto simp: part_ok_def moves_def offset_of_def [of T] member_ok_def list_all_iff)
qed

lemma part_ok_warehouse:
  assumes "laid_out L [(''ytd'', 8)]"
  shows "part_ok WarehouseTuple L [(''w_ytd'', ''ytd'')] [(''ytd'', ''w_ytd'')] (warehouse_cached_field L) (all_fields WarehouseTuple)"
  unfolding warehouse_cached_field_def
  by (rule part_ok_ytd [OF assms, of _ _ 96]) (simp_all add: span_of_def layouts all_fields_def mk_field_def from_span_def
      field_off_def field_size_def apart_spans_def)

lemma part_ok_district:
  assumes "laid_out L [(''ytd'', 8)]"
  shows "part_ok DistrictTuple L [(''d_ytd'', ''ytd'')] [(''ytd'', ''d_ytd'')] (district_cached_field L) (all_fields DistrictTuple)"
  unfolding district_cached_field_def
  by (rule part_ok_ytd [OF assms, of _ _ 104]) (simp_all add: span_of_def layouts all_fields_def mk_field_def from_span_def
      field_off_def field_size_def apart_spans_def)

section \<open>Properties\<close>


definition sample_ytd :: struct where
  "sample_ytd = \<lparr> members = [(''ytd'', 0, 8)], bytes_of = 8 \<rparr>"

definition sample_write :: struct where
  "sample_write = \<lparr> members = [(''c_payment_cnt'', 16, 4), (''c_balance'', 0, 8), (''c_ytd_payment'', 8, 8)], bytes_of = 24 \<rparr>"


text \<open>
  C40: the partial stock schema caches \<^verbatim>\<open>s_dist10\<close> but does not write it back. Two cached items that differ there write
  back the same tuple, so an assignment to that field of a cached row is lost when the row is
  evicted, and the contract cannot hold for it.
\<close>

theorem stock_cached_loses:
  assumes "length c = 96" and "length t = 312" and "length v = 24"
  shows "stock_cached_field (mk_field StockTuple ''s_dist10'') = Some (mk_field StockCached ''s_dist10'')
    \<and> write_back (stock_cached_schema raw) (overwrite (field_off (mk_field StockCached ''s_dist10'')) v c) t
        = write_back (stock_cached_schema raw) c t
    \<and> (proper (mk_field StockTuple ''s_dist10'') \<longrightarrow> \<not> schema_laws (stock_cached_schema raw) 312 96 proper)"
proof -
  let ?S = "stock_cached_schema raw" and ?f = "mk_field StockTuple ''s_dist10''" and ?g = "mk_field StockCached ''s_dist10''"
  have fg: "field_off ?g = 72" "field_size ?g = 24" "field_size ?f = 24"
    by (simp_all add: mk_field_def span_of_def layouts from_span_def field_off_def field_size_def)
  have tcf: "stock_cached_field ?f = Some ?g"
    by (simp add: stock_cached_field_def)
  let ?wb = "[(16, 16, 8), (24, 24, 8), (32, 32, 8), (40, 40, 8), (48, 48, 24)] :: (nat \<times> nat \<times> nat) list"
  have wb: "write_back ?S c t = move_all ?wb c t" for c t
    by (simp add: stock_cached_schema_def part_schema_def assign_fields_moves moves_def twins_def offset_of_def span_of_def layouts)
  have lost: "write_back ?S (overwrite 72 v c) t = write_back ?S c t" if "length c = 96" "length v = 24" for c v t
    unfolding wb using that by (intro move_all_unread [of _ 312]) (simp_all add: apart_spans_def)
  have "\<not> schema_laws ?S 312 96 proper" if p: "proper ?f"
  proof
    assume "schema_laws ?S 312 96 proper"
    then have ld: "load_bytes (field_off ?f) 24 (write_back ?S c t) = load_bytes 72 24 c" if "length c = 96" for c
      using schema_laws.load_cached [of ?S 312 96 proper ?f ?g t c] p tcf fg that assms(2)
      by (simp add: stock_cached_schema_def part_schema_def)
    have "load_bytes 72 24 (overwrite 72 (replicate 24 x) c) = load_bytes 72 24 c" for x
      using ld [of c] ld [of "overwrite 72 (replicate 24 x) c"] lost [of c "replicate 24 x" t] assms(1) by simp
    then have "replicate 24 (0 :: u8) = replicate 24 1"
      using assms(1) by (simp add: load_bytes_def overwrite_def)
    then show False by (simp add: numeral_eq_Suc)
  qed
  then show ?thesis
    using tcf lost [OF assms(1,3)] fg(1) by simp
qed

theorem stock_cached_loses_witness:
  "write_back (stock_cached_schema []) (overwrite 72 (replicate 24 7) (replicate 96 0)) (replicate 312 1)
     = write_back (stock_cached_schema []) (replicate 96 0) (replicate 312 1)
   \<and> \<not> schema_laws (stock_cached_schema []) 312 96 (\<lambda>f. f \<in> set (all_fields StockTuple))"
proof -
  have "mk_field StockTuple ''s_dist10'' \<in> set (all_fields StockTuple)" "field_off (mk_field StockCached ''s_dist10'') = 72"
    by (simp_all add: all_fields_def layouts mk_field_def span_of_def from_span_def field_off_def)
  then show ?thesis
    using stock_cached_loses [of "replicate 96 0" "replicate 312 1" "replicate 24 7" "[]" "\<lambda>f. f \<in> set (all_fields StockTuple)"]
    by simp
qed

end
