(* ===== verification/Tpcc_Run.thy ===== *)
theory Tpcc_Run
  imports Tpcc_Txn Tpcc_Schemas "HOL-Library.Multiset"
begin

text \<open>
  Running transactions. A specification of the database says what the calls of a transaction may answer and what they change:
  keyed tables of tuples with the locks of other clients, and the guards the transaction
  itself holds, nothing of caches, slots and words. A calculus shows properties of programs against
  it, and a simulation carries them over to programs that run on the tables of the engine.
\<close>

section \<open>The database that transactions see\<close>

record db =
  tab :: "tpcc_table \<Rightarrow> tspec"
  no_ix :: "usize \<Rightarrow> usize option"
  last_ix :: "usize \<Rightarrow> Rid option"

definition row :: "db \<Rightarrow> tpcc_table \<Rightarrow> Rid \<Rightarrow> (bytes \<times> lock_state) option" where
  "row u t r = fst (tab u t) r"

definition ix :: "db \<Rightarrow> tpcc_table \<Rightarrow> usize \<Rightarrow> Rid option" where
  "ix u t k = snd (tab u t) k"

fun key_of :: "tpcc_table \<Rightarrow> bytes \<Rightarrow> usize" where
  "key_of Warehouse = warehouse_key"
| "key_of District = district_key"
| "key_of Customer = customer_key"
| "key_of Item = tpcc_item_key"
| "key_of Stock = stock_key"
| "key_of Order = order_key"
| "key_of OrderLine = order_line_key"

definition tuple_size :: "tpcc_table \<Rightarrow> nat" where
  "tuple_size t = bytes_of (struct_of t)"

definition proper_field :: "tpcc_table \<Rightarrow> Field \<Rightarrow> bool" where
  "proper_field t f \<longleftrightarrow> f \<in> set (all_fields (struct_of t))"

text \<open>
  Tuples have their size, index entries lead to rows, and other clients hold so few read guards that
  a transaction cannot fill the lock byte with its own.
\<close>

definition db_ok :: "db \<Rightarrow> bool" where
  "db_ok u \<longleftrightarrow>
     (\<forall>t r v l. row u t r = Some (v, l) \<longrightarrow> length v = tuple_size t \<and> (\<forall>n. l = Readers n \<longrightarrow> n \<le> 95))
     \<and> (\<forall>t k r. ix u t k = Some r \<longrightarrow> row u t r \<noteq> None)
     \<and> (\<forall>k r. last_ix u k = Some r \<longrightarrow> row u Customer r \<noteq> None)"

definition set_row_value :: "tpcc_table \<Rightarrow> Rid \<Rightarrow> bytes \<Rightarrow> db \<Rightarrow> db" where
  "set_row_value t r v u = u\<lparr> tab := (tab u)(t := (\<lambda>r'. if r' = r then map_option (\<lambda>(_, l). (v, l)) (row u t r) else row u t r', snd (tab u t))) \<rparr>"

definition add_row :: "tpcc_table \<Rightarrow> Rid \<Rightarrow> bytes \<Rightarrow> db \<Rightarrow> db" where
  "add_row t r v u = u\<lparr> tab := (tab u)(t := ((fst (tab u t))(r \<mapsto> (v, Readers 0)), (snd (tab u t))(key_of t v \<mapsto> r))) \<rparr>"

text \<open>The guards of a transaction on top of the locks of the others.\<close>

fun more_readers :: "nat \<Rightarrow> lock_state \<Rightarrow> lock_state" where
  "more_readers m (Readers n) = Readers (n + m)"
| "more_readers m Writer = Writer"

definition lock_with :: "txn_guard multiset \<Rightarrow> tpcc_table \<Rightarrow> Rid \<Rightarrow> lock_state \<Rightarrow> lock_state" where
  "lock_with g t r l = (if WG t r \<in># g then Writer else more_readers (count g (RG t r)) l)"

definition with_guards :: "txn_guard multiset \<Rightarrow> db \<Rightarrow> db" where
  "with_guards g u =
     u\<lparr> tab := \<lambda>t. (\<lambda>r. map_option (\<lambda>(v, l). (v, lock_with g t r l)) (row u t r), snd (tab u t)) \<rparr>"

definition guards_ok :: "txn_guard multiset \<Rightarrow> db \<Rightarrow> bool" where
  "guards_ok g u \<longleftrightarrow>
     (\<forall>t r. (WG t r \<in># g \<longrightarrow> (\<exists>v. row u t r = Some (v, Readers 0)) \<and> count g (WG t r) = 1 \<and> RG t r \<notin># g)
        \<and> (RG t r \<in># g \<longrightarrow> (\<exists>v n. row u t r = Some (v, Readers n))))"

section \<open>Calls\<close>

text \<open>When a call is within the guards held: accesses under a guard, writes under a write guard.\<close>

fun may :: "txn_guard multiset \<Rightarrow> call \<Rightarrow> bool" where
  "may g (Read_Oid t k) \<longleftrightarrow> size g < 32"
| "may g (Lock_Rid_R t r) \<longleftrightarrow> size g < 32"
| "may g (Drop_R t r) \<longleftrightarrow> RG t r \<in># g"
| "may g (Drop_W t r) \<longleftrightarrow> WG t r \<in># g"
| "may g (Read_And_Promote t r query) \<longleftrightarrow> WG t r \<in># g"
| "may g (Get_Value t r query f) \<longleftrightarrow> RG t r \<in># g \<or> WG t r \<in># g"
| "may g (Set_Value t r query f v) \<longleftrightarrow> WG t r \<in># g"
| "may g _ \<longleftrightarrow> True"

text \<open>When it fits the database: rows exist, fields are fields of the query and of the tuple, values have their size.\<close>

fun fits_db :: "db \<Rightarrow> call \<Rightarrow> bool" where
  "fits_db u (Lock_Rid_R t r) \<longleftrightarrow> row u t r \<noteq> None"
| "fits_db u (Lock_Rid_W t r) \<longleftrightarrow> row u t r \<noteq> None"
| "fits_db u (Read_And_Promote t r query) \<longleftrightarrow> query \<noteq> [] \<and> (\<forall>f\<in>set query. proper_field t f)"
| "fits_db u (Get_Value t r query f) \<longleftrightarrow> f \<in> set query \<and> proper_field t f"
| "fits_db u (Set_Value t r query f v) \<longleftrightarrow> f \<in> set query \<and> proper_field t f \<and> length v = field_size f"
| "fits_db u (Insert_Row t v) \<longleftrightarrow> length v = tuple_size t"
| "fits_db u _ \<longleftrightarrow> True"

definition read_refused :: "bool \<Rightarrow> txn_guard multiset \<Rightarrow> db \<Rightarrow> tpcc_table \<Rightarrow> Rid \<Rightarrow> TransactionError \<Rightarrow> bool" where
  "read_refused weak g u t r e \<longleftrightarrow>
     (\<exists>v l. row u t r = Some (v, l) \<and> (lock_with g t r l = Writer \<and> e = ReadLockBusy \<or> weak \<and> e = LockBusy))"

definition write_refused :: "bool \<Rightarrow> txn_guard multiset \<Rightarrow> db \<Rightarrow> tpcc_table \<Rightarrow> Rid \<Rightarrow> TransactionError \<Rightarrow> bool" where
  "write_refused weak g u t r e \<longleftrightarrow>
     (\<exists>v l. row u t r = Some (v, l) \<and> (lock_with g t r l \<noteq> Readers 0 \<and> e = WriteLockBusy \<or> weak \<and> e = LockBusy))"

definition can_read :: "txn_guard multiset \<Rightarrow> db \<Rightarrow> tpcc_table \<Rightarrow> Rid \<Rightarrow> bool" where
  "can_read g u t r \<longleftrightarrow> (\<exists>v n. row u t r = Some (v, Readers n)) \<and> WG t r \<notin># g"

definition can_write :: "txn_guard multiset \<Rightarrow> db \<Rightarrow> tpcc_table \<Rightarrow> Rid \<Rightarrow> bool" where
  "can_write g u t r \<longleftrightarrow> (\<exists>v. row u t r = Some (v, Readers 0)) \<and> WG t r \<notin># g \<and> RG t r \<notin># g"

text \<open>What a call may answer; \<open>weak\<close> says whether a lock may be refused spuriously.\<close>

fun answers :: "bool \<Rightarrow> txn_guard multiset \<Rightarrow> db \<Rightarrow> call \<Rightarrow> answer \<Rightarrow> bool" where
  "answers weak g u (Read_Oid t k) a \<longleftrightarrow>
     (case ix u t k of
        None \<Rightarrow> a = Got (Refused IndexNotFound)
      | Some r \<Rightarrow> a = Got (Row_Id r) \<and> can_read g u t r \<or> (\<exists>e. a = Got (Refused e) \<and> read_refused weak g u t r e))"
| "answers weak g u (Write_Oid t k) a \<longleftrightarrow>
     (case ix u t k of
        None \<Rightarrow> a = Got (Refused IndexNotFound)
      | Some r \<Rightarrow> a = Got (Row_Id r) \<and> can_write g u t r \<or> (\<exists>e. a = Got (Refused e) \<and> write_refused weak g u t r e))"
| "answers weak g u (Lock_Rid_R t r) a \<longleftrightarrow>
     a = Got Locked \<and> can_read g u t r \<or> (\<exists>e. a = Got (Refused e) \<and> read_refused weak g u t r e)"
| "answers weak g u (Lock_Rid_W t r) a \<longleftrightarrow>
     a = Got Locked \<and> can_write g u t r \<or> (\<exists>e. a = Got (Refused e) \<and> write_refused weak g u t r e)"
| "answers weak g u (Drop_R t r) a \<longleftrightarrow> a = Got Nothing"
| "answers weak g u (Drop_W t r) a \<longleftrightarrow> a = Got Nothing"
| "answers weak g u (Read_And_Promote t r query) a \<longleftrightarrow> (\<exists>x. a = Got (Value x))"
| "answers weak g u (Get_Value t r query f) a \<longleftrightarrow>
     (\<exists>v l x. row u t r = Some (v, l) \<and> load_bytes (field_off f) (field_size f) v = Some x \<and> a = Got (Value x))"
| "answers weak g u (Set_Value t r query f x) a \<longleftrightarrow> a = Got Nothing"
| "answers weak g u (Insert_Row t v) a \<longleftrightarrow> (\<exists>r. row u t r = None \<and> a = Got (Row_Id r))"
| "answers weak g u (Table_Range t low high n) a \<longleftrightarrow>
     (\<exists>rs. length rs \<le> n \<and> set rs \<subseteq> ran (ix u t) \<and> a = Rids rs)"
| "answers weak g u (Last_Range low high n) a \<longleftrightarrow>
     (\<exists>es. length es \<le> n \<and> (\<forall>(k, v)\<in>set es. last_ix u k = Some (rid_from_usize v)) \<and> a = Entries es)"
| "answers weak g u (New_Order_Range low high n) a \<longleftrightarrow>
     (\<exists>es. length es \<le> n \<and> (\<forall>(k, v)\<in>set es. no_ix u k = Some v) \<and> a = Entries es)"
| "answers weak g u (New_Order_Insert k v) a \<longleftrightarrow> a = Unit"
| "answers weak g u (New_Order_Remove k) a \<longleftrightarrow> a = Unit"

text \<open>The guards and the database after an answered call.\<close>

fun row_granted :: "answer \<Rightarrow> Rid option" where
  "row_granted (Got (Row_Id r)) = Some r"
| "row_granted _ = None"

fun guards_after :: "call \<Rightarrow> answer \<Rightarrow> txn_guard multiset \<Rightarrow> txn_guard multiset" where
  "guards_after (Read_Oid t k) a g = (case row_granted a of Some r \<Rightarrow> add_mset (RG t r) g | None \<Rightarrow> g)"
| "guards_after (Write_Oid t k) a g = (case row_granted a of Some r \<Rightarrow> add_mset (WG t r) g | None \<Rightarrow> g)"
| "guards_after (Insert_Row t v) a g = (case row_granted a of Some r \<Rightarrow> add_mset (WG t r) g | None \<Rightarrow> g)"
| "guards_after (Lock_Rid_R t r) a g = (if a = Got Locked then add_mset (RG t r) g else g)"
| "guards_after (Lock_Rid_W t r) a g = (if a = Got Locked then add_mset (WG t r) g else g)"
| "guards_after (Drop_R t r) a g = g - {#RG t r#}"
| "guards_after (Drop_W t r) a g = g - {#WG t r#}"
| "guards_after _ a g = g"

fun db_after :: "call \<Rightarrow> answer \<Rightarrow> db \<Rightarrow> db" where
  "db_after (Set_Value t r query f x) a u =
     (case row u t r of Some (v, _) \<Rightarrow> set_row_value t r (overwrite (field_off f) x v) u | None \<Rightarrow> u)"
| "db_after (Insert_Row t v) a u = (case row_granted a of Some r \<Rightarrow> add_row t r v u | None \<Rightarrow> u)"
| "db_after (New_Order_Insert k v) a u = u\<lparr> no_ix := (no_ix u)(k \<mapsto> v) \<rparr>"
| "db_after (New_Order_Remove k) a u = u\<lparr> no_ix := (no_ix u)(k := None) \<rparr>"
| "db_after _ a u = u"

section \<open>Correctness of a program\<close>

text \<open>
  Whatever its calls may answer, a program stays within its guards and its fields, does not panic unless \<open>cr\<close>
  allows it, and ends without guards in a result and a database with \<open>Q\<close>.
\<close>

primrec correct :: "bool \<Rightarrow> bool \<Rightarrow> ('a \<Rightarrow> db \<Rightarrow> bool) \<Rightarrow> 'a txn \<Rightarrow> txn_guard multiset \<Rightarrow> db \<Rightarrow> bool" where
  "correct cr weak Q (Return x) g u \<longleftrightarrow> g = {#} \<and> Q x u"
| "correct cr weak Q Crash g u \<longleftrightarrow> cr"
| "correct cr weak Q (Call c k) g u \<longleftrightarrow> may g c \<and> fits_db u c
     \<and> (\<forall>a. answers weak g u c a \<longrightarrow> correct cr weak Q (k a) (guards_after c a g) (db_after c a u))"

section \<open>Programs on the engine\<close>

record ('l, 'm, 'i) engine =
  etab :: "tpcc_table \<Rightarrow> ('l, 'm, 'i) DbTable"
  e_last :: 'i
  e_no :: 'i

text \<open>
  The table operation of a call. A promotion is observed through the first field of its query; an
  access to a field finds the value of its query again, which cannot have moved while the row is locked. Thread,
  spurious failures and the outcome of the compare-exchange of a probe are arguments.
\<close>

type_synonym chance = "tid \<times> (nat \<Rightarrow> bool \<times> bool) \<times> bool"

fun cmd_of :: "chance \<Rightarrow> call \<Rightarrow> (tpcc_table \<times> tcmd) option" where
  "cmd_of (i, spur, weak) (Read_Oid t k) = Some (t, Find_Read weak k)"
| "cmd_of (i, spur, weak) (Write_Oid t k) = Some (t, Find_Write weak k)"
| "cmd_of (i, spur, weak) (Lock_Rid_R t r) = Some (t, On_Row (Lock_Read weak r))"
| "cmd_of (i, spur, weak) (Lock_Rid_W t r) = Some (t, On_Row (Lock_Write weak r))"
| "cmd_of (i, spur, weak) (Drop_R t r) = Some (t, On_Row (Drop_Read r))"
| "cmd_of (i, spur, weak) (Drop_W t r) = Some (t, On_Row (Drop_Write r))"
| "cmd_of (i, spur, weak) (Read_And_Promote t r query) = Some (t, On_Row (Get_Promote i spur r query (hd query)))"
| "cmd_of (i, spur, weak) (Get_Value t r query f) = Some (t, On_Row (Get r query f))"
| "cmd_of (i, spur, weak) (Set_Value t r query f v) = Some (t, On_Row (Put r query f v))"
| "cmd_of (i, spur, weak) (Insert_Row t v) = Some (t, Add i spur v)"
| "cmd_of (i, spur, weak) _ = None"

fun index_call :: "'i congee \<Rightarrow> call \<Rightarrow> ('l, 'm, 'i) engine \<Rightarrow> (answer \<times> ('l, 'm, 'i) engine) outcome option" where
  "index_call G (Table_Range t low high n) E =
     (case table_range G low high (replicate n (from_u32 0)) (etab E t) of
        Done (Some scanned, buf) \<Rightarrow> Some (Done (Rids (take scanned buf), E)) | _ \<Rightarrow> Some Panic)"
| "index_call G (Last_Range low high n) E =
     (let (cnt, buf) = art_range G (e_last E) low high (replicate n (0, 0)) in Some (Done (Entries (take cnt buf), E)))"
| "index_call G (New_Order_Range low high n) E =
     (let (cnt, buf) = art_range G (e_no E) low high (replicate n (0, 0)) in Some (Done (Entries (take cnt buf), E)))"
| "index_call G (New_Order_Insert k v) E = Some (Done (Unit, E\<lparr> e_no := hm_insert (art_map G) (e_no E) k v \<rparr>))"
| "index_call G (New_Order_Remove k) E = Some (Done (Unit, E\<lparr> e_no := hm_remove (art_map G) (e_no E) k \<rparr>))"
| "index_call G _ E = Some Panic"

definition engine_call ::
  "(tpcc_table \<Rightarrow> ('l, 'm) world) \<Rightarrow> 'i congee \<Rightarrow> chance \<Rightarrow> call \<Rightarrow> ('l, 'm, 'i) engine
    \<Rightarrow> (answer \<times> ('l, 'm, 'i) engine) outcome option" where
  "engine_call W G ch c E =
     (case cmd_of ch c of
        None \<Rightarrow> index_call G c E
      | Some (t, cmd) \<Rightarrow>
          (case texec (W t) (Art G) cmd (etab E t) of
             Some (Done (reply, T)) \<Rightarrow> Some (Done (Got reply, E\<lparr> etab := (etab E)(t := T) \<rparr>))
           | Some _ \<Rightarrow> Some Panic
           | None \<Rightarrow> None))"

text \<open>How a run of a program ends: with a result, at a call that panics or does not return, or by a panic of its own.\<close>

datatype ('a, 'e) ended = Finished 'a 'e | Stopped call 'e | Panicked

primrec run_txn ::
  "(tpcc_table \<Rightarrow> ('l, 'm) world) \<Rightarrow> 'i congee \<Rightarrow> 'a txn \<Rightarrow> (nat \<Rightarrow> chance) \<Rightarrow> nat \<Rightarrow> ('l, 'm, 'i) engine
    \<Rightarrow> ('a, ('l, 'm, 'i) engine) ended" where
  "run_txn W G (Return x) ch n E = Finished x E"
| "run_txn W G Crash ch n E = Panicked"
| "run_txn W G (Call c k) ch n E =
     (case engine_call W G (ch n) c E of
        Some (Done (a, E1)) \<Rightarrow> run_txn W G (k a) ch (n + 1) E1
      | _ \<Rightarrow> Stopped c E)"

section \<open>The specification, step by step\<close>

named_theorems db_simps \<open>rows, indexes and guards of a database\<close>

lemma row_simps [db_simps]:
  "row (with_guards g u) t r = map_option (\<lambda>(v, l). (v, lock_with g t r l)) (row u t r)"
  "ix (with_guards g u) t = ix u t" "no_ix (with_guards g u) = no_ix u" "last_ix (with_guards g u) = last_ix u"
  "row (set_row_value t r v u) t' r' = (if t' = t \<and> r' = r then map_option (\<lambda>(_, l). (v, l)) (row u t r) else row u t' r')"
  "ix (set_row_value t r v u) t' k = ix u t' k" "last_ix (set_row_value t r v u) = last_ix u" "no_ix (set_row_value t r v u) = no_ix u"
  "row (add_row t r v u) t' r' = (if t' = t \<and> r' = r then Some (v, Readers 0) else row u t' r')"
  "ix (add_row t r v u) t' k = (if t' = t \<and> k = key_of t v then Some r else ix u t' k)"
  "last_ix (add_row t r v u) = last_ix u" "no_ix (add_row t r v u) = no_ix u"
  "row (u\<lparr> no_ix := m \<rparr>) t r = row u t r" "ix (u\<lparr> no_ix := m \<rparr>) t k = ix u t k"
  by (auto simp: row_def ix_def with_guards_def set_row_value_def add_row_def fun_eq_iff)

lemma db_eqI:
  assumes "\<And>t r. row u t r = row u' t r" "\<And>t k. ix u t k = ix u' t k" "no_ix u = no_ix u'" "last_ix u = last_ix u'"
  shows "u = (u' :: db)"
proof -
  have "tab u = tab u'"
    using assms(1,2) by (simp add: row_def ix_def fun_eq_iff prod_eq_iff)
  then show ?thesis
    using assms(3,4) by simp
qed

lemma more_readers_0 [simp]: "more_readers 0 l = l"
  by (cases l) auto

lemma no_guards [simp]: "with_guards {#} u = u"
  by (rule db_eqI) (auto simp: db_simps lock_with_def option.map_id)

text \<open>A database in which one table has changed.\<close>

lemma row_update [db_simps]:
  "row (s\<lparr> tab := (tab s)(t := x) \<rparr>) t' r = (if t' = t then fst x r else row s t' r)"
  "ix (s\<lparr> tab := (tab s)(t := x) \<rparr>) t' k = (if t' = t then snd x k else ix s t' k)"
  by (simp_all add: row_def ix_def)

lemma tab_pair: "tab u t = (row u t, ix u t)"
  by (simp add: row_def ix_def fun_eq_iff prod_eq_iff)

lemma lock_with_other:
  assumes "t' \<noteq> t \<or> r' \<noteq> r"
  shows "lock_with (add_mset (RG t r) g) t' r' = lock_with g t' r'" "lock_with (add_mset (WG t r) g) t' r' = lock_with g t' r'"
  using assms by (auto simp: lock_with_def fun_eq_iff)

lemma more_readers_iffs [simp]:
  "more_readers m l = Readers n \<longleftrightarrow> (\<exists>k. l = Readers k \<and> n = k + m)" "more_readers m l = Writer \<longleftrightarrow> l = Writer"
  by (cases l; auto)+

lemma guards_change:
  assumes "row u t r = Some (v, l)" "\<And>t' r'. t' \<noteq> t \<or> r' \<noteq> r \<Longrightarrow> lock_with g' t' r' = lock_with g t' r'"
  shows "with_guards g' u
    = (with_guards g u)\<lparr> tab := (tab (with_guards g u))(t := ((row (with_guards g u) t)(r \<mapsto> (v, lock_with g' t r l)), ix u t)) \<rparr>"
proof (rule db_eqI)
  show "row (with_guards g' u) t' r'
    = row ((with_guards g u)\<lparr> tab := (tab (with_guards g u))(t := ((row (with_guards g u) t)(r \<mapsto> (v, lock_with g' t r l)), ix u t)) \<rparr>) t' r'"
    for t' r'
    using assms by (cases "t' = t \<and> r' = r") (auto simp: db_simps)
qed (auto simp: db_simps)

lemma proper_field_within: "proper_field t f \<Longrightarrow> field_off f + field_size f \<le> tuple_size t"
  by (cases t) (auto simp: proper_field_def tuple_size_def all_fields_def layouts mk_field_def span_of_def
      from_span_def field_off_def field_size_def)

lemma proper_field_load:
  assumes "db_ok u" "row u t r = Some (v, l)" "proper_field t f"
  shows "\<exists>x. load_bytes (field_off f) (field_size f) v = Some x" "field_off f + field_size f \<le> length v"
proof -
  have "length v = tuple_size t"
    using assms(1,2) by (auto simp: db_ok_def)
  then show "field_off f + field_size f \<le> length v"
    using proper_field_within [OF assms(3)] by simp
  then show "\<exists>x. load_bytes (field_off f) (field_size f) v = Some x"
    by (simp add: load_bytes_def)
qed

text \<open>Granting and returning guards.\<close>

lemma grant_read:
  assumes "row u t r = Some (v, l)" "lock_with g t r l = Readers n"
  shows "can_read g u t r"
    "with_guards (add_mset (RG t r) g) u
       = (with_guards g u)\<lparr> tab := (tab (with_guards g u))(t := ((row (with_guards g u) t)(r \<mapsto> (v, Readers (Suc n))), ix u t)) \<rparr>"
proof -
  have w: "WG t r \<notin># g" "lock_with (add_mset (RG t r) g) t r l = Readers (Suc n)" "\<exists>n. l = Readers n"
    using assms(2) by (auto simp: lock_with_def split: if_splits)
  then show "can_read g u t r"
    using assms(1) by (auto simp: can_read_def)
  show "with_guards (add_mset (RG t r) g) u
       = (with_guards g u)\<lparr> tab := (tab (with_guards g u))(t := ((row (with_guards g u) t)(r \<mapsto> (v, Readers (Suc n))), ix u t)) \<rparr>"
    using guards_change [OF assms(1) lock_with_other(1)] w(2) by simp
qed

lemma grant_write:
  assumes "row u t r = Some (v, l)" "lock_with g t r l = Readers 0"
  shows "can_write g u t r"
    "with_guards (add_mset (WG t r) g) u
       = (with_guards g u)\<lparr> tab := (tab (with_guards g u))(t := ((row (with_guards g u) t)(r \<mapsto> (v, Writer)), ix u t)) \<rparr>"
proof -
  have w: "WG t r \<notin># g" "RG t r \<notin># g" "l = Readers 0" "lock_with (add_mset (WG t r) g) t r l = Writer"
    using assms(2) by (auto simp: lock_with_def count_eq_zero_iff split: if_splits)
  then show "can_write g u t r"
    using assms(1) by (simp add: can_write_def)
  show "with_guards (add_mset (WG t r) g) u
       = (with_guards g u)\<lparr> tab := (tab (with_guards g u))(t := ((row (with_guards g u) t)(r \<mapsto> (v, Writer)), ix u t)) \<rparr>"
    using guards_change [OF assms(1) lock_with_other(2)] w(4) by simp
qed

lemma return_read:
  assumes "guards_ok g u" "RG t r \<in># g" "row (with_guards g u) t r = Some (v, Readers (Suc n))"
  shows "with_guards (g - {#RG t r#}) u
       = (with_guards g u)\<lparr> tab := (tab (with_guards g u))(t := ((row (with_guards g u) t)(r \<mapsto> (v, Readers n)), ix u t)) \<rparr>"
proof -
  obtain g' where g: "g = add_mset (RG t r) g'"
    using assms(2) by (metis mset_add)
  obtain l where l: "row u t r = Some (v, l)" "lock_with g t r l = Readers (Suc n)"
    using assms(3) by (auto simp: db_simps)
  then have "lock_with g' t r l = Readers n"
    by (auto simp: g lock_with_def split: if_splits)
  then show ?thesis
    using guards_change [OF l(1), of g' g] lock_with_other(1) [of _ t _ r g'] by (simp add: g)
qed

lemma return_write:
  assumes "guards_ok g u" "WG t r \<in># g" "row (with_guards g u) t r = Some (v, Writer)"
  shows "with_guards (g - {#WG t r#}) u
       = (with_guards g u)\<lparr> tab := (tab (with_guards g u))(t := ((row (with_guards g u) t)(r \<mapsto> (v, Readers 0)), ix u t)) \<rparr>"
proof -
  obtain g' where g: "g = add_mset (WG t r) g'"
    using assms(2) by (metis mset_add)
  obtain l where l: "row u t r = Some (v, l)"
    using assms(3) by (auto simp: db_simps)
  have "WG t r \<notin># g'" "RG t r \<notin># g'" "l = Readers 0"
    using assms(1,2) l by (auto simp: g guards_ok_def not_in_iff)
  then have "lock_with g' t r l = Readers 0"
    by (simp add: lock_with_def not_in_iff)
  then show ?thesis
    using guards_change [OF l, of g' g] lock_with_other(2) [of _ t _ r g'] by (simp add: g)
qed

inductive_cases tspec_addE: "tspec_step kf (a, m) (Add i spur v) reply x"
inductive_cases tspec_find_readE: "tspec_step kf (a, m) (Find_Read weak k) reply x"
inductive_cases tspec_find_writeE: "tspec_step kf (a, m) (Find_Write weak k) reply x"
inductive_cases tspec_rowE: "tspec_step kf (a, m) (On_Row c) reply x"
inductive_cases spec_drop_readE: "spec_step a (Drop_Read r) reply a1"
inductive_cases spec_drop_writeE: "spec_step a (Drop_Write r) reply a1"
inductive_cases spec_getE: "spec_step a (Get r query f) reply a1"
inductive_cases spec_promoteE: "spec_step a (Get_Promote i spur r query f) reply a1"
inductive_cases spec_putE: "spec_step a (Put r query f v) reply a1"

text \<open>One table changed to given rows, with the index as it is.\<close>

abbreviation with_rows :: "tpcc_table \<Rightarrow> spec \<Rightarrow> db \<Rightarrow> db" where
  "with_rows t a s \<equiv> s\<lparr> tab := (tab s)(t := (a, ix s t)) \<rparr>"

lemma with_rows_same [simp]: "with_rows t (row s t) s = s"
  by (rule db_eqI) (simp_all add: db_simps)

lemma guards_same [db_simps]:
  "(with_guards g u)\<lparr> tab := (tab (with_guards g u))(t := (row (with_guards g u) t, ix u t)) \<rparr> = with_guards g u"
  using with_rows_same [of "with_guards g u" t] by (simp add: row_simps)

lemma lock_read_step:
  assumes "spec_step (row (with_guards g u) t) (Lock_Read weak r) reply a1"
  shows "reply = Locked \<and> can_read g u t r \<and> with_guards (add_mset (RG t r) g) u = with_rows t a1 (with_guards g u)
     \<or> (\<exists>e. reply = Refused e \<and> read_refused weak g u t r e \<and> a1 = row (with_guards g u) t)"
proof -
  from assms consider (granted) v n where "row (with_guards g u) t r = Some (v, Readers n)" "reply = Locked"
      "a1 = (row (with_guards g u) t)(r \<mapsto> (v, Readers (Suc n)))"
    | (busy) v l e where "row (with_guards g u) t r = Some (v, l)" "l = Writer \<and> e = ReadLockBusy \<or> weak \<and> e = LockBusy"
      "reply = Refused e" "a1 = row (with_guards g u) t"
    by (elim spec_lock_readE) auto
  then show ?thesis
  proof cases
    case granted
    then obtain l where "row u t r = Some (v, l)" "lock_with g t r l = Readers n"
      by (auto simp: db_simps)
    from grant_read [OF this] granted show ?thesis by (simp add: db_simps)
  next
    case busy
    then show ?thesis by (auto simp: db_simps read_refused_def)
  qed
qed

lemma lock_write_step:
  assumes "spec_step (row (with_guards g u) t) (Lock_Write weak r) reply a1"
  shows "reply = Locked \<and> can_write g u t r \<and> with_guards (add_mset (WG t r) g) u = with_rows t a1 (with_guards g u)
     \<or> (\<exists>e. reply = Refused e \<and> write_refused weak g u t r e \<and> a1 = row (with_guards g u) t)"
proof -
  from assms consider (granted) v where "row (with_guards g u) t r = Some (v, Readers 0)" "reply = Locked"
      "a1 = (row (with_guards g u) t)(r \<mapsto> (v, Writer))"
    | (busy) v l e where "row (with_guards g u) t r = Some (v, l)" "l \<noteq> Readers 0 \<and> e = WriteLockBusy \<or> weak \<and> e = LockBusy"
      "reply = Refused e" "a1 = row (with_guards g u) t"
    by (elim spec_lock_writeE) auto
  then show ?thesis
  proof cases
    case granted
    then obtain l where "row u t r = Some (v, l)" "lock_with g t r l = Readers 0"
      by (auto simp: db_simps)
    from grant_write [OF this] granted show ?thesis by (simp add: db_simps)
  next
    case busy
    then show ?thesis by (auto simp: db_simps write_refused_def)
  qed
qed

definition call_agrees :: "bool \<Rightarrow> txn_guard multiset \<Rightarrow> db \<Rightarrow> call \<Rightarrow> reply \<Rightarrow> tpcc_table \<Rightarrow> tspec \<Rightarrow> bool" where
  "call_agrees weak g u c reply t x \<longleftrightarrow> answers weak g u c (Got reply)
     \<and> with_guards (guards_after c (Got reply) g) (db_after c (Got reply) u)
       = (with_guards g u)\<lparr> tab := (tab (with_guards g u))(t := x) \<rparr>"

lemma find_agrees:
  "tspec_step kf (tab (with_guards g u) t) (Find_Read weak k) reply x \<Longrightarrow> call_agrees weak g u (Read_Oid t k) reply t x"
  "tspec_step kf (tab (with_guards g u) t) (Find_Write weak k) reply x \<Longrightarrow> call_agrees weak g u (Write_Oid t k) reply t x"
proof -
  show "call_agrees weak g u (Read_Oid t k) reply t x"
    if "tspec_step kf (tab (with_guards g u) t) (Find_Read weak k) reply x"
    using that unfolding tab_pair
    by (elim tspec_find_readE) (auto simp: call_agrees_def db_simps tab_pair dest!: lock_read_step)
  show "call_agrees weak g u (Write_Oid t k) reply t x"
    if "tspec_step kf (tab (with_guards g u) t) (Find_Write weak k) reply x"
    using that unfolding tab_pair
    by (elim tspec_find_writeE) (auto simp: call_agrees_def db_simps tab_pair dest!: lock_write_step)
qed

lemma row_agrees_guards:
  assumes "guards_ok g u" "spec_step (row (with_guards g u) t) c reply a1" "x = (a1, ix u t)"
  shows "c = Lock_Read weak r \<Longrightarrow> call_agrees weak g u (Lock_Rid_R t r) reply t x"
    "c = Lock_Write weak r \<Longrightarrow> call_agrees weak g u (Lock_Rid_W t r) reply t x"
    "c = Drop_Read r \<Longrightarrow> RG t r \<in># g \<Longrightarrow> call_agrees weak g u (Drop_R t r) reply t x"
    "c = Drop_Write r \<Longrightarrow> WG t r \<in># g \<Longrightarrow> call_agrees weak g u (Drop_W t r) reply t x"
proof -
  show "call_agrees weak g u (Lock_Rid_R t r) reply t x" if "c = Lock_Read weak r"
    using lock_read_step [of g u t weak r reply a1] assms(2,3) that by (auto simp: call_agrees_def db_simps tab_pair)
  show "call_agrees weak g u (Lock_Rid_W t r) reply t x" if "c = Lock_Write weak r"
    using lock_write_step [of g u t weak r reply a1] assms(2,3) that by (auto simp: call_agrees_def db_simps tab_pair)
  show "call_agrees weak g u (Drop_R t r) reply t x" if "c = Drop_Read r" "RG t r \<in># g"
    using assms(2,3) return_read [OF assms(1) that(2)] unfolding that(1)
    by (elim spec_drop_readE) (simp add: call_agrees_def)
  show "call_agrees weak g u (Drop_W t r) reply t x" if "c = Drop_Write r" "WG t r \<in># g"
    using assms(2,3) return_write [OF assms(1) that(2)] unfolding that(1)
    by (elim spec_drop_writeE) (simp add: call_agrees_def)
qed

lemma row_agrees_fields:
  assumes "db_ok u" "spec_step (row (with_guards g u) t) c reply a1" "x = (a1, ix u t)"
  shows "c = Get r query f \<Longrightarrow> call_agrees weak g u (Get_Value t r query f) reply t x"
    "c = Get_Promote i spur r query f \<Longrightarrow> call_agrees weak g u (Read_And_Promote t r query) reply t x"
    "c = Put r query f v \<Longrightarrow> call_agrees weak g u (Set_Value t r query f v) reply t x"
proof -
  show "call_agrees weak g u (Get_Value t r query f) reply t x" if "c = Get r query f"
    using assms(2,3) unfolding that
    by (elim spec_getE) (auto simp: call_agrees_def db_simps tab_pair)
  show "call_agrees weak g u (Read_And_Promote t r query) reply t x" if "c = Get_Promote i spur r query f"
    using assms(2,3) unfolding that
    by (elim spec_promoteE) (auto simp: call_agrees_def db_simps tab_pair)
  show "call_agrees weak g u (Set_Value t r query f v) reply t x" if "c = Put r query f v"
  proof -
    from assms(2) [unfolded that] obtain w l w' where p: "row u t r = Some (w, l)" "store_bytes (field_off f) v w = Some w'" "reply = Nothing"
      "a1 = (row (with_guards g u) t)(r \<mapsto> (w', lock_with g t r l))"
      by (elim spec_putE) (auto simp: db_simps)
    have "w' = overwrite (field_off f) v w"
      using p(2) by (simp add: store_bytes_def overwrite_def split: if_splits)
    then have "with_guards g (set_row_value t r (overwrite (field_off f) v w) u) = with_rows t a1 (with_guards g u)"
      using p(1,4) by (intro db_eqI) (auto simp: db_simps)
    then show ?thesis
      using p(1,3) assms(3) by (simp add: call_agrees_def db_simps)
  qed
qed

lemma add_agrees:
  assumes "guards_ok g u" "tspec_step (key_of t) (tab (with_guards g u) t) (Add i spur v) reply x"
  shows "call_agrees weak g u (Insert_Row t v) reply t x"
proof -
  from assms(2) obtain r where r: "row u t r = None" "reply = Row_Id r"
    "x = ((row (with_guards g u) t)(r \<mapsto> (v, Writer)), (ix u t)(key_of t v \<mapsto> r))"
    unfolding tab_pair by (elim tspec_addE) (auto simp: db_simps)
  have "lock_with (add_mset (WG t r) g) t r (Readers 0) = Writer"
    by (simp add: lock_with_def)
  then have "with_guards (add_mset (WG t r) g) (add_row t r v u) = (with_guards g u)\<lparr> tab := (tab (with_guards g u))(t := x) \<rparr>"
    using lock_with_other(2) [of _ t _ r g] r by (intro db_eqI) (auto simp: db_simps)
  then show ?thesis
    using r(1,2) by (simp add: call_agrees_def)
qed

lemma row_call_agrees:
  assumes ok: "db_ok u" "guards_ok g u" "may g c" and cmd: "cmd_of (i, spur, weak) c = Some (t, cmd)"
    and step: "tspec_step (key_of t) (tab (with_guards g u) t) cmd reply x"
  shows "call_agrees weak g u c reply t x"
proof (cases "\<exists>c'. cmd = On_Row c'")
  case True
  then obtain c' where c': "cmd = On_Row c'" by blast
  then obtain a1 where a: "spec_step (row (with_guards g u) t) c' reply a1" "x = (a1, ix u t)"
    using step unfolding c' tab_pair by (elim tspec_rowE) (auto simp: db_simps)
  show ?thesis
    using cmd c' ok(3) row_agrees_guards [OF ok(2) a] row_agrees_fields [OF ok(1) a] by (cases c) auto
next
  case False
  then show ?thesis
    using cmd find_agrees [of "key_of t" g u t weak _ reply x] step add_agrees [OF ok(2), of t i spur _ reply x weak] by (cases c) auto
qed

lemma guards_ok_grant:
  assumes "guards_ok g u"
  shows "can_read g u t r \<Longrightarrow> guards_ok (add_mset (RG t r) g) u" "can_write g u t r \<Longrightarrow> guards_ok (add_mset (WG t r) g) u"
  using assms by (auto simp: guards_ok_def can_read_def can_write_def not_in_iff)

lemma guards_ok_return:
  assumes "guards_ok g u"
  shows "guards_ok (g - {#h#}) u"
  unfolding guards_ok_def
proof (intro allI conjI impI)
  fix t r
  note g = assms [unfolded guards_ok_def, rule_format, of t r]
  show "\<exists>v. row u t r = Some (v, Readers 0)" "RG t r \<notin># g - {#h#}" if "WG t r \<in># g - {#h#}"
    using g in_diffD [OF that] in_diffD by fast+
  show "count (g - {#h#}) (WG t r) = 1" if "WG t r \<in># g - {#h#}"
    using g in_diffD [OF that] that by (auto simp flip: count_greater_zero_iff split: if_splits)
  show "\<exists>v n. row u t r = Some (v, Readers n)" if "RG t r \<in># g - {#h#}"
    using g in_diffD [OF that] by fast
qed

lemma guards_ok_rows:
  assumes "guards_ok g u" "\<And>t r. map_option snd (row u' t r) = map_option snd (row u t r)"
  shows "guards_ok g u'"
proof -
  have "\<exists>w. row u' t r = Some (w, l)" if "row u t r = Some (v, l)" for t r v l
    using assms(2) [of t r] that by (cases "row u' t r") auto
  then show ?thesis
    using assms(1) unfolding guards_ok_def by metis
qed

lemma db_ok_set:
  assumes "db_ok u" "row u t r = Some (v, l)" "length w = length v"
  shows "db_ok (set_row_value t r w u)"
  using assms by (auto simp: db_ok_def db_simps)

lemma db_ok_add: "db_ok u \<Longrightarrow> length v = tuple_size t \<Longrightarrow> db_ok (add_row t r v u)"
  by (auto simp: db_ok_def db_simps)

lemma guards_ok_add:
  assumes "guards_ok g u" "row u t r = None"
  shows "guards_ok (add_mset (WG t r) g) (add_row t r v u)"
  using assms by (force simp: guards_ok_def db_simps not_in_iff)

lemma call_keeps:
  assumes a: "answers weak g u c a" and ok: "may g c" "fits_db u c" "guards_ok g u" "db_ok u"
  shows "guards_ok (guards_after c a g) (db_after c a u) \<and> db_ok (db_after c a u)"
proof (cases c)
  case (Set_Value t r query f x)
  then obtain v where v: "row u t r = Some (v, Readers 0)"
    using ok(1,3) by (auto simp: guards_ok_def)
  let ?w = "overwrite (field_off f) x v"
  have "length ?w = length v"
    using proper_field_load(2) [OF ok(4) v] ok(2) Set_Value by (simp add: overwrite_length)
  then show ?thesis
    using v db_ok_set [OF ok(4) v] guards_ok_rows [OF ok(3), of "set_row_value t r ?w u"] Set_Value
    by (auto simp: db_simps option.map_comp o_def split_def)
next
  case (Insert_Row t v)
  then show ?thesis
    using a ok guards_ok_add [OF ok(3)] db_ok_add [OF ok(4)] by auto
next
  case (New_Order_Insert k v)
  then show ?thesis using ok by (simp add: guards_ok_def db_ok_def db_simps)
next
  case (New_Order_Remove k)
  then show ?thesis using ok by (simp add: guards_ok_def db_ok_def db_simps)
qed (use a ok guards_ok_grant [OF ok(3)] guards_ok_return [OF ok(3)] in \<open>auto split: option.splits\<close>)

lemma answers_mono: "answers weak g u c a \<Longrightarrow> (weak \<Longrightarrow> weak') \<Longrightarrow> answers weak' g u c a"
  by (cases c) (auto simp: read_refused_def write_refused_def split: option.splits)

text \<open>A call within its guards that fits the database is one that tables allow.\<close>

lemma readers_left:
  assumes "db_ok u" "row (with_guards g u) t r = Some (v, Readers n)" "size g < 32"
  shows "n < 127"
proof -
  obtain l where l: "row u t r = Some (v, l)" "lock_with g t r l = Readers n"
    using assms(2) by (auto simp: db_simps)
  then obtain m where "l = Readers m" "n = m + count g (RG t r)"
    by (auto simp: lock_with_def split: if_splits)
  moreover have "m \<le> 95"
    using assms(1) l(1) \<open>l = Readers m\<close> by (auto simp: db_ok_def)
  ultimately show ?thesis
    using count_le_size [of g "RG t r"] assms(3) by linarith
qed

lemma held_rows:
  assumes "guards_ok g u"
  shows "WG t r \<in># g \<Longrightarrow> \<exists>v. row (with_guards g u) t r = Some (v, Writer)"
    "RG t r \<in># g \<Longrightarrow> \<exists>v n. row (with_guards g u) t r = Some (v, Readers (Suc n))"
proof -
  note g = assms [unfolded guards_ok_def, rule_format, of t r]
  show "\<exists>v. row (with_guards g u) t r = Some (v, Writer)" if "WG t r \<in># g"
    using g that by (auto simp: db_simps lock_with_def)
  show "\<exists>v n. row (with_guards g u) t r = Some (v, Readers (Suc n))" if r: "RG t r \<in># g"
  proof -
    have "WG t r \<notin># g" "0 < count g (RG t r)"
      using g r by auto
    then show ?thesis
      using g r by (auto simp: db_simps lock_with_def gr0_conv_Suc)
  qed
qed

lemma call_allowed:
  assumes ok: "db_ok u" "guards_ok g u" "may g c" "fits_db u c" and cmd: "cmd_of (i, spur, weak) c = Some (t, cmd)"
  shows "tcmd_ok (tuple_size t) (proper_field t) (tab (with_guards g u) t) cmd"
proof (cases c)
  case (Read_Oid t' k)
  then show ?thesis
    using cmd ok(3) readers_left [OF ok(1), of g t _ _ 127] by (auto simp: tab_pair)
next
  case (Lock_Rid_R t' r)
  then obtain v l where "row (with_guards g u) t r = Some (v, l)"
    using cmd ok(4) by (auto simp: db_simps)
  then show ?thesis
    using cmd ok(3) Lock_Rid_R readers_left [OF ok(1), of g t r v 127] by (auto simp: tab_pair is_insert_def)
next
  case (Get_Value t' r query f)
  then show ?thesis
    using cmd ok(3,4) held_rows [OF ok(2), of t r] by (auto simp: tab_pair is_insert_def)
qed (use cmd ok(3,4) held_rows [OF ok(2)] in \<open>auto simp: tab_pair is_insert_def db_simps\<close>)

section \<open>The engine implements the specification\<close>

definition engine_abs :: "'i congee \<Rightarrow> (tpcc_table \<Rightarrow> Rid set) \<Rightarrow> ('l, 'm, 'i) engine \<Rightarrow> db" where
  "engine_abs G R E =
     \<lparr> tab = \<lambda>t. abs_table (Art G) (etab E t) (R t), no_ix = hm_get (art_map G) (e_no E), last_ix = ix_get (Art G) (e_last E) \<rparr>"

definition engine_ready ::
  "(tpcc_table \<Rightarrow> ('l, 'm) world) \<Rightarrow> 'i congee \<Rightarrow> (tpcc_table \<Rightarrow> nat) \<Rightarrow> ('l, 'm, 'i) engine \<Rightarrow> (tpcc_table \<Rightarrow> Rid set) \<Rightarrow> bool" where
  "engine_ready W G csz E R \<longleftrightarrow>
     (\<forall>t. tready (W t) (Art G) (tuple_size t) (csz t) (etab E t) (R t)
        \<and> schema_laws (schema (cache (etab E t))) (tuple_size t) (csz t) (proper_field t)
        \<and> key (schema (cache (etab E t))) = key_of t)"

text \<open>No object id is left for a row of the table.\<close>

definition out_of_oids :: "tpcc_table \<Rightarrow> ('l, 'm, 'i) engine \<Rightarrow> bool" where
  "out_of_oids t E \<longleftrightarrow> list_node (heap (oheap (oid_array (cache (etab E t))))) = 0"

text \<open>
  A run ends in a result and a database with \<open>Q\<close>, with engine and database in order again. It stops before only where a table has no
  object id left for a new row, and panics only if \<open>cr\<close> allows it.
\<close>

definition runs_to ::
  "bool \<Rightarrow> (tpcc_table \<Rightarrow> ('l, 'm) world) \<Rightarrow> 'i congee \<Rightarrow> (tpcc_table \<Rightarrow> nat) \<Rightarrow> ('a \<Rightarrow> db \<Rightarrow> bool)
    \<Rightarrow> ('a, ('l, 'm, 'i) engine) ended \<Rightarrow> bool" where
  "runs_to cr W G csz Q res \<longleftrightarrow>
     (case res of
        Finished x E \<Rightarrow> \<exists>R. engine_ready W G csz E R \<and> db_ok (engine_abs G R E) \<and> Q x (engine_abs G R E)
      | Stopped c E \<Rightarrow> \<exists>t v. c = Insert_Row t v \<and> out_of_oids t E
      | Panicked \<Rightarrow> cr)"

lemma engine_abs_update:
  "engine_abs G (R(t := R1)) (E\<lparr> etab := (etab E)(t := T) \<rparr>)
     = (engine_abs G R E)\<lparr> tab := (tab (engine_abs G R E))(t := abs_table (Art G) T R1) \<rparr>"
  by (auto simp: engine_abs_def fun_eq_iff)

lemma engine_abs_tab: "tab (engine_abs G R E) t = abs_table (Art G) (etab E t) (R t)"
  by (simp add: engine_abs_def)

lemma e_no_update:
  "row (engine_abs G R (E\<lparr> e_no := m \<rparr>)) t r = row (engine_abs G R E) t r" "ix (engine_abs G R (E\<lparr> e_no := m \<rparr>)) t k = ix (engine_abs G R E) t k"
  "last_ix (engine_abs G R (E\<lparr> e_no := m \<rparr>)) = last_ix (engine_abs G R E)" "no_ix (engine_abs G R (E\<lparr> e_no := m \<rparr>)) = hm_get (art_map G) m"
  by (simp_all add: engine_abs_def row_def ix_def)

text \<open>What transactions rely on of the crates below the engine: the \<^verbatim>\<open>congee\<close> trees and the maps of each table.\<close>

locale crates = congee_laws G for G :: "'i congee" +
  fixes W :: "tpcc_table \<Rightarrow> ('l, 'm) world"
  assumes tls_map: "hash_map_laws (w_tls (W t))" and ops_map: "hash_map_laws (w_ops (W t))"
begin

lemma row_call_simulated:
  assumes ready: "engine_ready W G csz E R" and abs: "engine_abs G R E = with_guards g u"
    and ok: "db_ok u" "guards_ok g u" "may g c" "fits_db u c" and cmd: "cmd_of (i, spur, weak) c = Some (t, cmd)"
  shows "(\<exists>a E1 R1. engine_call W G (i, spur, weak) c E = Some (Done (a, E1)) \<and> answers weak g u c a
      \<and> engine_ready W G csz E1 R1 \<and> engine_abs G R1 E1 = with_guards (guards_after c a g) (db_after c a u))
    \<or> engine_call W G (i, spur, weak) c E = Some Panic \<and> (\<exists>t v. c = Insert_Row t v \<and> out_of_oids t E)"
proof -
  have rt: "tready (W t) (Art G) (tuple_size t) (csz t) (etab E t) (R t)"
      "schema_laws (schema (cache (etab E t))) (tuple_size t) (csz t) (proper_field t)"
      "key (schema (cache (etab E t))) = key_of t"
    using ready by (simp_all add: engine_ready_def)
  have tab: "abs_table (Art G) (etab E t) (R t) = tab (with_guards g u) t"
    using engine_abs_tab [of G R E t] abs by simp
  have allowed: "tcmd_ok (tuple_size t) (proper_field t) (abs_table (Art G) (etab E t) (R t)) cmd"
    using call_allowed [OF ok cmd] tab by simp
  from texec_simulated [OF art.db_index_axioms tls_map ops_map rt(2,1) allowed]
  show ?thesis
  proof
    assume "tsimulates (W t) (Art G) (tuple_size t) (csz t) cmd (etab E t) (R t)"
    then obtain reply T1 where s: "texec (W t) (Art G) cmd (etab E t) = Some (Done (reply, T1))"
      "tready (W t) (Art G) (tuple_size t) (csz t) T1 (trows_after cmd reply (R t))" "schema (cache T1) = schema (cache (etab E t))"
      "tspec_step (key_of t) (tab (with_guards g u) t) cmd reply (abs_table (Art G) T1 (trows_after cmd reply (R t)))"
      unfolding tsimulates_def rt(3) tab by blast
    let ?E = "E\<lparr> etab := (etab E)(t := T1) \<rparr>" and ?R = "R(t := trows_after cmd reply (R t))"
    have "engine_call W G (i, spur, weak) c E = Some (Done (Got reply, ?E))"
      using cmd s(1) by (simp add: engine_call_def)
    moreover have "engine_ready W G csz ?E ?R"
      using ready s(2,3) by (simp add: engine_ready_def)
    moreover have "answers weak g u c (Got reply)"
      "engine_abs G ?R ?E = with_guards (guards_after c (Got reply) g) (db_after c (Got reply) u)"
      using row_call_agrees [OF ok(1-3) cmd s(4)] by (simp_all add: call_agrees_def engine_abs_update abs)
    ultimately show ?thesis by blast
  next
    assume p: "(\<exists>t spur v. cmd = Add t spur v) \<and> texec (W t) (Art G) cmd (etab E t) = Some Panic
      \<and> list_node (heap (oheap (oid_array (cache (etab E t))))) = 0"
    then have "\<exists>v. c = Insert_Row t v"
      using cmd by (cases c) auto
    then show ?thesis
      using p cmd by (auto simp: out_of_oids_def engine_call_def)
  qed
qed

lemma range_rids:
  "\<exists>rs. index_call G (Table_Range t low high n) E = Some (Done (Rids rs, E)) \<and> length rs \<le> n
     \<and> set rs \<subseteq> ran (ix_get (Art G) (index (etab E t)))"
proof -
  from range_stored [OF congee_laws_axioms, of low high "replicate n (from_u32 0)" "etab E t"]
  obtain m buf where b: "table_range G low high (replicate n (from_u32 0)) (etab E t) = Done (Some m, buf)" "m \<le> n" "length buf = n"
    "\<forall>i<m. \<exists>k. ix_get (Art G) (index (etab E t)) k = Some (buf ! i)"
    by auto
  then have "r \<in> ran (ix_get (Art G) (index (etab E t)))" if "r \<in> set (take m buf)" for r
    using that by (auto simp: in_set_conv_nth ran_def)
  then show ?thesis
    using b by (intro exI [of _ "take m buf"]) auto
qed

lemma scan_entries:
  assumes "(cnt, buf) = art_range G m low high (replicate n (0, 0))"
  shows "length (take cnt buf) \<le> n" "\<forall>(k, v)\<in>set (take cnt buf). hm_get (art_map G) m k = Some v"
proof -
  have c: "cnt = length (art_scan G m low high n)" "take cnt buf = art_scan G m low high n"
    using assms by (auto simp: art_range_def Let_def)
  then show "length (take cnt buf) \<le> n" "\<forall>(k, v)\<in>set (take cnt buf). hm_get (art_map G) m k = Some v"
    using scan_short [of m low high n] scan_stored [of _ _ m low high n] by auto
qed

lemma index_call_simulated:
  assumes ready: "engine_ready W G csz E R" and abs: "engine_abs G R E = with_guards g u" and cmd: "cmd_of (i, spur, weak) c = None"
  shows "\<exists>a E1. engine_call W G (i, spur, weak) c E = Some (Done (a, E1)) \<and> answers weak g u c a
      \<and> engine_ready W G csz E1 R \<and> engine_abs G R E1 = with_guards (guards_after c a g) (db_after c a u)"
proof -
  have ixs: "ix_get (Art G) (index (etab E t)) = ix u t" "hm_get (art_map G) (e_no E) = no_ix u" "ix_get (Art G) (e_last E) = last_ix u" for t
  proof -
    have "ix (engine_abs G R E) t = ix u t" "no_ix (engine_abs G R E) = no_ix u" "last_ix (engine_abs G R E) = last_ix u"
      by (simp_all add: abs db_simps)
    then show "ix_get (Art G) (index (etab E t)) = ix u t" "hm_get (art_map G) (e_no E) = no_ix u" "ix_get (Art G) (e_last E) = last_ix u"
      by (simp_all add: engine_abs_def ix_def abs_table_def fun_eq_iff)
  qed
  have no: "engine_abs G R (E\<lparr> e_no := m \<rparr>) = with_guards g (u\<lparr> no_ix := hm_get (art_map G) m \<rparr>)" for m
    by (rule db_eqI) (simp_all add: e_no_update abs db_simps)
  have ready_no: "engine_ready W G csz (E\<lparr> e_no := m \<rparr>) R" for m
    using ready by (simp add: engine_ready_def)
  have call: "engine_call W G (i, spur, weak) c E = index_call G c E"
    using cmd by (simp add: engine_call_def)
  note laws = art_map_laws
  show ?thesis
  proof (cases c)
    case (Table_Range t low high n)
    then show ?thesis
      using range_rids [of t low high n E] ready abs call unfolding ixs by auto
  next
    case (Last_Range low high n)
    obtain cnt buf where r: "(cnt, buf) = art_range G (e_last E) low high (replicate n (0, 0))"
      by (metis surj_pair)
    then have run: "engine_call W G (i, spur, weak) c E = Some (Done (Entries (take cnt buf), E))"
      unfolding call unfolding Last_Range by (simp flip: r)
    have "answers weak g u c (Entries (take cnt buf))"
      using scan_entries [OF r] unfolding Last_Range by (fastforce simp: ixs(3) [symmetric] Art_def art_get_def)
    then show ?thesis
      using run ready abs Last_Range by simp
  next
    case (New_Order_Range low high n)
    obtain cnt buf where r: "(cnt, buf) = art_range G (e_no E) low high (replicate n (0, 0))"
      by (metis surj_pair)
    then have run: "engine_call W G (i, spur, weak) c E = Some (Done (Entries (take cnt buf), E))"
      unfolding call unfolding New_Order_Range by (simp flip: r)
    have "answers weak g u c (Entries (take cnt buf))"
      using scan_entries [OF r] unfolding New_Order_Range by (fastforce simp: ixs(2))
    then show ?thesis
      using run ready abs New_Order_Range by simp
  next
    case (New_Order_Insert k v)
    have "hm_get (art_map G) (hm_insert (art_map G) (e_no E) k v) = (no_ix u)(k \<mapsto> v)"
      by (auto simp: fun_eq_iff hash_map_laws.get_insert [OF laws] ixs(2))
    then show ?thesis
      unfolding call unfolding New_Order_Insert by (simp add: no ready_no)
  next
    case (New_Order_Remove k)
    have "hm_get (art_map G) (hm_remove (art_map G) (e_no E) k) = (no_ix u)(k := None)"
      by (auto simp: fun_eq_iff hash_map_laws.get_remove [OF laws] ixs(2))
    then show ?thesis
      unfolding call unfolding New_Order_Remove by (simp add: no ready_no)
  qed (use cmd in auto)
qed

lemma engine_runs:
  assumes "correct cr weak Q p g u" "engine_ready W G csz E R" "engine_abs G R E = with_guards g u" "db_ok u" "guards_ok g u"
    and "\<And>n. snd (snd (ch n)) \<Longrightarrow> weak"
  shows "runs_to cr W G csz Q (run_txn W G p ch n E)"
  using assms(1-5)
proof (induction p arbitrary: g u n E R)
  case (Return x)
  then show ?case by (auto simp: runs_to_def)
next
  case Crash
  then show ?case by (simp add: runs_to_def)
next
  case (Call c k)
  obtain i spur w where ch: "ch n = (i, spur, w)" by (metis prod_cases3)
  have ok: "may g c" "fits_db u c"
    using Call.prems(1) by simp_all
  have "(\<exists>a E1 R1. engine_call W G (ch n) c E = Some (Done (a, E1)) \<and> answers w g u c a
      \<and> engine_ready W G csz E1 R1 \<and> engine_abs G R1 E1 = with_guards (guards_after c a g) (db_after c a u))
    \<or> engine_call W G (ch n) c E = Some Panic \<and> (\<exists>t v. c = Insert_Row t v \<and> out_of_oids t E)"
    using row_call_simulated [OF Call.prems(2-5) ok] index_call_simulated [OF Call.prems(2,3)] unfolding ch
    by (metis option.exhaust surj_pair)
  then show ?case
  proof
    assume "engine_call W G (ch n) c E = Some Panic \<and> (\<exists>t v. c = Insert_Row t v \<and> out_of_oids t E)"
    then show ?case by (simp add: runs_to_def)
  next
    assume "\<exists>a E1 R1. engine_call W G (ch n) c E = Some (Done (a, E1)) \<and> answers w g u c a
      \<and> engine_ready W G csz E1 R1 \<and> engine_abs G R1 E1 = with_guards (guards_after c a g) (db_after c a u)"
    then obtain a E1 R1 where s: "engine_call W G (ch n) c E = Some (Done (a, E1))" "answers w g u c a"
      "engine_ready W G csz E1 R1" "engine_abs G R1 E1 = with_guards (guards_after c a g) (db_after c a u)"
      by blast
    have a: "answers weak g u c a"
      using answers_mono [OF s(2)] assms(6) [of n] ch by simp
    then have "correct cr weak Q (k a) (guards_after c a g) (db_after c a u)"
      using Call.prems(1) by simp
    from Call.IH [OF _ this s(3,4)] call_keeps [OF a ok Call.prems(5,4)] show ?case
      using s(1) by simp
  qed
qed

end

end
