(* ===== verification/Tpcc_Rules.thy ===== *)
theory Tpcc_Rules
  imports Tpcc_Run
begin

text \<open>
  The calculus for transactions: one rule per operation of a program, in terms of the database without the guards of
  the transaction, whose rows a guard protects.
\<close>

section \<open>Fields\<close>

definition get_attr :: "tpcc_table \<Rightarrow> string \<Rightarrow> bytes \<Rightarrow> bytes" where
  "get_attr t f v = get_member (struct_of t) f v"

definition put_attr :: "tpcc_table \<Rightarrow> string \<Rightarrow> bytes \<Rightarrow> bytes \<Rightarrow> bytes" where
  "put_attr t f x v = overwrite (offset_of (struct_of t) f) x v"

definition change :: "tpcc_table \<Rightarrow> string \<Rightarrow> (bytes \<Rightarrow> bytes) \<Rightarrow> bytes \<Rightarrow> bytes" where
  "change t f h v = put_attr t f (h (get_attr t f v)) v"

definition in_tuple :: "tpcc_table \<Rightarrow> string \<Rightarrow> bool" where
  "in_tuple t f \<longleftrightarrow> f \<in> fst ` set (members (struct_of t))"

definition width :: "tpcc_table \<Rightarrow> string \<Rightarrow> nat" where
  "width t f = snd (span_of (struct_of t) f)"

lemma span_small: "fst (span_of (struct_of t) f) < 1000" "snd (span_of (struct_of t) f) < 1000"
  by (cases t; auto simp: span_of_def layouts split: option.splits dest!: map_of_SomeD)+

lemma field_of_parts: "field_off (field_of t f) = offset_of (struct_of t) f" "field_size (field_of t f) = width t f"
  by (simp_all add: field_of_def mk_field_def offset_of_def width_def from_span_def field_off_def field_size_def Let_def split_def
      unat_of_nat less_trans [OF span_small(1)] less_trans [OF span_small(2)])

lemma in_tuple_proper: "in_tuple t f \<Longrightarrow> proper_field t (field_of t f)"
  by (auto simp: in_tuple_def proper_field_def all_fields_def field_of_def image_comp)

lemma field_in_query: "f \<in> set fs \<Longrightarrow> field_of t f \<in> set (query_of t fs)"
  by (simp add: field_of_def query_of_def mk_query_def)

lemma query_proper: "\<forall>f\<in>set fs. in_tuple t f \<Longrightarrow> \<forall>f\<in>set (query_of t fs). proper_field t f"
  using in_tuple_proper [of t] by (auto simp: query_of_def mk_query_def field_of_def)

lemma load_field:
  assumes "db_ok u" "row u t r = Some (v, l)" "in_tuple t f"
  shows "load_bytes (field_off (field_of t f)) (field_size (field_of t f)) v = Some (get_attr t f v)"
  using proper_field_load(2) [OF assms(1,2) in_tuple_proper [OF assms(3)]]
  by (simp add: load_bytes_def get_attr_def get_member_def field_of_parts offset_of_def width_def Let_def split_def)

text \<open>The fields of the tuples do not overlap, so that each is read and written on its own.\<close>

definition members_ok :: "struct \<Rightarrow> bool" where
  "members_ok T \<longleftrightarrow> distinct (map fst (members T))
     \<and> list_all (\<lambda>(f, i, n). i + n \<le> bytes_of T \<and> list_all (\<lambda>(g, j, m). g = f \<or> apart_spans i n j m) (members T)) (members T)"

lemma struct_members_ok: "members_ok (struct_of t)"
  by (cases t) (simp_all add: members_ok_def layouts apart_spans_def)

lemma member_overwrite:
  assumes T: "members_ok T" and f: "(f, i, n) \<in> set (members T)" and g: "(g, j, m) \<in> set (members T)"
    and b: "length b = bytes_of T" and x: "length x = n"
  shows "get_member T g (overwrite i x b) = (if g = f then x else get_member T g b)"
proof -
  have span: "span_of T g = (j, m)"
    using T g by (simp add: members_ok_def span_of_def)
  have i: "i + n \<le> bytes_of T" and apart: "g \<noteq> f \<Longrightarrow> apart_spans i n j m" and j: "j + m \<le> bytes_of T"
    using T f g by (auto simp: members_ok_def list_all_iff)
  show ?thesis
  proof (cases "g = f")
    case True
    then have "j = i" "m = n"
      using T f g by (auto simp: members_ok_def dest: eq_key_imp_eq_value)
    then show ?thesis
      using True span x i b by (simp add: get_member_def overwrite_def)
  next
    case False
    then have "apart_spans j m i (length x)"
      using apart x by (auto simp: apart_spans_def)
    then show ?thesis
      using False span take_drop_overwrite [of j m i x b] i j b x by (simp add: get_member_def)
  qed
qed

lemma in_tuple_member: "in_tuple t f \<Longrightarrow> (f, offset_of (struct_of t) f, width t f) \<in> set (members (struct_of t))"
  using struct_members_ok [of t] by (force simp: in_tuple_def members_ok_def offset_of_def width_def span_of_def)

lemma get_put_attr:
  assumes "in_tuple t f" "in_tuple t g" "length v = tuple_size t" "length x = width t f"
  shows "get_attr t g (put_attr t f x v) = (if g = f then x else get_attr t g v)"
  unfolding get_attr_def put_attr_def
  using member_overwrite [OF struct_members_ok in_tuple_member in_tuple_member] assms by (simp add: tuple_size_def)

lemma put_attr_length: "in_tuple t f \<Longrightarrow> length v = tuple_size t \<Longrightarrow> length x = width t f \<Longrightarrow> length (put_attr t f x v) = tuple_size t"
  unfolding put_attr_def tuple_size_def
  using in_tuple_member [of t f] struct_members_ok [of t] by (auto simp: members_ok_def list_all_iff overwrite_length)

lemma to_u64_word [simp]: "to_u64 (word_bytes w) = w"
  by (simp add: to_u64_def bytes_value_def word_bytes_value)

text \<open>A struct literal has the values it lists.\<close>

lemma struct_literal_fold:
  assumes T: "members_ok T" and fs: "\<forall>(f, v)\<in>set fs. (f, offset_of T f, length v) \<in> set (members T)" "distinct (map fst fs)"
    and g: "g \<in> fst ` set (members T)" and b: "length b = bytes_of T"
  shows "get_member T g (fold (\<lambda>(f, v) b. overwrite (offset_of T f) v b) fs b)
      = (case map_of fs g of Some v \<Rightarrow> v | None \<Rightarrow> get_member T g b)"
  using fs b
proof (induction fs arbitrary: b)
  case (Cons p fs)
  obtain f v where p: "p = (f, v)" by fastforce
  obtain j m where gm: "(g, j, m) \<in> set (members T)"
    using g by force
  let ?b = "overwrite (offset_of T f) v b"
  have fm: "(f, offset_of T f, length v) \<in> set (members T)"
    using Cons.prems(1) p by auto
  then have len: "length ?b = bytes_of T"
    using T Cons.prems(3) by (auto simp: members_ok_def list_all_iff overwrite_length)
  have "get_member T g ?b = (if g = f then v else get_member T g b)"
    by (rule member_overwrite [OF T fm gm Cons.prems(3) refl])
  moreover have "map_of fs f = None"
    using Cons.prems(2) p by (auto simp: map_of_eq_None_iff)
  ultimately show ?case
    using Cons.IH [OF _ _ len] Cons.prems(1,2) p by (auto split: option.splits)
qed simp

lemma struct_literal_member:
  assumes "\<forall>(f, v)\<in>set fs. (f, offset_of (struct_of t) f, length v) \<in> set (members (struct_of t))" "distinct (map fst fs)" "(f, v) \<in> set fs"
  shows "get_attr t f (struct_literal (struct_of t) fs) = v"
proof -
  have "f \<in> fst ` set (members (struct_of t))"
    using assms(1,3) by force
  then show ?thesis
    using struct_literal_fold [OF struct_members_ok assms(1,2), of f "replicate (bytes_of (struct_of t)) 0"] assms(2,3)
    by (simp add: get_attr_def struct_literal_def)
qed

section \<open>Rules\<close>

definition valid :: "bool \<Rightarrow> bool \<Rightarrow> ('a \<Rightarrow> db \<Rightarrow> bool) \<Rightarrow> 'a txn \<Rightarrow> txn_guard multiset \<Rightarrow> db \<Rightarrow> bool" where
  "valid cr weak Q p g u \<longleftrightarrow> (db_ok u \<longrightarrow> guards_ok g u \<longrightarrow> correct cr weak Q p g u)"

lemma valid_Return: "Q x u \<Longrightarrow> valid cr weak Q (Return x) {#} u"
  by (simp add: valid_def)

lemma valid_Crash: "valid True weak Q Crash g u"
  by (simp add: valid_def)

lemma valid_Call:
  assumes "may g c" "db_ok u \<Longrightarrow> guards_ok g u \<Longrightarrow> fits_db u c"
    and "\<And>a. db_ok u \<Longrightarrow> guards_ok g u \<Longrightarrow> answers weak g u c a \<Longrightarrow> valid cr weak Q (k a) (guards_after c a g) (db_after c a u)"
  shows "valid cr weak Q (Call c k) g u"
  using assms call_keeps [of weak g u c] by (auto simp: valid_def)

lemma held_row:
  assumes "guards_ok g u"
  shows "WG t r \<in># g \<Longrightarrow> \<exists>v. row u t r = Some (v, Readers 0)" "RG t r \<in># g \<Longrightarrow> \<exists>v l. row u t r = Some (v, l)"
  using assms [unfolded guards_ok_def, rule_format, of t r] by auto

lemma valid_value:
  assumes "RG t r \<in># g \<or> WG t r \<in># g" "field_of t f \<in> set query" "in_tuple t f"
    and "\<And>v l. row u t r = Some (v, l) \<Longrightarrow> valid cr weak Q (K (get_attr t f v)) g u"
  shows "valid cr weak Q (value_of t r query (field_of t f) K) g u"
  unfolding value_of_def using assms in_tuple_proper load_field by (intro valid_Call) auto

lemma valid_set:
  assumes "WG t r \<in># g" "field_of t f \<in> set query" "in_tuple t f" "length x = width t f"
    and "\<And>v. row u t r = Some (v, Readers 0) \<Longrightarrow> valid cr weak Q p g (set_row_value t r (put_attr t f x v) u)"
  shows "valid cr weak Q (set_value t r query (field_of t f) x p) g u"
  unfolding set_value_def
proof (rule valid_Call)
  fix a assume "guards_ok g u"
  then obtain v where "row u t r = Some (v, Readers 0)"
    using held_row(1) assms(1) by blast
  then show "valid cr weak Q p (guards_after (Set_Value t r query (field_of t f) x) a g) (db_after (Set_Value t r query (field_of t f) x) a u)"
    using assms(5) by (simp add: put_attr_def field_of_parts)
qed (use assms in_tuple_proper in \<open>auto simp: field_of_parts\<close>)

lemma valid_modify:
  assumes "WG t r \<in># g" "field_of t f \<in> set query" "in_tuple t f" "\<And>b. length (h b) = width t f"
    and "\<And>v. row u t r = Some (v, Readers 0) \<Longrightarrow> valid cr weak Q p g (set_row_value t r (change t f h v) u)"
  shows "valid cr weak Q (modify t r query (field_of t f) h p) g u"
  unfolding modify_def using assms by (intro valid_value valid_set) (auto simp: change_def)

text \<open>The same for a row whose tuple is known; changes of one row add up.\<close>

lemma valid_modify_at:
  assumes "row u t r = Some (v, l)" "WG t r \<in># g" "field_of t f \<in> set query" "in_tuple t f" "\<And>b. length (h b) = width t f"
    and "valid cr weak Q p g (set_row_value t r (change t f h v) u)"
  shows "valid cr weak Q (modify t r query (field_of t f) h p) g u"
  using assms by (intro valid_modify) auto

lemma set_row_twice [simp]: "set_row_value t r w (set_row_value t r v u) = set_row_value t r w u"
  by (rule db_eqI) (auto simp: db_simps option.map_comp o_def split_def)

lemma valid_db_ok: "(db_ok u \<Longrightarrow> guards_ok g u \<Longrightarrow> valid cr weak Q p g u) \<Longrightarrow> valid cr weak Q p g u"
  by (simp add: valid_def)

lemma valid_promote:
  assumes "WG t r \<in># g" "query = query_of t fs" "fs \<noteq> []" "\<forall>f\<in>set fs. in_tuple t f" "valid cr weak Q p g u"
  shows "valid cr weak Q (read_and_promote_row t r query p) g u"
  unfolding read_and_promote_row_def
  using assms query_proper [OF assms(4)] by (intro valid_Call) (auto simp: query_of_def mk_query_def)

lemma valid_touch:
  assumes "RG t r \<in># g \<or> WG t r \<in># g" "set fs \<subseteq> set fs'" "\<forall>f\<in>set fs. in_tuple t f" "valid cr weak Q p g u"
  shows "valid cr weak Q (touch_fields t r (query_of t fs') (query_of t fs) p) g u"
  using assms(2,3)
proof (induction fs)
  case Nil
  then show ?case using assms(4) by (simp add: query_of_def mk_query_def)
next
  case (Cons f fs)
  then show ?case
    using valid_value [OF assms(1) field_in_query, of f fs' u cr weak Q "\<lambda>_. touch_fields t r (query_of t fs') (query_of t fs) p"]
    by (auto simp: query_of_def mk_query_def field_of_def)
qed

lemma valid_drop_all:
  assumes "mset gs \<subseteq># g" "valid cr weak Q p (g - mset gs) u"
  shows "valid cr weak Q (drop_all gs p) g u"
  using assms
proof (induction gs arbitrary: g)
  case (Cons h gs)
  have h: "h \<in># g" "mset gs \<subseteq># g - {#h#}" "valid cr weak Q p (g - {#h#} - mset gs) u"
    using Cons.prems by (auto simp: insert_subset_eq_iff)
  from Cons.IH [OF h(2,3)] h(1) show ?case
    by (cases h) (auto intro!: valid_Call)
qed simp

lemma valid_return:
  assumes "g = mset gs" "Q x u"
  shows "valid cr weak Q (drop_all gs (Return x)) g u"
  using assms by (intro valid_drop_all) (auto intro: valid_Return)

lemma valid_insert:
  assumes "length v = tuple_size t" "\<And>r. row u t r = None \<Longrightarrow> valid cr weak Q p g (add_row t r v u)"
  shows "valid cr weak Q (insert_row t v p) g u"
  unfolding insert_row_def
proof (rule valid_Call)
  fix a assume "answers weak g u (Insert_Row t v) a"
  then obtain r where r: "row u t r = None" "a = Got (Row_Id r)" by auto
  then show "valid cr weak Q (case a of Got (Row_Id r) \<Rightarrow> drop_all [WG t r] p | _ \<Rightarrow> Crash)
      (guards_after (Insert_Row t v) a g) (db_after (Insert_Row t v) a u)"
    using assms(2) [OF r(1)] valid_drop_all [of "[WG t r]" "add_mset (WG t r) g" cr weak Q p "add_row t r v u"] by simp
qed (use assms(1) in auto)

lemma valid_weaken:
  assumes "valid cr weak Q p g u" "\<And>x u'. Q x u' \<Longrightarrow> Q' x u'"
  shows "valid cr weak Q' p g u"
proof -
  have "correct cr weak Q p g u \<Longrightarrow> correct cr weak Q' p g u"
    using assms(2) by (induction p arbitrary: g u) auto
  then show ?thesis using assms(1) by (simp add: valid_def)
qed

text \<open>Why a lookup fails.\<close>

definition denied_read :: "bool \<Rightarrow> txn_guard multiset \<Rightarrow> db \<Rightarrow> tpcc_table \<Rightarrow> usize \<Rightarrow> TransactionError \<Rightarrow> bool" where
  "denied_read weak g u t k e \<longleftrightarrow>
     (case ix u t k of None \<Rightarrow> e = IndexNotFound | Some r \<Rightarrow> read_refused weak g u t r e)"

definition denied_write :: "bool \<Rightarrow> txn_guard multiset \<Rightarrow> db \<Rightarrow> tpcc_table \<Rightarrow> usize \<Rightarrow> TransactionError \<Rightarrow> bool" where
  "denied_write weak g u t k e \<longleftrightarrow>
     (case ix u t k of None \<Rightarrow> e = IndexNotFound | Some r \<Rightarrow> write_refused weak g u t r e)"

lemma valid_read_oid:
  assumes "g = mset gs" "length gs < 32" "\<And>e. denied_read weak g u t k e \<Longrightarrow> Q (Inl (err e)) u"
    and "\<And>r. ix u t k = Some r \<Longrightarrow> can_read g u t r \<Longrightarrow> valid cr weak Q (K r) (add_mset (RG t r) g) u"
  shows "valid cr weak Q (read_oid t k gs err K) g u"
  unfolding read_oid_def try_call_def
  using assms by (intro valid_Call) (auto simp: the_row_def denied_read_def intro!: valid_return split: option.splits)

lemma valid_write_oid:
  assumes "g = mset gs" "\<And>e. denied_write weak g u t k e \<Longrightarrow> Q (Inl e) u"
    and "\<And>r. ix u t k = Some r \<Longrightarrow> can_write g u t r \<Longrightarrow> valid cr weak Q (K r) (add_mset (WG t r) g) u"
  shows "valid cr weak Q (write_oid t k gs K) g u"
  unfolding write_oid_def try_call_def
  using assms by (intro valid_Call) (auto simp: the_row_def denied_write_def intro!: valid_return split: option.splits)

lemma valid_lock_rid_r:
  assumes "g = mset gs" "length gs < 32" "\<And>e. read_refused weak g u t r e \<Longrightarrow> Q (Inl e) u" "db_ok u \<Longrightarrow> row u t r \<noteq> None"
    and "can_read g u t r \<Longrightarrow> valid cr weak Q p (add_mset (RG t r) g) u"
  shows "valid cr weak Q (lock_rid_r t r gs p) g u"
  unfolding lock_rid_r_def try_call_def
  using assms by (intro valid_Call) (auto simp: once_locked_def intro!: valid_return)

lemma valid_lock_rid_w:
  assumes "g = mset gs" "\<And>e. write_refused weak g u t r e \<Longrightarrow> Q (Inl (err e)) u" "db_ok u \<Longrightarrow> row u t r \<noteq> None"
    and "can_write g u t r \<Longrightarrow> valid cr weak Q p (add_mset (WG t r) g) u"
  shows "valid cr weak Q (lock_rid_w t r gs err p) g u"
  unfolding lock_rid_w_def try_call_def
  using assms by (intro valid_Call) (auto simp: once_locked_def intro!: valid_return)

lemma valid_scan_table:
  assumes "\<And>rs. length rs \<le> n \<Longrightarrow> set rs \<subseteq> ran (ix u t) \<Longrightarrow> valid cr weak Q (K rs) g u"
  shows "valid cr weak Q (scan_table t low high n K) g u"
  unfolding scan_table_def using assms by (intro valid_Call) auto

lemma valid_scan_index:
  assumes "\<And>es. length es \<le> n \<Longrightarrow> (\<forall>(k, v)\<in>set es. last_ix u k = Some (rid_from_usize v)) \<Longrightarrow> valid cr weak Q (K es) g u"
  shows "valid cr weak Q (scan_index (Last_Range low high n) K) g u"
  unfolding scan_index_def using assms by (intro valid_Call) auto

lemma valid_scan_new_orders:
  assumes "\<And>es. length es \<le> n \<Longrightarrow> (\<forall>(k, v)\<in>set es. no_ix u k = Some v) \<Longrightarrow> valid cr weak Q (K es) g u"
  shows "valid cr weak Q (scan_index (New_Order_Range low high n) K) g u"
  unfolding scan_index_def using assms by (intro valid_Call) auto

lemma valid_new_order:
  "valid cr weak Q (K Unit) g (u\<lparr> no_ix := (no_ix u)(k \<mapsto> v) \<rparr>) \<Longrightarrow> valid cr weak Q (Call (New_Order_Insert k v) K) g u"
  "valid cr weak Q (K Unit) g (u\<lparr> no_ix := (no_ix u)(k := None) \<rparr>) \<Longrightarrow> valid cr weak Q (Call (New_Order_Remove k) K) g u"
  by (rule valid_Call; simp)+

section \<open>Runs on the engine\<close>

context crates
begin

lemma valid_runs:
  assumes "valid cr weak Q p {#} (engine_abs G R E)" "engine_ready W G csz E R" "db_ok (engine_abs G R E)"
    and "\<And>n. snd (snd (ch n)) \<Longrightarrow> weak"
  shows "runs_to cr W G csz Q (run_txn W G p ch n E)"
proof (rule engine_runs)
  show "guards_ok {#} (engine_abs G R E)"
    by (simp add: guards_ok_def)
  then show "correct cr weak Q p {#} (engine_abs G R E)"
    using assms(1,3) by (simp add: valid_def)
qed (use assms in auto)

text \<open>Inserting tuples into tables that still have object ids, one per table.\<close>

lemma insert_one:
  assumes "engine_ready W G csz E R" "db_ok (engine_abs G R E)" "length v = tuple_size t" "\<not> out_of_oids t E"
  obtains E1 R1 r where "engine_ready W G csz E1 R1" "row (engine_abs G R E) t r = None"
    "engine_abs G R1 E1 = add_row t r v (engine_abs G R E)" "\<And>t'. t' \<noteq> t \<Longrightarrow> etab E1 t' = etab E t'"
proof -
  let ?u = "engine_abs G R E" and ?i = "0 :: tid" and ?s = "\<lambda>_ :: nat. (False, False)"
  have g0: "guards_ok {#} ?u"
    by (simp add: guards_ok_def)
  have other: "etab E' t' = etab E t'" if "engine_call W G (?i, ?s, False) c E = Some (Done (a, E'))" "cmd_of (?i, ?s, False) c = Some (t, cmd)" "t' \<noteq> t"
    for c a E' cmd t' and E :: "('l, 'm, 'i) engine"
    using that by (auto simp: engine_call_def split: option.splits outcome.splits prod.splits)
  from row_call_simulated [OF assms(1) _ assms(2) g0, of "Insert_Row t v" ?i ?s False t] assms(3,4)
  obtain a E1 R1 where s1: "engine_call W G (?i, ?s, False) (Insert_Row t v) E = Some (Done (a, E1))"
    "answers False {#} ?u (Insert_Row t v) a" "engine_ready W G csz E1 R1"
    "engine_abs G R1 E1 = with_guards (guards_after (Insert_Row t v) a {#}) (db_after (Insert_Row t v) a ?u)"
    by auto
  then obtain r where r: "a = Got (Row_Id r)" "row ?u t r = None" by auto
  let ?u1 = "add_row t r v ?u"
  have ok1: "db_ok ?u1" "guards_ok {#WG t r#} ?u1"
    using call_keeps [OF s1(2) _ _ g0 assms(2)] assms(3) r by auto
  from row_call_simulated [OF s1(3) _ ok1, of "Drop_W t r" ?i ?s False t] s1(4) r(1)
  obtain a2 E2 R2 where s2: "engine_call W G (?i, ?s, False) (Drop_W t r) E1 = Some (Done (a2, E2))"
    "engine_ready W G csz E2 R2" "engine_abs G R2 E2 = ?u1"
    by auto
  show ?thesis
    using that [OF s2(2) r(2) s2(3)] other [OF s1(1)] other [OF s2(1)] by simp
qed

end

interpretation map_crates: crates map_congee "\<lambda>_. test_world"
  by (intro crates.intro crates_axioms.intro congee_maps.congee_laws_axioms test_laws)

end
