(* ===== verification/Tpcc_Workload.thy ===== *)
theory Tpcc_Workload
  imports Tpcc_Rules
begin

text \<open>
  \<^verbatim>\<open>TpccWorkload::new\<close> of \<^verbatim>\<open>benchmark/src/tpcc/workload.rs\<close>: the tables of the benchmark with their sizes. They start empty and ready, which is
  where runs of transactions begin. The estimate of the number of orders, made in floating point, is an argument.
\<close>

definition MB :: usize where "MB = 1024 * 1024"

definition size_align_up :: "usize \<Rightarrow> usize \<Rightarrow> usize" where
  "size_align_up sz a = (sz + a - 1) AND NOT (a - 1)"

definition row_count :: "usize \<Rightarrow> usize \<Rightarrow> tpcc_table \<Rightarrow> usize" where
  "row_count warehouse_cnt o_cnt t =
     (case t of
        Warehouse \<Rightarrow> warehouse_cnt
      | District \<Rightarrow> warehouse_cnt * of_nat DISTRICT_SCALE
      | Customer \<Rightarrow> warehouse_cnt * of_nat DISTRICT_SCALE * of_nat CUSTOMER_SCALE
      | Item \<Rightarrow> of_nat ITEM_SCALE
      | Stock \<Rightarrow> warehouse_cnt * of_nat ITEM_SCALE
      | Order \<Rightarrow> o_cnt
      | OrderLine \<Rightarrow> o_cnt * 12)"

definition storage_size_of :: "usize \<Rightarrow> usize \<Rightarrow> tpcc_table \<Rightarrow> usize" where
  "storage_size_of warehouse_cnt o_cnt t = size_align_up (row_count warehouse_cnt o_cnt t * of_nat (tuple_size t)) MB"

text \<open>The builder chain of a table: order and order-line tables are never probed, and order lines have a small cache.\<close>

definition table_builder ::
  "usize \<Rightarrow> usize \<Rightarrow> nat option \<Rightarrow> (tpcc_table \<Rightarrow> usize) \<Rightarrow> Schema \<Rightarrow> (tpcc_table \<Rightarrow> 'c) \<Rightarrow> tpcc_table \<Rightarrow> ('i, 'c) DbTableBuilder" where
  "table_builder warehouse_cnt o_cnt plen cache_size_mb S ctx t =
     (let bytes = (if t = OrderLine then 10 * MB else cache_size_mb t * MB);
          b = builder_schema S (builder_storage (unat (storage_size_of warehouse_cnt o_cnt t)) (builder_cache (unat bytes) builder_new));
          b = (if t \<in> {Customer, Stock, Order} then builder_metric_context (ctx t) b else b)
      in case t of
           Item \<Rightarrow> builder_probe_rng (9 / 10) (builder_probe_len plen b)
         | Order \<Rightarrow> builder_probe_rng 0 (builder_probe_len (Some 0) b)
         | OrderLine \<Rightarrow> builder_probe_rng 0 (builder_probe_len (Some 0) b)
         | _ \<Rightarrow> builder_probe_rng (1 / 2) (builder_probe_len plen b))"

text \<open>What the allocations of a table return: sizes of a cached item and a slot, an address, memory, and a frame.\<close>

record table_memory =
  item_bytes :: nat
  slot_bytes :: nat
  oids_at :: addr
  oids_memory :: memory
  frame_bytes :: "nat \<Rightarrow> bytes"

definition build_table ::
  "(tpcc_table \<Rightarrow> ('l, 'm) world) \<Rightarrow> 'i congee \<Rightarrow> table_memory \<Rightarrow> ('i, 'c) DbTableBuilder \<Rightarrow> tpcc_table \<Rightarrow> ('l, 'm, 'i) DbTable option" where
  "build_table W G M b t = build (W t) (Art G) (item_bytes M) (slot_bytes M) (tuple_size t) (oids_at M) (oids_memory M) (frame_bytes M) b"

definition workload_new ::
  "(tpcc_table \<Rightarrow> ('l, 'm) world) \<Rightarrow> 'i congee \<Rightarrow> (tpcc_table \<Rightarrow> table_memory) \<Rightarrow> usize \<Rightarrow> usize \<Rightarrow> nat option \<Rightarrow> (tpcc_table \<Rightarrow> usize)
    \<Rightarrow> (tpcc_table \<Rightarrow> Schema) \<Rightarrow> (tpcc_table \<Rightarrow> 'c) \<Rightarrow> ('l, 'm, 'i) engine option" where
  "workload_new W G M warehouse_cnt o_cnt plen cache_size_mb S ctx =
     (let built = (\<lambda>t. build_table W G (M t) (table_builder warehouse_cnt o_cnt plen cache_size_mb (S t) ctx t) t)
      in if list_all (\<lambda>t. built t \<noteq> None) [Warehouse, District, Customer, Item, Stock, Order, OrderLine]
         then Some \<lparr> etab = the \<circ> built, e_last = art_new G, e_no = hm_new (art_map G) \<rparr> else None)"

text \<open>Schemas that fit their tables, and sizes that fit the machine words of the engine.\<close>

definition schemas_fit :: "(tpcc_table \<Rightarrow> nat) \<Rightarrow> (tpcc_table \<Rightarrow> Schema) \<Rightarrow> bool" where
  "schemas_fit csz S \<longleftrightarrow> (\<forall>t. schema_laws (S t) (tuple_size t) (csz t) (proper_field t) \<and> key (S t) = key_of t)"

definition sizes_fit :: "(tpcc_table \<Rightarrow> table_memory) \<Rightarrow> usize \<Rightarrow> usize \<Rightarrow> (tpcc_table \<Rightarrow> usize) \<Rightarrow> bool" where
  "sizes_fit M warehouse_cnt o_cnt cache_size_mb \<longleftrightarrow>
     (\<forall>t. 0 < oids_at (M t) \<and> (\<forall>i. length (frame_bytes (M t) i) = tuple_size t)
        \<and> unat (cache_size_mb t * MB) div slot_bytes (M t) < 2 ^ 32 \<and> unat (10 * MB) div slot_bytes (M t) < 2 ^ 32
        \<and> unat (storage_size_of warehouse_cnt o_cnt t) div tuple_size t + 8256 < 2 ^ 32)"

definition empty_db :: db where
  "empty_db = \<lparr> tab = \<lambda>_. (Map.empty, Map.empty), no_ix = Map.empty, last_ix = Map.empty \<rparr>"

lemma empty_db_simps [simp]: "row empty_db t r = None" "ix empty_db t k = None" "db_ok empty_db"
  by (simp_all add: empty_db_def row_def ix_def db_ok_def)

lemma table_builder_simps:
  "b_schema (table_builder wc oc pl mb S ctx t) = Some S" "b_index (table_builder wc oc pl mb S ctx t) = None"
  "b_storage_size (table_builder wc oc pl mb S ctx t) = Some (unat (storage_size_of wc oc t))"
  "b_cache_size (table_builder wc oc pl mb S ctx t) = Some (unat (if t = OrderLine then 10 * MB else mb t * MB))"
  by (cases t; simp add: table_builder_def builder_schema_def builder_storage_def builder_cache_def builder_new_def
      builder_probe_rng_def builder_probe_len_def builder_metric_context_def Let_def)+

context crates
begin

lemma workload_ready:
  assumes new: "workload_new W G M wc oc pl mb S ctx = Some E" and S: "schemas_fit csz S" and sz: "sizes_fit M wc oc mb"
  shows "engine_ready W G csz E (\<lambda>_. {})" "engine_abs G (\<lambda>_. {}) E = empty_db" "\<not> out_of_oids t E"
proof -
  let ?b = "\<lambda>t. table_builder wc oc pl mb (S t) ctx t"
  have built: "build_table W G (M t) (?b t) t = Some (etab E t)" for t
    using new by (cases t) (auto simp: workload_new_def Let_def split: if_splits)
  have ixs: "e_last E = art_new G" "e_no E = hm_new (art_map G)"
    using new by (auto simp: workload_new_def Let_def split: if_splits)
  have ok: "build_ok (slot_bytes (M t)) (tuple_size t) (oids_at (M t)) (frame_bytes (M t)) (S t) (?b t)" for t
    using sz by (auto simp: build_ok_def table_builder_simps sizes_fit_def)
  note start = build_ready [OF art.db_index_axioms tls_map ops_map built [unfolded build_table_def] ok]
  show "engine_ready W G csz E (\<lambda>_. {})"
    using start(1,2) S by (simp add: engine_ready_def schemas_fit_def)
  show "\<not> out_of_oids t E"
    using start(4) by (simp add: out_of_oids_def)
  have "abs_table (Art G) (etab E t) {} = (Map.empty, Map.empty)" for t
    by (simp add: abs_table_def abs_cache_def fun_eq_iff start(3))
  then show "engine_abs G (\<lambda>_. {}) E = empty_db"
    using hash_map_laws.get_new [OF art_map_laws]
    by (auto simp: engine_abs_def empty_db_def ixs Art_def art_get_def art_new_def fun_eq_iff)
qed

end

text \<open>Whole tuples cached, in tables of the smallest benchmark.\<close>

definition whole_tuples :: "tpcc_table \<Rightarrow> Schema" where
  "whole_tuples t = tuple_schema (key_of t)"

definition sample_memory :: "tpcc_table \<Rightarrow> table_memory" where
  "sample_memory t = \<lparr> item_bytes = tuple_size t, slot_bytes = tuple_size t + 16, oids_at = 4096, oids_memory = (\<lambda>_. 0),
     frame_bytes = (\<lambda>_. replicate (tuple_size t) 0) \<rparr>"

abbreviation sample_workload :: "(tid \<rightharpoonup> u32, tid \<rightharpoonup> nat, usize \<Rightarrow> usize option) engine option" where
  "sample_workload \<equiv> workload_new (\<lambda>_. test_world) map_congee sample_memory 32 1000000 None (\<lambda>_. 10) whole_tuples (\<lambda>_. ())"

lemma whole_tuples_fit: "schemas_fit tuple_size whole_tuples"
proof -
  have "schema_laws (tuple_schema (key_of t)) (tuple_size t) (tuple_size t) (proper_field t)" for t
    by unfold_locales (auto simp: tuple_schema_def default_matches_iff option.map_ident proper_field_within)
  then show ?thesis
    by (simp add: schemas_fit_def whole_tuples_def tuple_schema_def)
qed

lemma sample_sizes_fit: "sizes_fit sample_memory 32 1000000 (\<lambda>_. 10)"
  unfolding sizes_fit_def
proof
  fix t show "0 < oids_at (sample_memory t) \<and> (\<forall>i. length (frame_bytes (sample_memory t) i) = tuple_size t)
      \<and> unat (10 * MB) div slot_bytes (sample_memory t) < 2 ^ 32 \<and> unat (10 * MB) div slot_bytes (sample_memory t) < 2 ^ 32
      \<and> unat (storage_size_of 32 1000000 t) div tuple_size t + 8256 < 2 ^ 32"
    by (cases t) (simp_all add: sample_memory_def MB_def storage_size_of_def size_align_up_def row_count_def tuple_size_def layouts
        DISTRICT_SCALE_def CUSTOMER_SCALE_def ITEM_SCALE_def)
qed

lemma sample_built: "\<exists>E. sample_workload = Some E"
proof -
  have "\<exists>T. build_table (\<lambda>_. test_world) map_congee (sample_memory t)
      (table_builder 32 1000000 None (\<lambda>_. 10) (whole_tuples t) (\<lambda>_. ()) t) t = Some T" for t
  proof -
    have sz: "tuple_size t \<noteq> 0" "tuple_size t + 16 \<le> unat (10 * MB)"
      by (cases t; simp add: tuple_size_def layouts MB_def)+
    then show ?thesis
      using cache_new_total [of "tuple_size t + 16" "unat (10 * MB)" "tuple_size t"]
      by (auto simp: build_table_def build_def table_builder_simps sample_memory_def Let_def)
  qed
  then show ?thesis
    by (simp add: workload_new_def Let_def)
qed

end
