(* ===== verification/Tpcc_New_Order.thy ===== *)
theory Tpcc_New_Order
  imports Tpcc_Workload Tpcc_Keys
begin

text \<open>
  The new-order transaction: on failure it leaves the database as it found it, on success it has the
  effect of one atomic step on keyed tables. Both hold for its runs on the tables of the engine.
\<close>

section \<open>The effect of a new order\<close>

definition placed :: "tpcc_table \<Rightarrow> bytes \<Rightarrow> db \<Rightarrow> db \<Rightarrow> bool" where
  "placed t v u u' \<longleftrightarrow> (\<exists>r. row u t r = None \<and> u' = add_row t r v u)"

definition stock_after :: "NewOrderInput \<Rightarrow> OrderItem \<Rightarrow> bytes \<Rightarrow> bytes" where
  "stock_after inp x v =
     (if (ucast (ol_supply_w_id x) :: u32) \<noteq> no_w_id inp then change Stock ''s_remote_cnt'' (on_u64 (\<lambda>s. s + 1)) else id)
       (change Stock ''s_order_cnt'' (on_u64 (\<lambda>s. s + 1))
         (change Stock ''s_ytd'' (on_u64 (\<lambda>s. s + ucast (ol_quantity x)))
           (change Stock ''s_quantity'' (on_u64 (\<lambda>s. new_quantity s (ucast (ol_quantity x)))) v)))"

definition item_row :: "db \<Rightarrow> OrderItem \<Rightarrow> Rid option" where
  "item_row u x = ix u Item (item_make_key (ucast (ol_i_id x)))"

definition stock_row :: "db \<Rightarrow> OrderItem \<Rightarrow> Rid option" where
  "stock_row u x = ix u Stock (stock_make_key (ucast (ol_supply_w_id x)) (ucast (ol_i_id x)))"

text \<open>An order line: the stock it is taken from changes, and a line with price and district information is inserted.\<close>

definition line_effect :: "f64_ops \<Rightarrow> NewOrderInput \<Rightarrow> u64 \<Rightarrow> nat \<Rightarrow> OrderItem \<Rightarrow> db \<Rightarrow> db \<Rightarrow> bool" where
  "line_effect F inp n i x u u' \<longleftrightarrow>
     (\<exists>ir sr iv il sv. item_row u x = Some ir \<and> row u Item ir = Some (iv, il)
        \<and> stock_row u x = Some sr \<and> row u Stock sr = Some (sv, Readers 0)
        \<and> placed OrderLine (order_line_tuple F inp n i x (get_attr Item ''i_price'' iv) (get_attr Stock ''s_dist10'' sv))
            (set_row_value Stock sr (stock_after inp x sv) u) u')"

fun lines_effect :: "f64_ops \<Rightarrow> NewOrderInput \<Rightarrow> u64 \<Rightarrow> nat \<Rightarrow> OrderItem list \<Rightarrow> db \<Rightarrow> db \<Rightarrow> bool" where
  "lines_effect F inp n i [] u u' \<longleftrightarrow> u' = u"
| "lines_effect F inp n i (x # xs) u u' \<longleftrightarrow> (\<exists>u1. line_effect F inp n i x u u1 \<and> lines_effect F inp n (i + 1) xs u1 u')"

text \<open>The order gets the next number of the district and is entered as a new order.\<close>

definition numbered :: "NewOrderInput \<Rightarrow> Rid \<Rightarrow> u64 \<Rightarrow> bytes \<Rightarrow> db \<Rightarrow> db" where
  "numbered inp d n v u =
     (let k = new_order_make_key (ucast (no_w_id inp)) (ucast (no_d_id inp)) n (ucast (no_c_id inp));
          u0 = set_row_value District d (put_attr District ''d_next_o_id'' (word_bytes (n + 1)) v) u
      in u0\<lparr> no_ix := (no_ix u0)(k \<mapsto> k) \<rparr>)"

definition new_order_effect :: "f64_ops \<Rightarrow> NewOrderInput \<Rightarrow> db \<Rightarrow> db \<Rightarrow> bool" where
  "new_order_effect F inp u u' \<longleftrightarrow>
     (\<exists>d v n u1. ix u District (district_make_key (ucast (no_w_id inp)) (ucast (no_d_id inp))) = Some d
        \<and> row u District d = Some (v, Readers 0) \<and> n = to_u64 (get_attr District ''d_next_o_id'' v)
        \<and> placed Order (order_tuple inp n) (numbered inp d n v u) u1 \<and> lines_effect F inp n 0 (no_lines inp) u1 u')"

section \<open>Correctness\<close>

lemmas attr_simps = in_tuple_def width_def span_of_def layouts

lemma struct_literal_length:
  assumes "\<forall>(f, v)\<in>set fs. offset_of T f + length v \<le> bytes_of T"
  shows "length (struct_literal T fs) = bytes_of T"
proof -
  have "length (fold (\<lambda>(f, v) b. overwrite (offset_of T f) v b) fs b) = bytes_of T" if "length b = bytes_of T" for b
    using assms that by (induction fs arbitrary: b) (auto simp: overwrite_length)
  then show ?thesis by (simp add: struct_literal_def)
qed

lemma order_tuple_length: "length (order_tuple inp n) = tuple_size Order"
  unfolding order_tuple_def tuple_size_def struct_of.simps
  by (rule struct_literal_length) (simp add: offset_of_def span_of_def layouts)

lemma order_line_tuple_length:
  "length s_dist = 24 \<Longrightarrow> length (order_line_tuple F inp n i x price s_dist) = tuple_size OrderLine"
  unfolding order_line_tuple_def tuple_size_def struct_of.simps
  by (rule struct_literal_length) (simp add: offset_of_def span_of_def layouts)

lemma on_u64_length [simp]: "length (on_u64 h b) = 8"
  by (simp add: on_u64_def)

lemma dist_length:
  assumes "db_ok u" "row u Stock r = Some (v, l)"
  shows "length (get_attr Stock ''s_dist10'' v) = 24"
proof -
  have "length v = 312"
    using assms by (auto simp: db_ok_def tuple_size_def layouts)
  then show ?thesis
    by (simp add: get_attr_def get_member_def span_of_def layouts)
qed

lemma valid_write_line:
  assumes g: "RG Item ir \<in># g" "WG Stock sr \<in># g" and rows: "item_row u x = Some ir" "stock_row u x = Some sr"
    and p: "\<And>u'. line_effect F inp n i x u u' \<Longrightarrow> valid cr weak Q p (g - {#WG Stock sr, RG Item ir#}) u'"
  shows "valid cr weak Q (write_line F inp n i x ir sr p) g u"
proof -
  have last: "valid cr weak Q (insert_row OrderLine (order_line_tuple F inp n i x (get_attr Item ''i_price'' iv) (get_attr Stock ''s_dist10'' sv))
       (drop_all [WG Stock sr, RG Item ir] p)) g (set_row_value Stock sr (stock_after inp x sv) u)"
    if "row u Item ir = Some (iv, il)" "row u Stock sr = Some (sv, Readers 0)" "db_ok u" for iv il sv
  proof (rule valid_insert)
    show "length (order_line_tuple F inp n i x (get_attr Item ''i_price'' iv) (get_attr Stock ''s_dist10'' sv)) = tuple_size OrderLine"
      using that by (intro order_line_tuple_length dist_length)
    fix r assume "row (set_row_value Stock sr (stock_after inp x sv) u) OrderLine r = None"
    then have "line_effect F inp n i x u (add_row OrderLine r
        (order_line_tuple F inp n i x (get_attr Item ''i_price'' iv) (get_attr Stock ''s_dist10'' sv))
        (set_row_value Stock sr (stock_after inp x sv) u))"
      using that rows by (auto simp: line_effect_def placed_def)
    from p [OF this] g show "valid cr weak Q (drop_all [WG Stock sr, RG Item ir] p) g (add_row OrderLine r
        (order_line_tuple F inp n i x (get_attr Item ''i_price'' iv) (get_attr Stock ''s_dist10'' sv))
        (set_row_value Stock sr (stock_after inp x sv) u))"
      by (intro valid_drop_all) (auto simp: insert_subset_eq_iff in_diff_count)
  qed
  show ?thesis
  proof (rule valid_db_ok)
    assume ok: "db_ok u" "guards_ok g u"
    obtain iv il sv where v: "row u Item ir = Some (iv, il)" "row u Stock sr = Some (sv, Readers 0)"
      using held_row [OF ok(2)] g by metis
    show "valid cr weak Q (write_line F inp n i x ir sr p) g u"
      unfolding write_line_def i_query_def s_query_def
      using g v last [OF v ok(1)]
      by (intro valid_value valid_touch valid_promote [OF _ refl])
        (auto intro!: valid_modify_at simp: field_in_query attr_simps db_simps stock_after_def)
  qed
qed

lemma line_effect_rows:
  assumes "line_effect F inp n i x u u'"
  shows "item_row u' y = item_row u y" "stock_row u' y = stock_row u y"
  using assms by (auto simp: line_effect_def placed_def item_row_def stock_row_def db_simps)

definition found :: "db \<Rightarrow> OrderItem \<Rightarrow> Rid \<times> Rid \<Rightarrow> bool" where
  "found u x l \<longleftrightarrow> item_row u x = Some (fst l) \<and> stock_row u x = Some (snd l)"

lemma line_guards_simps [simp]:
  "line_guards [] = []" "line_guards ((i, s) # ls) = RG Item i # WG Stock s # line_guards ls"
  "line_guards (ls @ ls') = line_guards ls @ line_guards ls'" "length (line_guards ls) = 2 * length ls"
  by (induction ls) (auto simp: line_guards_def)

lemma valid_write_lines:
  assumes "list_all2 (found u) xs ls" "unat (no_ol_cnt inp) \<le> i + length xs"
    and "\<And>u'. lines_effect F inp n i xs u u' \<Longrightarrow> valid cr weak Q p g u'"
  shows "valid cr weak Q (write_lines F inp n i (zip xs ls) p) (mset (line_guards ls) + g) u"
  using assms
proof (induction xs arbitrary: ls i u)
  case Nil
  then show ?case by simp
next
  case (Cons x xs)
  then obtain ir sr ls' where ls: "ls = (ir, sr) # ls'" "found u x (ir, sr)" "list_all2 (found u) xs ls'"
    by (auto simp: list_all2_Cons1)
  have "valid cr weak Q (write_lines F inp n (i + 1) (zip xs ls') p) (mset (line_guards ls') + g) u1"
    if "line_effect F inp n i x u u1" for u1
  proof (rule Cons.IH)
    show "list_all2 (found u1) xs ls'"
      using ls(3) line_effect_rows [OF that] by (simp add: found_def list_all2_conv_all_nth)
    show "valid cr weak Q p g u'" if "lines_effect F inp n (i + 1) xs u1 u'" for u'
      using Cons.prems(3) that \<open>line_effect F inp n i x u u1\<close> by auto
  qed (use Cons.prems(2) in simp)
  then show ?case
    using ls(1,2) by (auto simp: found_def intro!: valid_write_line)
qed

lemma valid_lock_lines:
  assumes "list_all2 (found u) ys ls" "length ls + length xs \<le> 15" "length gs = 3"
    and err: "\<And>e. (e = UserAbort \<Longrightarrow> \<exists>x\<in>set xs. item_row u x = None) \<Longrightarrow> Q (Inl e) u"
    and K: "\<And>ls'. list_all2 (found u) (ys @ xs) ls' \<Longrightarrow> valid cr weak Q (K ls') (mset (line_guards ls' @ gs)) u"
  shows "valid cr weak Q (lock_lines xs ls gs K) (mset (line_guards ls @ gs)) u"
  using assms
proof (induction xs arbitrary: ys ls)
  case Nil
  then show ?case by simp
next
  case (Cons x xs)
  have ind: "valid cr weak Q (lock_lines xs (ls @ [(i, s)]) gs K) (mset (line_guards (ls @ [(i, s)]) @ gs)) u"
    if "found u x (i, s)" for i s
    using Cons.prems that by (intro Cons.IH [of "ys @ [x]"]) (auto intro: list_all2_appendI)
  have no_abort: "item_row u x = None" if "denied_read weak g u Item (item_make_key (ucast (ol_i_id x))) e" "user_abort e = UserAbort" for g e
    using that by (auto simp: denied_read_def read_refused_def user_abort_def item_row_def split: option.splits TransactionError.splits)
  have no_abort2: "e \<noteq> UserAbort" if "denied_write weak g u Stock k e" for g k e
    using that by (auto simp: denied_write_def write_refused_def split: option.splits)
  show ?case
    unfolding lock_lines.simps
  proof (rule valid_read_oid)
    show "Q (Inl (user_abort e)) u"
      if "denied_read weak (mset (line_guards ls @ gs)) u Item (item_make_key (ucast (ol_i_id x))) e" for e
      using Cons.prems(4) no_abort [OF that] by auto
    show "valid cr weak Q (write_oid Stock (stock_make_key (ucast (ol_supply_w_id x)) (ucast (ol_i_id x))) (RG Item r # line_guards ls @ gs)
        (\<lambda>s. lock_lines xs (ls @ [(r, s)]) gs K)) (add_mset (RG Item r) (mset (line_guards ls @ gs))) u"
      if "ix u Item (item_make_key (ucast (ol_i_id x))) = Some r" for r
    proof (rule valid_write_oid)
      show "Q (Inl e) u" if "denied_write weak (add_mset (RG Item r) (mset (line_guards ls @ gs))) u Stock
          (stock_make_key (ucast (ol_supply_w_id x)) (ucast (ol_i_id x))) e" for e
        using Cons.prems(4) no_abort2 [OF that] by blast
    qed (use that ind [of r] in \<open>auto simp: found_def item_row_def stock_row_def add_mset_commute\<close>)
  qed (use Cons.prems(2,3) in auto)
qed

definition new_order_post :: "f64_ops \<Rightarrow> NewOrderInput \<Rightarrow> db \<Rightarrow> unit result \<Rightarrow> db \<Rightarrow> bool" where
  "new_order_post F inp u x u' \<longleftrightarrow>
     (case x of
        Inl e \<Rightarrow> u' = u \<and> (e = UserAbort \<longrightarrow> (\<exists>y\<in>set (no_lines inp). item_row u y = None))
      | Inr _ \<Rightarrow> new_order_effect F inp u u')"

lemma valid_phase2:
  assumes "list_all2 (found u) (no_lines inp) ls" "unat (no_ol_cnt inp) \<le> length (no_lines inp)"
    and "ix u District (district_make_key (ucast (no_w_id inp)) (ucast (no_d_id inp))) = Some d"
  shows "valid cr weak (new_order_post F inp u) (new_order_phase2 F inp w d c ls)
    (mset (line_guards ls @ [WG Customer c, WG District d, WG Warehouse w])) u"
proof -
  let ?gs = "[WG Customer c, WG District d, WG Warehouse w]" and ?Q = "new_order_post F inp u"
  have lines: "valid cr weak ?Q (write_lines F inp n 0 (zip (no_lines inp) ls) (drop_all ?gs (Return (Inr ())))) (mset (line_guards ls @ ?gs)) u1"
    if "row u District d = Some (v, Readers 0)" "n = to_u64 (get_attr District ''d_next_o_id'' v)"
      "placed Order (order_tuple inp n) (numbered inp d n v u) u1" for n v u1
    unfolding mset_append
  proof (rule valid_write_lines)
    show "list_all2 (found u1) (no_lines inp) ls"
      using assms(1) that(3) by (auto simp: placed_def numbered_def Let_def found_def item_row_def stock_row_def db_simps list_all2_conv_all_nth)
    show "valid cr weak ?Q (drop_all ?gs (Return (Inr ()))) (mset ?gs) u'" if "lines_effect F inp n 0 (no_lines inp) u1 u'" for u'
      using that \<open>row u District d = _\<close> \<open>n = _\<close> \<open>placed _ _ _ _\<close> assms(3)
      by (intro valid_return) (auto simp: new_order_post_def new_order_effect_def)
  qed (use assms(2) in simp)
  have number: "valid cr weak ?Q
      (set_value District d (query_of District [''d_tax'', ''d_next_o_id'']) (field_of District ''d_next_o_id'')
        (word_bytes (to_u64 (get_attr District ''d_next_o_id'' v) + 1))
        (Call (New_Order_Insert (new_order_make_key (ucast (no_w_id inp)) (ucast (no_d_id inp))
            (to_u64 (get_attr District ''d_next_o_id'' v)) (ucast (no_c_id inp)))
          (new_order_make_key (ucast (no_w_id inp)) (ucast (no_d_id inp)) (to_u64 (get_attr District ''d_next_o_id'' v)) (ucast (no_c_id inp))))
        (\<lambda>_. insert_row Order (order_tuple inp (to_u64 (get_attr District ''d_next_o_id'' v)))
          (write_lines F inp (to_u64 (get_attr District ''d_next_o_id'' v)) 0 (zip (no_lines inp) ls) (drop_all ?gs (Return (Inr ())))))))
      (mset (line_guards ls @ ?gs)) u" if "row u District d = Some (v, l)" for v l
    using that lines
    by (intro valid_set valid_new_order(1) valid_insert)
      (auto simp: field_in_query attr_simps order_tuple_length placed_def numbered_def Let_def)
  show ?thesis
    unfolding new_order_phase2_def no_w_query_def no_d_query_def no_c_query_def Let_def
    using number by (intro valid_touch valid_value) (auto simp: field_in_query attr_simps)
qed

lemma valid_new_order_txn:
  assumes "unat (no_ol_cnt inp) \<le> 15" "length (no_orders inp) = 15"
  shows "valid cr weak (new_order_post F inp u) (new_order F inp) {#} u"
proof -
  have no: "new_order_post F inp u (Inl e) u" if "denied_write weak g u t k e" for g t k e
    using that by (auto simp: new_order_post_def denied_write_def write_refused_def split: option.splits)
  have lines: "length (no_lines inp) = unat (no_ol_cnt inp)"
    using assms by (simp add: no_lines_def)
  have locks: "valid cr weak (new_order_post F inp u)
      (lock_lines (no_lines inp) [] [WG Customer c, WG District d, WG Warehouse w] (new_order_phase2 F inp w d c))
      (mset (line_guards [] @ [WG Customer c, WG District d, WG Warehouse w])) u"
    if "ix u District (district_make_key (ucast (no_w_id inp)) (ucast (no_d_id inp))) = Some d" for w d c
    using assms(1) lines valid_phase2 [OF _ _ that]
    by (intro valid_lock_lines [of u "[]"]) (auto simp: new_order_post_def)
  show ?thesis
    unfolding new_order_def no_w_query_def no_d_query_def no_c_query_def
    using no locks by (intro valid_write_oid valid_promote [OF _ refl]) (auto simp: attr_simps)
qed

section \<open>What a new order leaves behind\<close>

definition same_locks :: "db \<Rightarrow> db \<Rightarrow> bool" where
  "same_locks u u' \<longleftrightarrow> (\<forall>t r v l. row u t r = Some (v, l) \<longrightarrow> (\<exists>v'. row u' t r = Some (v', l)))"

lemma same_locks_trans: "same_locks u u1 \<Longrightarrow> same_locks u1 u' \<Longrightarrow> same_locks u u'"
  unfolding same_locks_def by blast

lemma same_locks_set: "same_locks u (set_row_value t r v u)"
  by (auto simp: same_locks_def db_simps)

lemma same_locks_placed: "placed t v u u' \<Longrightarrow> same_locks u u'"
  by (auto simp: same_locks_def placed_def db_simps)

lemma change_attr:
  assumes "in_tuple t f" "length v = tuple_size t" "\<And>b. length (h b) = width t f"
  shows "length (change t f h v) = tuple_size t"
    "in_tuple t g \<Longrightarrow> get_attr t g (change t f h v) = (if g = f then h (get_attr t f v) else get_attr t g v)"
  using assms put_attr_length get_put_attr by (auto simp: change_def)

lemma stock_after_length: "length v = tuple_size Stock \<Longrightarrow> length (stock_after inp x v) = tuple_size Stock"
  by (simp add: stock_after_def change_attr(1) attr_simps)

lemma stock_after_quantity:
  "length v = tuple_size Stock \<Longrightarrow>
     get_attr Stock ''s_quantity'' (stock_after inp x v) = on_u64 (\<lambda>s. new_quantity s (ucast (ol_quantity x))) (get_attr Stock ''s_quantity'' v)"
  by (simp add: stock_after_def change_attr attr_simps)

lemma literal_u64:
  assumes "\<forall>(f, v)\<in>set fs. (f, offset_of (struct_of t) f, length v) \<in> set (members (struct_of t))" "distinct (map fst fs)"
    and "(f, word_bytes w) \<in> set fs"
  shows "u64_member (struct_of t) f (struct_literal (struct_of t) fs) = w"
  using struct_literal_member [OF assms] to_u64_word [of w] by (simp add: u64_member_def get_attr_def to_u64_def)

lemma line_key:
  assumes "length s_dist = 24"
  shows "key_of OrderLine (order_line_tuple F inp n i x price s_dist)
    = order_line_make_key (ucast (no_w_id inp)) (ucast (no_d_id inp)) n (ucast (ol_i_id x))"
proof -
  define fs where "fs = [(''ol_o_id'', word_bytes n), (''ol_d_id'', word_bytes (ucast (no_d_id inp))),
      (''ol_w_id'', word_bytes (ucast (no_w_id inp))), (''ol_i_id'', word_bytes (ucast (ol_i_id x))),
      (''ol_supply_w_id'', word_bytes (ucast (ol_supply_w_id x))), (''ol_number'', word_bytes (of_nat i)),
      (''ol_quantity'', word_bytes (ucast (ol_quantity x))), (''ol_delivery_d'', word_bytes CARRIER_NULL),
      (''ol_amount'', word_bytes (f_mul F (f_of_u16 F (ol_quantity x)) (to_u64 price))), (''ol_dist_info'', s_dist)]"
  have ok: "\<forall>(f, v)\<in>set fs. (f, offset_of (struct_of OrderLine) f, length v) \<in> set (members (struct_of OrderLine))" "distinct (map fst fs)"
    using assms by (simp_all add: fs_def offset_of_def span_of_def layouts)
  have v: "order_line_tuple F inp n i x price s_dist = struct_literal (struct_of OrderLine) fs"
    by (simp add: order_line_tuple_def fs_def)
  have "(''ol_w_id'', word_bytes (ucast (no_w_id inp))) \<in> set fs" "(''ol_d_id'', word_bytes (ucast (no_d_id inp))) \<in> set fs"
    "(''ol_o_id'', word_bytes n) \<in> set fs" "(''ol_i_id'', word_bytes (ucast (ol_i_id x))) \<in> set fs"
    by (simp_all add: fs_def)
  from this [THEN literal_u64 [OF ok]] show ?thesis
    by (simp add: order_line_key_def v)
qed

lemma order_row_key:
  "key_of Order (order_tuple inp n) = order_make_key (ucast (no_w_id inp)) (ucast (no_d_id inp)) (ucast (no_c_id inp)) n"
proof -
  define fs where "fs = [(''o_id'', word_bytes n), (''o_c_id'', word_bytes (ucast (no_c_id inp))),
      (''o_d_id'', word_bytes (ucast (no_d_id inp))), (''o_carrier_id'', word_bytes CARRIER_NULL),
      (''o_entry_d'', word_bytes (no_entry_d inp)), (''o_w_id'', word_bytes (ucast (no_w_id inp))),
      (''o_ol_cnt'', word_bytes (ucast (no_ol_cnt inp))), (''o_all_local'', word_bytes (of_bool (no_all_local inp)))]"
  have ok: "\<forall>(f, v)\<in>set fs. (f, offset_of (struct_of Order) f, length v) \<in> set (members (struct_of Order))" "distinct (map fst fs)"
    by (simp_all add: fs_def offset_of_def span_of_def layouts)
  have v: "order_tuple inp n = struct_literal (struct_of Order) fs"
    by (simp add: order_tuple_def fs_def)
  have "(''o_w_id'', word_bytes (ucast (no_w_id inp))) \<in> set fs" "(''o_d_id'', word_bytes (ucast (no_d_id inp))) \<in> set fs"
    "(''o_c_id'', word_bytes (ucast (no_c_id inp))) \<in> set fs" "(''o_id'', word_bytes n) \<in> set fs"
    by (simp_all add: fs_def)
  from this [THEN literal_u64 [OF ok]] show ?thesis
    by (simp add: order_key_def v)
qed

lemma line_effect_facts:
  assumes e: "line_effect F inp n i x u u'" and ok: "db_ok u"
  shows "db_ok u'" "same_locks u u'" "t \<noteq> Stock \<Longrightarrow> t \<noteq> OrderLine \<Longrightarrow> row u' t = row u t \<and> ix u' t = ix u t"
    "ix u' Stock = ix u Stock" "no_ix u' = no_ix u" "last_ix u' = last_ix u" "row u OrderLine r = Some w \<Longrightarrow> row u' OrderLine r = Some w"
    "\<exists>r ir iv il sdist. ix u' OrderLine = (ix u OrderLine)(order_line_make_key (ucast (no_w_id inp)) (ucast (no_d_id inp)) n (ucast (ol_i_id x)) \<mapsto> r)
      \<and> item_row u x = Some ir \<and> row u Item ir = Some (iv, il)
      \<and> row u' OrderLine r = Some (order_line_tuple F inp n i x (get_attr Item ''i_price'' iv) sdist, Readers 0)"
proof -
  obtain ir sr iv il sv r where l: "item_row u x = Some ir" "row u Item ir = Some (iv, il)" "row u Stock sr = Some (sv, Readers 0)"
    "row u OrderLine r = None"
    "u' = add_row OrderLine r (order_line_tuple F inp n i x (get_attr Item ''i_price'' iv) (get_attr Stock ''s_dist10'' sv))
       (set_row_value Stock sr (stock_after inp x sv) u)"
    using e by (auto simp: line_effect_def placed_def db_simps)
  let ?sd = "get_attr Stock ''s_dist10'' sv"
  have sd: "length ?sd = 24"
    by (rule dist_length [OF ok l(3)])
  have sv: "length sv = tuple_size Stock"
    using ok l(3) by (auto simp: db_ok_def)
  show "db_ok u'"
    unfolding l(5) using db_ok_set [OF ok l(3)] sv by (intro db_ok_add order_line_tuple_length sd) (simp add: stock_after_length)
  show "same_locks u u'" "t \<noteq> Stock \<Longrightarrow> t \<noteq> OrderLine \<Longrightarrow> row u' t = row u t \<and> ix u' t = ix u t"
    "ix u' Stock = ix u Stock" "no_ix u' = no_ix u" "last_ix u' = last_ix u"
    using l(4) by (auto simp: l(5) db_simps same_locks_def fun_eq_iff)
  show "row u' OrderLine r' = Some w" if "row u OrderLine r' = Some w" for r' w
    using that l(4) by (auto simp: l(5) db_simps)
  have "ix u' OrderLine = (ix u OrderLine)(order_line_make_key (ucast (no_w_id inp)) (ucast (no_d_id inp)) n (ucast (ol_i_id x)) \<mapsto> r)"
    using line_key [OF sd] by (auto simp: l(5) db_simps fun_eq_iff)
  then show "\<exists>r ir iv il sdist. ix u' OrderLine = (ix u OrderLine)(order_line_make_key (ucast (no_w_id inp)) (ucast (no_d_id inp)) n (ucast (ol_i_id x)) \<mapsto> r)
      \<and> item_row u x = Some ir \<and> row u Item ir = Some (iv, il)
      \<and> row u' OrderLine r = Some (order_line_tuple F inp n i x (get_attr Item ''i_price'' iv) sdist, Readers 0)"
    using l(1,2) by (intro exI [of _ r] exI [of _ ir] exI [of _ iv] exI [of _ il] exI [of _ ?sd]) (simp add: l(5) db_simps)
qed

abbreviation line_key_of :: "NewOrderInput \<Rightarrow> u64 \<Rightarrow> OrderItem \<Rightarrow> usize" where
  "line_key_of inp n x \<equiv> order_line_make_key (ucast (no_w_id inp)) (ucast (no_d_id inp)) n (ucast (ol_i_id x))"

lemma line_key_inj: "line_key_of inp n x = line_key_of inp n y \<longleftrightarrow> ol_i_id x = ol_i_id y"
proof -
  have "ucast (ucast a :: usize) = a" for a :: u32
    by (simp add: ucast_down_ucast_id is_down)
  then have "(ucast (ol_i_id x) :: usize) = ucast (ol_i_id y) \<Longrightarrow> ol_i_id x = ol_i_id y"
    by metis
  then show ?thesis by (auto simp: order_line_make_key_def)
qed

text \<open>A line is found under its key, with the price of its item.\<close>

definition line_entered :: "f64_ops \<Rightarrow> NewOrderInput \<Rightarrow> u64 \<Rightarrow> db \<Rightarrow> db \<Rightarrow> nat \<Rightarrow> OrderItem \<Rightarrow> bool" where
  "line_entered F inp n u u' i x \<longleftrightarrow>
     (\<exists>r ir iv il sdist. ix u' OrderLine (line_key_of inp n x) = Some r \<and> item_row u x = Some ir \<and> row u Item ir = Some (iv, il)
        \<and> row u' OrderLine r = Some (order_line_tuple F inp n i x (get_attr Item ''i_price'' iv) sdist, Readers 0))"

lemma lines_effect_frame:
  assumes "lines_effect F inp n i xs u u'" "db_ok u"
  shows "db_ok u' \<and> same_locks u u' \<and> no_ix u' = no_ix u
    \<and> (\<forall>t. t \<noteq> Stock \<and> t \<noteq> OrderLine \<longrightarrow> row u' t = row u t \<and> ix u' t = ix u t)
    \<and> (\<forall>r w. row u OrderLine r = Some w \<longrightarrow> row u' OrderLine r = Some w)
    \<and> (\<forall>y. ol_i_id y \<notin> ol_i_id ` set xs \<longrightarrow> ix u' OrderLine (line_key_of inp n y) = ix u OrderLine (line_key_of inp n y))"
  using assms
proof (induction xs arbitrary: i u)
  case Nil
  then show ?case by (simp add: same_locks_def)
next
  case (Cons x xs)
  then obtain u1 where u1: "line_effect F inp n i x u u1" "lines_effect F inp n (i + 1) xs u1 u'"
    by auto
  note f = line_effect_facts [OF u1(1) Cons.prems(2)]
  note IH = Cons.IH [OF u1(2) f(1)]
  have "ix u1 OrderLine (line_key_of inp n y) = ix u OrderLine (line_key_of inp n y)" if "ol_i_id y \<noteq> ol_i_id x" for y
    using f(8) line_key_inj [of inp n y x] that by auto
  then show ?case
    using IH f(3,5,7) same_locks_trans [OF f(2)] by (auto split del: if_split)
qed

lemma lines_entered:
  assumes "lines_effect F inp n i xs u u'" "db_ok u" "distinct (map ol_i_id xs)" "j < length xs"
  shows "line_entered F inp n u u' (i + j) (xs ! j)"
  using assms
proof (induction xs arbitrary: i j u)
  case (Cons x xs)
  then obtain u1 where u1: "line_effect F inp n i x u u1" "lines_effect F inp n (i + 1) xs u1 u'"
    by auto
  note f = line_effect_facts [OF u1(1) Cons.prems(2)]
  note fr = lines_effect_frame [OF u1(2) f(1)]
  show ?case
  proof (cases j)
    case 0
    have "ix u' OrderLine (line_key_of inp n x) = ix u1 OrderLine (line_key_of inp n x)"
      using fr Cons.prems(3) by auto
    then show ?thesis
      using f(8) fr 0 by (fastforce simp: line_entered_def)
  next
    case (Suc k)
    then have "line_entered F inp n u1 u' (i + j) (xs ! k)"
      using Cons.IH [OF u1(2) f(1), of k] Cons.prems(3,4) by simp
    then show ?thesis
      using Suc f(3) [of Item] by (auto simp: line_entered_def item_row_def)
  qed
qed simp

text \<open>
  What a successful order means for the tables: the number is used up, the order and its lines are found under
  their keys, the order waits for delivery, and no other table and no lock has changed.
\<close>

definition order_entered :: "f64_ops \<Rightarrow> NewOrderInput \<Rightarrow> db \<Rightarrow> db \<Rightarrow> bool" where
  "order_entered F inp u u' \<longleftrightarrow>
     (\<exists>d v n r. ix u District (district_make_key (ucast (no_w_id inp)) (ucast (no_d_id inp))) = Some d
        \<and> row u District d = Some (v, Readers 0) \<and> n = to_u64 (get_attr District ''d_next_o_id'' v)
        \<and> row u' District d = Some (put_attr District ''d_next_o_id'' (word_bytes (n + 1)) v, Readers 0)
        \<and> no_ix u' (new_order_make_key (ucast (no_w_id inp)) (ucast (no_d_id inp)) n (ucast (no_c_id inp)))
            = Some (new_order_make_key (ucast (no_w_id inp)) (ucast (no_d_id inp)) n (ucast (no_c_id inp)))
        \<and> row u Order r = None \<and> row u' Order r = Some (order_tuple inp n, Readers 0)
        \<and> ix u' Order (order_make_key (ucast (no_w_id inp)) (ucast (no_d_id inp)) (ucast (no_c_id inp)) n) = Some r
        \<and> (\<forall>i<length (no_lines inp). line_entered F inp n u u' i (no_lines inp ! i)))
     \<and> (\<forall>t\<in>{Warehouse, Customer, Item}. row u' t = row u t \<and> ix u' t = ix u t) \<and> same_locks u u'"

lemma numbered_facts:
  assumes "row u District d = Some (v, Readers 0)"
  shows "row (numbered inp d n v u) t = (if t = District then (row u District)(d \<mapsto> (put_attr District ''d_next_o_id'' (word_bytes (n + 1)) v, Readers 0)) else row u t)"
    "ix (numbered inp d n v u) t = ix u t"
    "no_ix (numbered inp d n v u) (new_order_make_key (ucast (no_w_id inp)) (ucast (no_d_id inp)) n (ucast (no_c_id inp)))
       = Some (new_order_make_key (ucast (no_w_id inp)) (ucast (no_d_id inp)) n (ucast (no_c_id inp)))"
    "same_locks u (numbered inp d n v u)" "db_ok u \<Longrightarrow> db_ok (numbered inp d n v u)"
proof -
  show "db_ok (numbered inp d n v u)" if "db_ok u"
  proof -
    have "length v = tuple_size District"
      using that assms by (auto simp: db_ok_def)
    then have "db_ok (set_row_value District d (put_attr District ''d_next_o_id'' (word_bytes (n + 1)) v) u)"
      using db_ok_set [OF that assms] put_attr_length [of District "''d_next_o_id''" v] by (simp add: attr_simps)
    then show ?thesis by (simp add: numbered_def Let_def db_ok_def db_simps)
  qed
qed (use assms in \<open>auto simp: numbered_def Let_def db_simps fun_eq_iff same_locks_def\<close>)

lemma effect_enters:
  assumes e: "new_order_effect F inp u u'" and ok: "db_ok u" and items: "distinct (map ol_i_id (no_lines inp))"
  shows "order_entered F inp u u'"
proof -
  obtain d v n u1 where d: "ix u District (district_make_key (ucast (no_w_id inp)) (ucast (no_d_id inp))) = Some d"
    "row u District d = Some (v, Readers 0)" "n = to_u64 (get_attr District ''d_next_o_id'' v)"
    "placed Order (order_tuple inp n) (numbered inp d n v u) u1" "lines_effect F inp n 0 (no_lines inp) u1 u'"
    using e by (auto simp: new_order_effect_def)
  note num = numbered_facts [OF d(2), of inp n]
  obtain r where r: "row u Order r = None" "u1 = add_row Order r (order_tuple inp n) (numbered inp d n v u)"
    using d(4) num(1) by (auto simp: placed_def)
  have ok1: "db_ok u1"
    unfolding r(2) by (intro db_ok_add num(5) ok order_tuple_length)
  note fr = lines_effect_frame [OF d(5) ok1]
  have u1: "row u1 t = (if t = District then (row u District)(d \<mapsto> (put_attr District ''d_next_o_id'' (word_bytes (n + 1)) v, Readers 0))
      else if t = Order then (row u Order)(r \<mapsto> (order_tuple inp n, Readers 0)) else row u t)"
    "t \<noteq> Order \<Longrightarrow> ix u1 t = ix u t"
    "ix u1 Order (order_make_key (ucast (no_w_id inp)) (ucast (no_d_id inp)) (ucast (no_c_id inp)) n) = Some r"
    "no_ix u1 = no_ix (numbered inp d n v u)" for t
    unfolding r(2) by (auto simp: db_simps num(1,2) order_row_key [unfolded key_of.simps] fun_eq_iff)
  have lines: "\<forall>i<length (no_lines inp). line_entered F inp n u u' i (no_lines inp ! i)"
    using lines_entered [OF d(5) ok1 items] u1(1,2) [of Item] by (simp add: line_entered_def item_row_def)
  have locks: "same_locks u u'"
    using same_locks_trans [OF num(4) same_locks_trans [OF same_locks_placed [OF d(4)]]] fr by blast
  have t: "row u' t = row u1 t" "ix u' t = ix u1 t" if "t \<noteq> Stock" "t \<noteq> OrderLine" for t
    using fr that by blast+
  have rows: "row u' District d = Some (put_attr District ''d_next_o_id'' (word_bytes (n + 1)) v, Readers 0)"
    "row u' Order r = Some (order_tuple inp n, Readers 0)"
    "ix u' Order (order_make_key (ucast (no_w_id inp)) (ucast (no_d_id inp)) (ucast (no_c_id inp)) n) = Some r"
    "\<forall>t\<in>{Warehouse, Customer, Item}. row u' t = row u t \<and> ix u' t = ix u t"
    by (simp_all add: t u1(1,2,3))
  have no: "no_ix u' (new_order_make_key (ucast (no_w_id inp)) (ucast (no_d_id inp)) n (ucast (no_c_id inp)))
            = Some (new_order_make_key (ucast (no_w_id inp)) (ucast (no_d_id inp)) n (ucast (no_c_id inp)))"
    using fr u1(4) num(3) by simp
  show ?thesis
    unfolding order_entered_def
    by (intro conjI exI [of _ d] exI [of _ v] exI [of _ n] exI [of _ r]) (rule d(1-3) r(1) rows no lines locks)+
qed

section \<open>The quantity in stock\<close>

definition quantity_ok :: "bytes \<Rightarrow> bool" where
  "quantity_ok v \<longleftrightarrow> 10 \<le> to_u64 (get_attr Stock ''s_quantity'' v) \<and> to_u64 (get_attr Stock ''s_quantity'' v) \<le> 100"

definition stock_sane :: "db \<Rightarrow> bool" where
  "stock_sane u \<longleftrightarrow> (\<forall>r v l. row u Stock r = Some (v, l) \<longrightarrow> quantity_ok v)"

definition quantities_ok :: "OrderItem list \<Rightarrow> bool" where
  "quantities_ok xs \<longleftrightarrow> (\<forall>x\<in>set xs. 1 \<le> ol_quantity x \<and> ol_quantity x \<le> 10)"

lemma new_quantity_range:
  assumes "10 \<le> s" "s \<le> 100" "1 \<le> q" "q \<le> 10"
  shows "10 \<le> new_quantity s q \<and> new_quantity s q \<le> 100"
proof -
  define a b where "a = unat s" "b = unat q"
  have ab: "10 \<le> a" "a \<le> 100" "1 \<le> b" "b \<le> 10"
    using assms by (simp_all add: a_b_def word_le_nat_alt)
  have d: "s - q = of_nat (a - b)" using ab by (simp add: a_b_def of_nat_diff)
  have "sint (s - q) = int (a - b)"
    unfolding d signed_of_nat using ab signed_take_bit_int_eq_self [of 63 "int (a - b)"] by simp
  then have sle: "10 \<le>s s - q \<longleftrightarrow> 10 \<le> a - b"
    by (simp add: word_sle_eq)
  have u: "unat (of_nat n :: u64) = n" if "n < 1000" for n
    using that by (simp add: unsigned_of_nat take_bit_eq_mod)
  have n: "new_quantity s q = of_nat (if 10 \<le> a - b then a - b else a - b + 91)"
    unfolding new_quantity_def sle by (simp add: d)
  show ?thesis
    unfolding n word_le_nat_alt using ab u [of "if 10 \<le> a - b then a - b else a - b + 91"] by auto
qed
lemma stock_after_sane:
  assumes "length v = tuple_size Stock" "quantity_ok v" "1 \<le> ol_quantity x" "ol_quantity x \<le> 10"
  shows "quantity_ok (stock_after inp x v)"
proof -
  have "1 \<le> (ucast (ol_quantity x) :: u64)" "(ucast (ol_quantity x) :: u64) \<le> 10"
    using assms(3,4) by (simp_all add: word_le_nat_alt unsigned_ucast_eq take_bit_eq_mod)
  then show ?thesis
    using assms(2) new_quantity_range [of "to_u64 (get_attr Stock ''s_quantity'' v)" "ucast (ol_quantity x)"]
    by (simp add: quantity_ok_def stock_after_quantity [OF assms(1)] on_u64_def)
qed

lemma line_keeps_stock:
  assumes "line_effect F inp n i x u u'" "db_ok u" "stock_sane u" "1 \<le> ol_quantity x" "ol_quantity x \<le> 10"
  shows "stock_sane u'"
proof -
  obtain sr sv r w where l: "row u Stock sr = Some (sv, Readers 0)"
    "u' = add_row OrderLine r w (set_row_value Stock sr (stock_after inp x sv) u)"
    using assms(1) by (auto simp: line_effect_def placed_def)
  have "quantity_ok (stock_after inp x sv)"
    using assms l(1) by (intro stock_after_sane) (auto simp: db_ok_def stock_sane_def)
  then show ?thesis
    using assms(3) l(1) by (auto simp: l(2) stock_sane_def db_simps split: if_splits)
qed

lemma lines_keep_stock:
  assumes "lines_effect F inp n i xs u u'" "db_ok u" "stock_sane u" "quantities_ok xs"
  shows "stock_sane u'"
  using assms
proof (induction xs arbitrary: i u)
  case (Cons x xs)
  then obtain u1 where u1: "line_effect F inp n i x u u1" "lines_effect F inp n (i + 1) xs u1 u'"
    by auto
  then show ?case
    using Cons.IH [OF u1(2) line_effect_facts(1) [OF u1(1) Cons.prems(2)]] line_keeps_stock [OF u1(1) Cons.prems(2,3)] Cons.prems(4)
    by (simp add: quantities_ok_def)
qed simp

lemma effect_keeps_stock:
  assumes "new_order_effect F inp u u'" "db_ok u" "stock_sane u" "quantities_ok (no_lines inp)"
  shows "stock_sane u'"
proof -
  obtain d v n u1 where d: "row u District d = Some (v, Readers 0)"
    "placed Order (order_tuple inp n) (numbered inp d n v u) u1" "lines_effect F inp n 0 (no_lines inp) u1 u'"
    using assms(1) by (auto simp: new_order_effect_def)
  note num = numbered_facts [OF d(1), of inp n]
  obtain r where u1: "u1 = add_row Order r (order_tuple inp n) (numbered inp d n v u)"
    using d(2) by (auto simp: placed_def)
  have "db_ok u1" "stock_sane u1"
    unfolding u1 using assms(3) by (auto intro: db_ok_add num(5) assms(2) order_tuple_length simp: stock_sane_def db_simps num(1))
  then show ?thesis
    using lines_keep_stock [OF d(3)] assms(4) by blast
qed

section \<open>A loaded workload\<close>

definition sample_stock :: bytes where
  "sample_stock = struct_literal StockTuple [(''s_quantity'', word_bytes 50)]"

lemma sample_stock_facts: "length sample_stock = tuple_size Stock" "quantity_ok sample_stock"
proof -
  show "length sample_stock = tuple_size Stock"
    unfolding sample_stock_def tuple_size_def struct_of.simps
    by (rule struct_literal_length) (simp add: offset_of_def span_of_def layouts)
  have "get_attr Stock ''s_quantity'' sample_stock = word_bytes 50"
    unfolding sample_stock_def struct_of.simps(5) [symmetric]
    by (rule struct_literal_member) (simp_all add: offset_of_def span_of_def layouts)
  then show "quantity_ok sample_stock"
    by (simp add: quantity_ok_def)
qed

lemma bytes_value_zero: "bytes_value (replicate n 0) = 0"
  by (induction n) (simp_all add: bytes_value_def)

lemma sample_loaded:
  obtains E R where "engine_ready (\<lambda>_. test_world) map_congee tuple_size E R" "db_ok (engine_abs map_congee R E)"
    "ix (engine_abs map_congee R E) District 0 \<noteq> None" "stock_sane (engine_abs map_congee R E)"
    "ix (engine_abs map_congee R E) Stock (key_of Stock sample_stock) \<noteq> None"
proof -
  obtain E0 where E0: "sample_workload = Some E0"
    using sample_built by blast
  note start = map_crates.workload_ready [OF E0 whole_tuples_fit sample_sizes_fit]
  have ok0: "db_ok (engine_abs map_congee (\<lambda>_. {}) E0)"
    by (simp add: start(2))
  have d: "length (replicate 120 (0 :: u8)) = tuple_size District" "key_of District (replicate 120 0) = 0"
    by (simp_all add: tuple_size_def layouts district_key_def u64_member_def get_member_def span_of_def bytes_value_zero
        district_make_key_def)
  obtain E1 R1 r1 where e1: "engine_ready (\<lambda>_. test_world) map_congee tuple_size E1 R1"
    "engine_abs map_congee R1 E1 = add_row District r1 (replicate 120 0) empty_db" "\<And>t'. t' \<noteq> District \<Longrightarrow> etab E1 t' = etab E0 t'"
    using map_crates.insert_one [OF start(1) ok0 d(1) start(3)] start(2) by metis
  have ok1: "db_ok (engine_abs map_congee R1 E1)"
    unfolding e1(2) by (intro db_ok_add d) simp
  have "\<not> out_of_oids Stock E1"
    using start(3) [of Stock] e1(3) [of Stock] by (simp add: out_of_oids_def)
  then obtain E2 R2 r2 where e2: "engine_ready (\<lambda>_. test_world) map_congee tuple_size E2 R2"
    "engine_abs map_congee R2 E2 = add_row Stock r2 sample_stock (add_row District r1 (replicate 120 0) empty_db)"
    using map_crates.insert_one [OF e1(1) ok1 sample_stock_facts(1)] e1(2) by metis
  have "db_ok (engine_abs map_congee R2 E2)"
    unfolding e2(2) by (rule db_ok_add [OF ok1 [unfolded e1(2)] sample_stock_facts(1)])
  then show ?thesis
    using that [OF e2(1)] e2(2) d(2) sample_stock_facts(2) by (auto simp: stock_sane_def db_simps split: if_splits)
qed

definition sample_order :: NewOrderInput where
  "sample_order = \<lparr> no_w_id = 0, no_d_id = 0, no_c_id = 0, no_ol_cnt = 1,
     no_orders = replicate 15 \<lparr> ol_i_id = 0, ol_supply_w_id = 0, ol_quantity = 5 \<rparr>, no_entry_d = 0, no_all_local = True \<rparr>"

definition sample_f64 :: f64_ops where
  "sample_f64 = \<lparr> f_add = (+), f_sub = (-), f_mul = (*), f_less = (<), f_of_u16 = ucast, f_half = 5 \<rparr>"

lemma sample_order_ok:
  "unat (no_ol_cnt sample_order) \<le> 15" "length (no_orders sample_order) = 15" "distinct (map ol_i_id (no_lines sample_order))"
  "quantities_ok (no_lines sample_order)"
  by (simp_all add: sample_order_def no_lines_def quantities_ok_def)

section \<open>Properties\<close>

text \<open>
  C81: a new order is all or nothing. From any ready tables, whatever other clients hold locked and
  whatever locks fail, its run on the engine ends; if it answers an error, the database with all locks is exactly as before, and
  the error is \<^const>\<open>UserAbort\<close> only if an item of the order does not exist; if it answers \<^verbatim>\<open>Ok\<close>, the database is as after one step that takes
  the next order number, enters the order, changes the stocks and adds the lines. It never panics, and stops only where a table has no
  room for a row.
\<close>

theorem new_order_atomic:
  assumes "crates G W" and "engine_ready W G csz E R" and "db_ok (engine_abs G R E)"
    and "unat (no_ol_cnt inp) \<le> 15" and "length (no_orders inp) = 15"
  shows "runs_to False W G csz
    (\<lambda>x u. case x of
        Inl e \<Rightarrow> u = engine_abs G R E \<and> (e = UserAbort \<longrightarrow> (\<exists>y\<in>set (no_lines inp). item_row u y = None))
      | Inr _ \<Rightarrow> new_order_effect F inp (engine_abs G R E) u)
    (run_txn W G (new_order F inp) ch n E)"
proof (rule crates.valid_runs [OF assms(1) _ assms(2,3)])
  show "valid False True (\<lambda>x u. case x of
        Inl e \<Rightarrow> u = engine_abs G R E \<and> (e = UserAbort \<longrightarrow> (\<exists>y\<in>set (no_lines inp). item_row u y = None))
      | Inr _ \<Rightarrow> new_order_effect F inp (engine_abs G R E) u) (new_order F inp) {#} (engine_abs G R E)"
    by (rule valid_weaken [OF valid_new_order_txn [OF assms(4,5)]]) (auto simp: new_order_post_def split: sum.splits)
qed simp

theorem new_order_atomic_witness:
  "\<exists>E R. engine_ready (\<lambda>_. test_world) map_congee tuple_size E R \<and> ix (engine_abs map_congee R E) District 0 \<noteq> None
     \<and> runs_to False (\<lambda>_. test_world) map_congee tuple_size
         (\<lambda>x u. case x of
             Inl e \<Rightarrow> u = engine_abs map_congee R E \<and> (e = UserAbort \<longrightarrow> (\<exists>y\<in>set (no_lines sample_order). item_row u y = None))
           | Inr _ \<Rightarrow> new_order_effect sample_f64 sample_order (engine_abs map_congee R E) u)
         (run_txn (\<lambda>_. test_world) map_congee (new_order sample_f64 sample_order) (\<lambda>_. (1, \<lambda>_. (False, False), False)) 0 E)"
proof (rule sample_loaded)
  fix E R assume s: "engine_ready (\<lambda>_. test_world) map_congee tuple_size E R" "db_ok (engine_abs map_congee R E)"
    "ix (engine_abs map_congee R E) District 0 \<noteq> None"
  from new_order_atomic [OF map_crates.crates_axioms s(1,2) sample_order_ok(1,2)] s show ?thesis by blast
qed

text \<open>
  C82: a new order that answers \<^verbatim>\<open>Ok\<close> is in the tables. Its number was the next one of the district, which is counted up; the order
  is found under its key, each line under its own with the price of its item, and the order waits for
  delivery. Warehouses, customers and items are untouched, and all locks are as before.
\<close>

theorem new_order_entered:
  assumes "crates G W" and "engine_ready W G csz E R" and "db_ok (engine_abs G R E)"
    and "unat (no_ol_cnt inp) \<le> 15" and "length (no_orders inp) = 15" and "distinct (map ol_i_id (no_lines inp))"
  shows "runs_to False W G csz (\<lambda>x u. x = Inr () \<longrightarrow> order_entered F inp (engine_abs G R E) u)
    (run_txn W G (new_order F inp) ch n E)"
proof (rule crates.valid_runs [OF assms(1) _ assms(2,3)])
  show "valid False True (\<lambda>x u. x = Inr () \<longrightarrow> order_entered F inp (engine_abs G R E) u) (new_order F inp) {#} (engine_abs G R E)"
    by (rule valid_weaken [OF valid_new_order_txn [OF assms(4,5)]]) (auto simp: new_order_post_def effect_enters [OF _ assms(3,6)])
qed simp

theorem new_order_entered_witness:
  "\<exists>E R. engine_ready (\<lambda>_. test_world) map_congee tuple_size E R \<and> ix (engine_abs map_congee R E) District 0 \<noteq> None
     \<and> runs_to False (\<lambda>_. test_world) map_congee tuple_size
         (\<lambda>x u. x = Inr () \<longrightarrow> order_entered sample_f64 sample_order (engine_abs map_congee R E) u)
         (run_txn (\<lambda>_. test_world) map_congee (new_order sample_f64 sample_order) (\<lambda>_. (1, \<lambda>_. (False, False), False)) 0 E)"
proof (rule sample_loaded)
  fix E R assume s: "engine_ready (\<lambda>_. test_world) map_congee tuple_size E R" "db_ok (engine_abs map_congee R E)"
    "ix (engine_abs map_congee R E) District 0 \<noteq> None"
  from new_order_entered [OF map_crates.crates_axioms s(1,2) sample_order_ok(1-3)] s show ?thesis by blast
qed

text \<open>
  C83: the quantity in stock stays between 10 and 100, as it is loaded. A new order takes 1 to 10 pieces and refills by 91
  where less than 10 would be left; with the wrap-around of the unsigned subtraction that holds for every row, whether the order succeeds or fails.
\<close>

theorem stock_stays_in_range:
  assumes "crates G W" and "engine_ready W G csz E R" and "db_ok (engine_abs G R E)" and "stock_sane (engine_abs G R E)"
    and "unat (no_ol_cnt inp) \<le> 15" and "length (no_orders inp) = 15" and "quantities_ok (no_lines inp)"
  shows "runs_to False W G csz (\<lambda>x u. stock_sane u) (run_txn W G (new_order F inp) ch n E)"
proof (rule crates.valid_runs [OF assms(1) _ assms(2,3)])
  show "valid False True (\<lambda>x u. stock_sane u) (new_order F inp) {#} (engine_abs G R E)"
    by (rule valid_weaken [OF valid_new_order_txn [OF assms(5,6)]])
      (auto simp: new_order_post_def assms(4) effect_keeps_stock [OF _ assms(3,4,7)] split: sum.splits)
qed simp

theorem stock_stays_in_range_witness:
  "\<exists>E R. engine_ready (\<lambda>_. test_world) map_congee tuple_size E R
     \<and> ix (engine_abs map_congee R E) Stock (key_of Stock sample_stock) \<noteq> None
     \<and> runs_to False (\<lambda>_. test_world) map_congee tuple_size (\<lambda>x u. stock_sane u)
         (run_txn (\<lambda>_. test_world) map_congee (new_order sample_f64 sample_order) (\<lambda>_. (1, \<lambda>_. (False, False), False)) 0 E)"
proof (rule sample_loaded)
  fix E R assume s: "engine_ready (\<lambda>_. test_world) map_congee tuple_size E R" "db_ok (engine_abs map_congee R E)"
    "stock_sane (engine_abs map_congee R E)" "ix (engine_abs map_congee R E) Stock (key_of Stock sample_stock) \<noteq> None"
  from stock_stays_in_range [OF map_crates.crates_axioms s(1-3) sample_order_ok(1,2,4)] s show ?thesis by blast
qed

end
