(* ===== verification/Spec2Isabelle.thy ===== *)
theory Spec2Isabelle
  imports Oid_Lock Db_Table Backoff Metrics Cache_Conc_Correct Traversal Tuples Release Tpcc_Keys Tpcc_New_Order
begin

text \<open>
  A verification development of the alchemy storage engine, an in-memory attribute cache in front of tables
  on non-volatile memory. Paths below are relative to \<^verbatim>\<open>src/\<close>.

  \<^bold>\<open>The program.\<close> A table (\<^verbatim>\<open>src/table.rs\<close>) finds the row of a key in an index and works on rows through the clock
  cache. The cache keeps the hot attributes of rows in slots and the whole tuples in a storage. One
  64-bit word per row, the object id, says whether the row is in a slot or only in storage, and
  carries a reader-writer lock in its top byte. Words and slots live in arrays whose blocks come from lock-free
  allocators; frames of memory come from mapped pool files. Around the engine there are a log, a batch
  executor for futures, and metrics.

  \<^bold>\<open>Theories, in the order of their dependencies.\<close>

  \<^item> \<open>Prelude\<close>, \<open>Error_Types\<close>: machine integers, atomic operations on one cell, shared lemmas; \<^verbatim>\<open>src/error.rs\<close>.
  \<^item> \<open>Oid_Word\<close>, \<open>Oid_Lock\<close> (\<^verbatim>\<open>attribute_cache/clock_cache/oid.rs\<close>): every operation on the word as a function, blocking
    ones as loops over the values the memory shows; then the interleaving of many clients, one atomic
    access per step, as an inductive relation. Shown: round trips, when the loops return, mutual
    exclusion, refinement of an abstract reader-writer lock, and what happens at 127 readers.
  \<^item> \<open>Node_Meta\<close> (\<^verbatim>\<open>node_meta.rs\<close>): the metadata word of a slot; its operations act on their own field.
  \<^item> \<open>Query\<close>, \<open>Schema\<close>, \<open>Item_Schema\<close> (\<^verbatim>\<open>query.rs\<close>, \<^verbatim>\<open>attribute_cache/mod.rs\<close>, \<^verbatim>\<open>utils/test_gen.rs\<close>): fields, update queries and
    their iterator; the \<^verbatim>\<open>Schema\<close> trait as a record with the locale \<open>schema_laws\<close>, interpreted on the schema of the tests.
  \<^item> \<open>Obj_Alloc\<close>, \<open>Heap_Array\<close> (\<^verbatim>\<open>utils/obj_alloc.rs\<close>): the free list in memory, sequential and interleaved, and
    arrays with an allocator per thread. Shown: blocks handed out are distinct, appending keeps all
    elements, and the ABA state that \<^verbatim>\<open>dealloc\<close> allows.
  \<^item> \<open>Oid_Array\<close>, \<open>Table_Storage\<close>, \<open>Pm_Heap\<close> (\<^verbatim>\<open>src/storage\<close>, \<^verbatim>\<open>utils/mmap.rs\<close>): row ids, tuples by row id, and frames in
    pool files. Shown: row ids are unique, live frames never overlap, releasing undoes allocating.
  \<^item> \<open>Cache_Inner\<close>, \<open>Clock_Cache\<close> (\<^verbatim>\<open>clock_cache/cache_inner.rs\<close>, \<^verbatim>\<open>mod.rs\<close>): slots, the clock hand and eviction, and the
    cache. Shown: the cache refines a plain map from rows to tuples with a lock each, every allowed
    command returns, words and slots agree, and when probing finds a slot.
  \<^item> \<open>Db_Index\<close>, \<open>Db_Table\<close>, \<open>Insert_Only\<close> (\<^verbatim>\<open>index/mod.rs\<close>, \<^verbatim>\<open>table.rs\<close>): both indexes behind the locale \<open>db_index\<close>, tables
    and their builder, and insert-only tables. Shown: a table refines a keyed map, what was inserted is
    found, range scans stay in their buffer, insert-only tables keep each thread's tuples in order.
  \<^item> \<open>Backoff\<close>, \<open>Logger\<close>, \<open>Executor\<close>, \<open>Metrics\<close> (\<^verbatim>\<open>utils/backoff.rs\<close>, \<^verbatim>\<open>log/mod.rs\<close>, \<^verbatim>\<open>async_task\<close>, \<^verbatim>\<open>metric/src\<close>): bounded
    backoff; the log file as a prefix of the log, and how it is lost; the executor against
    \<^verbatim>\<open>block_on\<close>, and when it hangs; merging recorders against recording in one.

  \<^bold>\<open>Conventions.\<close> Memory is a function from addresses to words. Errors are values: \<^const>\<open>Inl\<close>, or \<^const>\<open>Fail\<close> and \<^const>\<open>Panic\<close>
  of an outcome; debug assertions panic or are predicates of their own. An operation that may run
  forever has an option type with \<^const>\<open>None\<close> for an endless loop, either by \<open>partial_function\<close> or over a
  stream of the values that memory shows; no fuel is used, so no bound has to be chosen. Spurious
  failures, random draws, thread ids and results of the operating system are arguments. Hash maps
  of the \<^verbatim>\<open>flurry\<close> crate, the \<^verbatim>\<open>congee\<close> tree and system calls are parameters with documented
  laws in locales (\<open>hash_map_laws\<close>, \<open>congee_laws\<close>, \<open>os_laws\<close>); interpretations show that the laws can hold.

  \<^bold>\<open>Limits.\<close> Interleaving is modelled for the lock word and the allocator; the operations of cache, table and
  log are steps that run alone, one after the other. Atomics are sequentially consistent. Arithmetic that
  the source leaves unchecked wraps as in a release build. Reclaiming memory on drop is
  modelled for frames only. Not modelled: the benchmarks, procedural macros of tuples, processor
  intrinsics (plain copies and hints), epoch guards, and formatting for debug output.
\<close>

end
